(* ===== verification/Prelude.thy ===== *)
theory Prelude
  imports Complex_Main "HOL-Library.Word"
begin

text \<open>
  Shared base of the development: the types that name Go's machine values, the model of Go
  errors (values with a wrapping chain, as \<^verbatim>\<open>errors.As\<close>, \<^verbatim>\<open>errors.Is\<close> and
  \<^verbatim>\<open>errors.Unwrap\<close> inspect them), byte strings, 64-bit wrap-around, and the lemma
  collections the component theories extend:
  \<^item> \<open>parse_simps\<close>: unfolding of reader combinators and wire parsers;
  \<^item> \<open>step_simps\<close>: unfolding of the critical sections of the stateful components.
\<close>

named_theorems parse_simps \<open>equations of the wire parsers\<close>
named_theorems step_simps \<open>equations of the state-changing operations\<close>

section \<open>Machine values\<close>

type_synonym byte = "8 word"
type_synonym port = "16 word"
type_synonym uint64 = "64 word"

text \<open>
  A Go \<^verbatim>\<open>string\<close> is a sequence of bytes, and so is Isabelle's \<^typ>\<open>string\<close> (a \<^typ>\<open>char\<close>
  is eight bits). The two conversions are Go's \<^verbatim>\<open>string(b)\<close> and \<^verbatim>\<open>[]byte(s)\<close>.
\<close>

definition string_of_bytes :: "byte list \<Rightarrow> string" where
  "string_of_bytes bs = map (\<lambda>b. char_of (unat b)) bs"

definition bytes_of_string :: "string \<Rightarrow> byte list" where
  "bytes_of_string s = map (\<lambda>c. word_of_nat (of_char c)) s"

abbreviation code :: "char \<Rightarrow> nat" where
  "code c \<equiv> of_char c"

lemma code_less_256 [simp]: "code c < 256"
proof -
  have "code c mod 256 < 256" by simp
  then show ?thesis by (simp only: of_char_mod_256)
qed

lemma unat_byte_less [simp]: "unat (b :: byte) < 256"
  using unsigned_less [of b, where ?'a = nat] by simp

lemma unat_byte_le [simp]: "unat (b :: byte) \<le> 255"
  using unat_byte_less [of b] by linarith

lemma string_of_bytes_of_string [simp]: "string_of_bytes (bytes_of_string s) = s"
  by (induction s)
    (simp_all add: string_of_bytes_def bytes_of_string_def unat_of_nat)

lemma bytes_of_string_of_bytes [simp]: "bytes_of_string (string_of_bytes bs) = bs"
proof (induction bs)
  case Nil
  then show ?case by (simp add: string_of_bytes_def bytes_of_string_def)
next
  case (Cons b bs)
  have "unat b < 256" using unsigned_less [of b, where ?'a = nat] by simp
  with Cons show ?case by (simp add: string_of_bytes_def bytes_of_string_def)
qed

lemma length_string_of_bytes [simp]: "length (string_of_bytes bs) = length bs"
  by (simp add: string_of_bytes_def)

lemma length_bytes_of_string [simp]: "length (bytes_of_string s) = length s"
  by (simp add: bytes_of_string_def)

lemma bytes_of_string_append [simp]:
  "bytes_of_string (s @ t) = bytes_of_string s @ bytes_of_string t"
  by (simp add: bytes_of_string_def)

lemma bytes_of_string_inject [simp]: "bytes_of_string s = bytes_of_string t \<longleftrightarrow> s = t"
  by (metis string_of_bytes_of_string)

text \<open>
  Go's \<^verbatim>\<open>int\<close>, \<^verbatim>\<open>int64\<close> and \<^verbatim>\<open>time.Duration\<close> are signed 64-bit on every platform the
  program is built for. They are \<^typ>\<open>int\<close> here; where an operation can leave the range, the
  wrap-around is written out with \<open>int64\<close>.
\<close>

definition int64 :: "int \<Rightarrow> int" where
  "int64 x = signed_take_bit 63 x"

definition max_int64 :: int where "max_int64 = 2 ^ 63 - 1"
definition min_int64 :: int where "min_int64 = - (2 ^ 63)"

lemma int64_bounds: "min_int64 = - 9223372036854775808" "max_int64 = 9223372036854775807"
  by (simp_all add: min_int64_def max_int64_def)

lemma int64_id: "min_int64 \<le> x \<Longrightarrow> x \<le> max_int64 \<Longrightarrow> int64 x = x"
  by (simp add: int64_def min_int64_def max_int64_def signed_take_bit_int_eq_self)

lemma int64_range: "min_int64 \<le> int64 x" "int64 x \<le> max_int64"
  using signed_take_bit_int_greater_eq_minus_exp [of 63 x]
    signed_take_bit_int_less_exp [of 63 x]
  by (simp_all add: int64_def min_int64_def max_int64_def)

section \<open>Errors\<close>

text \<open>
  \<^verbatim>\<open>RateLimitError\<close> and \<^verbatim>\<open>AuthError\<close> of pia.go. An \<open>env_error\<close> is an error value made
  outside src/ (the network, the TLS stack, the JSON decoder, the WireGuard device): its text
  and what \<^verbatim>\<open>Timeout()\<close>, \<^verbatim>\<open>errors.Is(_, net.ErrClosed)\<close> and \<^verbatim>\<open>errors.Is(_, io.EOF)\<close>
  answer for it.
\<close>

record rate_limit_error =
  rl_endpoint :: string
  rl_status :: string
  rl_body :: string
  rl_retry_after :: int

record auth_error =
  ae_endpoint :: string
  ae_status :: string
  ae_body :: string

record env_error =
  ee_text :: string
  ee_timeout :: bool
  ee_closed :: bool
  ee_eof :: bool

text \<open>
  A Go error is a leaf (a message made by \<^verbatim>\<open>errors.New\<close> or by \<^verbatim>\<open>fmt.Errorf\<close> without
  \<^verbatim>\<open>%w\<close>, one of the program's own error values, or an environment error) under any number of
  \<^verbatim>\<open>fmt.Errorf("pre %w post", err)\<close> wrappers.
\<close>

datatype gerror =
    ErrMsg string
  | ErrWrap string gerror string
  | ErrRateLimit rate_limit_error
  | ErrAuth auth_error
  | ErrTunnelDown
  | ErrShortWrite
  | ErrCanceled
  | ErrEnv env_error

fun as_rate_limit :: "gerror \<Rightarrow> rate_limit_error option" where
  "as_rate_limit (ErrWrap _ e _) = as_rate_limit e"
| "as_rate_limit (ErrRateLimit r) = Some r"
| "as_rate_limit _ = None"

fun as_auth :: "gerror \<Rightarrow> auth_error option" where
  "as_auth (ErrWrap _ e _) = as_auth e"
| "as_auth (ErrAuth a) = Some a"
| "as_auth _ = None"

fun is_net_closed :: "gerror \<Rightarrow> bool" where
  "is_net_closed (ErrWrap _ e _) = is_net_closed e"
| "is_net_closed (ErrEnv e) = ee_closed e"
| "is_net_closed _ = False"

fun is_eof :: "gerror \<Rightarrow> bool" where
  "is_eof (ErrWrap _ e _) = is_eof e"
| "is_eof (ErrEnv e) = ee_eof e"
| "is_eof _ = False"

fun unwrap :: "gerror \<Rightarrow> gerror option" where
  "unwrap (ErrWrap _ e _) = Some e"
| "unwrap _ = None"

text \<open>Whether an error value itself has a \<^verbatim>\<open>Timeout()\<close> method that answers true.\<close>

fun has_timeout :: "gerror \<Rightarrow> bool" where
  "has_timeout (ErrEnv e) = ee_timeout e"
| "has_timeout _ = False"

section \<open>Results\<close>

type_synonym 'a result = "gerror + 'a"

definition rbind :: "'a result \<Rightarrow> ('a \<Rightarrow> 'b result) \<Rightarrow> 'b result" where
  "rbind r f = (case r of Inl e \<Rightarrow> Inl e | Inr a \<Rightarrow> f a)"

definition is_ok :: "'a result \<Rightarrow> bool" where
  "is_ok r \<longleftrightarrow> (case r of Inl _ \<Rightarrow> False | Inr _ \<Rightarrow> True)"

lemma rbind_simps [simp]: "rbind (Inl e) f = Inl e" "rbind (Inr a) f = f a"
  by (simp_all add: rbind_def)

lemma rbind_Inr_iff: "rbind r f = Inr b \<longleftrightarrow> (\<exists>a. r = Inr a \<and> f a = Inr b)"
  by (cases r) simp_all

lemma is_ok_simps [simp]: "\<not> is_ok (Inl e)" "is_ok (Inr a)"
  by (simp_all add: is_ok_def)

lemma is_okE: "is_ok r \<Longrightarrow> (\<And>a. r = Inr a \<Longrightarrow> thesis) \<Longrightarrow> thesis"
  by (cases r) simp_all

section \<open>Lists\<close>

fun find_idx :: "('a \<Rightarrow> bool) \<Rightarrow> 'a list \<Rightarrow> nat option" where
  "find_idx P [] = None"
| "find_idx P (x # xs) = (if P x then Some 0 else map_option Suc (find_idx P xs))"

lemma find_idx_None: "find_idx P xs = None \<longleftrightarrow> (\<forall>x \<in> set xs. \<not> P x)"
  by (induction xs) auto

lemma find_idx_Some:
  "find_idx P xs = Some i \<longleftrightarrow>
     i < length xs \<and> P (xs ! i) \<and> (\<forall>x \<in> set (take i xs). \<not> P x)"
proof (induction xs arbitrary: i)
  case Nil
  then show ?case by simp
next
  case (Cons x xs)
  then show ?case by (cases i) auto
qed

lemma find_idx_append_hit:
  "(\<forall>x \<in> set xs. \<not> P x) \<Longrightarrow> P y \<Longrightarrow> find_idx P (xs @ y # ys) = Some (length xs)"
  by (induction xs) auto

lemma length_2_iff: "length xs = 2 \<longleftrightarrow> (\<exists>a b. xs = [a, b])"
  by (auto simp: numeral_2_eq_2 length_Suc_conv)

lemma length_4_iff: "length xs = 4 \<longleftrightarrow> (\<exists>a b c d. xs = [a, b, c, d])"
  by (auto simp: eval_nat_numeral length_Suc_conv)

section \<open>Transition systems\<close>

text \<open>
  What the components that run concurrently share: a step relation and the states it reaches from a
  start. A property of the start that every step keeps holds in every reachable state.
\<close>

locale machine =
  fixes step :: "'s \<Rightarrow> 's \<Rightarrow> bool" and reach :: "'s \<Rightarrow> bool" and init :: 's
  assumes reach_init: "reach init"
    and reach_step: "reach s \<Longrightarrow> step s t \<Longrightarrow> reach t"
    and reach_induct: "reach s \<Longrightarrow> P init \<Longrightarrow> (\<And>s t. reach s \<Longrightarrow> P s \<Longrightarrow> step s t \<Longrightarrow> P t) \<Longrightarrow> P s"
begin

lemma invariant:
  assumes "reach s" and "P init" and "\<And>s t. step s t \<Longrightarrow> P s \<Longrightarrow> P t"
  shows "P s"
  using assms(1) by (rule reach_induct [where P = P]) (use assms(2,3) in blast)+

lemma steps_reach: "step\<^sup>*\<^sup>* s t \<Longrightarrow> reach s \<Longrightarrow> reach t"
  by (induction rule: rtranclp_induct) (auto intro: reach_step)

lemma reach_steps: "reach s \<Longrightarrow> step\<^sup>*\<^sup>* init s"
  by (rule reach_induct [where P = "step\<^sup>*\<^sup>* init"]) auto

end

text \<open>
  A machine seen through a function of its states: each step is none or one of the abstract machine.
\<close>

locale refinement = machine +
  fixes abs :: "'s \<Rightarrow> 'a" and astep :: "'a \<Rightarrow> 'a \<Rightarrow> bool"
  assumes simulates: "reach s \<Longrightarrow> step s t \<Longrightarrow> abs t = abs s \<or> astep (abs s) (abs t)"
begin

lemma refines: "step\<^sup>*\<^sup>* s t \<Longrightarrow> reach s \<Longrightarrow> astep\<^sup>*\<^sup>* (abs s) (abs t)"
proof (induction rule: rtranclp_induct)
  case base
  show ?case by simp
next
  case (step t u)
  from simulates [OF steps_reach [OF step(1,4)] step(2)] step(3,4) show ?case
    by (metis rtranclp.rtrancl_into_rtrancl)
qed

lemma abs_reached: "reach s \<Longrightarrow> astep\<^sup>*\<^sup>* (abs init) (abs s)"
  by (rule refines [OF reach_steps reach_init])

end

text \<open>
  States (\<open>live\<close>) from which steps lead on to others with less left to do, until nothing is: they can reach
  an end.
\<close>

locale progress =
  fixes step :: "'s \<Rightarrow> 's \<Rightarrow> bool" and live :: "'s \<Rightarrow> bool" and left :: "'s \<Rightarrow> nat"
  assumes moves_on: "live s \<Longrightarrow> 0 < left s \<Longrightarrow> \<exists>t. step\<^sup>*\<^sup>* s t \<and> live t \<and> left t < left s"
begin

lemma ends: "live s \<Longrightarrow> \<exists>t. step\<^sup>*\<^sup>* s t \<and> live t \<and> left t = 0"
proof (induction "left s" arbitrary: s rule: less_induct)
  case less
  show ?case
  proof (cases "left s = 0")
    case True
    with less.prems show ?thesis by blast
  next
    case False
    then obtain t where t: "step\<^sup>*\<^sup>* s t" "live t" "left t < left s" using moves_on less.prems by blast
    from less.hyps [OF t(3,2)] t(1) show ?thesis by (meson rtranclp_trans)
  qed
qed

end

end
