(* ===== verification/GoStrings.thy ===== *)
theory GoStrings
  imports Prelude
begin

text \<open>
  The parts of Go's \<^verbatim>\<open>strconv\<close>, \<^verbatim>\<open>strings\<close>, \<^verbatim>\<open>time\<close> and \<^verbatim>\<open>net\<close> that the program calls
  on strings: number printing and parsing, cutting, splitting, trimming, case folding, and
  \<^verbatim>\<open>host:port\<close> addresses. Strings are byte strings, so the ASCII paths of the library are
  translated exactly. Where the library leaves its ASCII path and consults the Unicode tables,
  the model calls a field of the record \<open>unicode\<close>, a parameter of every definition concerned.
\<close>

section \<open>Characters\<close>

definition is_digit :: "char \<Rightarrow> bool" where
  "is_digit c \<longleftrightarrow> 48 \<le> code c \<and> code c \<le> 57"

definition digit_val :: "char \<Rightarrow> nat" where
  "digit_val c = code c - 48"

definition digit_char :: "nat \<Rightarrow> char" where
  "digit_char n = char_of (48 + n)"

definition is_ascii :: "char \<Rightarrow> bool" where
  "is_ascii c \<longleftrightarrow> code c < 128"

definition is_space :: "char \<Rightarrow> bool" where
  "is_space c \<longleftrightarrow> code c \<in> {9, 10, 11, 12, 13, 32}"

definition newline :: char where "newline = char_of (10 :: nat)"

definition ascii_lower :: "char \<Rightarrow> char" where
  "ascii_lower c = (if 65 \<le> code c \<and> code c \<le> 90 then char_of (code c + 32) else c)"

lemma digit_char_props [simp]:
  assumes "n < 10"
  shows "is_digit (digit_char n)" "digit_val (digit_char n) = n"
  using assms by (simp_all add: is_digit_def digit_val_def digit_char_def)

lemma digit_not_punct:
  "is_digit c \<Longrightarrow> c \<noteq> CHR ''.''" "is_digit c \<Longrightarrow> c \<noteq> CHR '':''"
  "is_digit c \<Longrightarrow> c \<noteq> CHR ''-''" "is_digit c \<Longrightarrow> c \<noteq> CHR ''+''"
  "is_digit c \<Longrightarrow> c \<noteq> CHR ''[''" "is_digit c \<Longrightarrow> c \<noteq> CHR '']''"
  "is_digit c \<Longrightarrow> c \<noteq> CHR ''%''"
  by (auto simp: is_digit_def)

section \<open>Decimal numbers: strconv\<close>

fun nat_to_dec :: "nat \<Rightarrow> string" where
  "nat_to_dec n =
     (if n < 10 then [digit_char n] else nat_to_dec (n div 10) @ [digit_char (n mod 10)])"

declare nat_to_dec.simps [simp del]

definition dec_to_nat :: "string \<Rightarrow> nat" where
  "dec_to_nat s = foldl (\<lambda>a c. 10 * a + digit_val c) 0 s"

text \<open>\<^verbatim>\<open>strconv.Itoa\<close>, and the \<^verbatim>\<open>%d\<close> verb.\<close>

definition itoa :: "int \<Rightarrow> string" where
  "itoa i = (if i < 0 then CHR ''-'' # nat_to_dec (nat (- i)) else nat_to_dec (nat i))"

definition all_digits :: "string \<Rightarrow> bool" where
  "all_digits s \<longleftrightarrow> s \<noteq> [] \<and> list_all is_digit s"

text \<open>\<^verbatim>\<open>strconv.Atoi\<close>: an optional sign, digits, and the range of a 64-bit \<^verbatim>\<open>int\<close>.\<close>

definition atoi :: "string \<Rightarrow> int option" where
  "atoi s =
     (let (neg, ds) =
        (case s of [] \<Rightarrow> (False, [])
         | c # cs \<Rightarrow> if c = CHR ''-'' then (True, cs)
                     else if c = CHR ''+'' then (False, cs) else (False, c # cs));
        v = (if neg then - int (dec_to_nat ds) else int (dec_to_nat ds))
      in if all_digits ds \<and> min_int64 \<le> v \<and> v \<le> max_int64 then Some v else None)"

text \<open>
  The value part of \<^verbatim>\<open>strconv.ParseUint(s, 10, 64)\<close>, whose error the program drops: 0 on a
  syntax error, the largest value on a range error.
\<close>

definition parse_uint64 :: "string \<Rightarrow> uint64" where
  "parse_uint64 s =
     (if \<not> all_digits s then 0
      else if dec_to_nat s < 2 ^ 64 then word_of_nat (dec_to_nat s) else - 1)"

text \<open>The value part of \<^verbatim>\<open>strconv.ParseInt(s, 10, 64)\<close>: clamped on a range error.\<close>

definition parse_int64 :: "string \<Rightarrow> int" where
  "parse_int64 s =
     (let (neg, ds) =
        (case s of [] \<Rightarrow> (False, [])
         | c # cs \<Rightarrow> if c = CHR ''-'' then (True, cs)
                     else if c = CHR ''+'' then (False, cs) else (False, c # cs));
        v = (if neg then - int (dec_to_nat ds) else int (dec_to_nat ds))
      in if \<not> all_digits ds then 0 else max min_int64 (min max_int64 v))"

lemma nat_to_dec_nonempty [simp]: "nat_to_dec n \<noteq> []"
  by (subst nat_to_dec.simps) simp

lemma nat_to_dec_digits: "list_all is_digit (nat_to_dec n)"
proof (induction n rule: nat_to_dec.induct)
  case (1 n)
  then show ?case by (subst nat_to_dec.simps) simp
qed

lemma all_digits_nat_to_dec [simp]: "all_digits (nat_to_dec n)"
  by (simp add: all_digits_def nat_to_dec_digits)

lemma dec_to_nat_snoc [simp]: "dec_to_nat (s @ [c]) = 10 * dec_to_nat s + digit_val c"
  by (simp add: dec_to_nat_def)

lemma dec_to_nat_to_dec [simp]: "dec_to_nat (nat_to_dec n) = n"
proof (induction n rule: nat_to_dec.induct)
  case (1 n)
  show ?case
  proof (cases "n < 10")
    case True
    then show ?thesis by (subst nat_to_dec.simps) (simp add: dec_to_nat_def)
  next
    case False
    with 1 show ?thesis by (subst nat_to_dec.simps) simp
  qed
qed

lemma nat_to_dec_hd: "\<exists>c cs. nat_to_dec n = c # cs \<and> is_digit c"
  using nat_to_dec_digits [of n] by (cases "nat_to_dec n") auto

lemma atoi_itoa:
  assumes "min_int64 \<le> i" "i \<le> max_int64"
  shows "atoi (itoa i) = Some i"
proof (cases "i < 0")
  case True
  with assms show ?thesis by (simp add: atoi_def itoa_def)
next
  case False
  obtain c cs where c: "nat_to_dec (nat i) = c # cs" "is_digit c"
    using nat_to_dec_hd by blast
  have d: "all_digits (c # cs)" "dec_to_nat (c # cs) = nat i"
    using c(1) by (metis all_digits_nat_to_dec, metis dec_to_nat_to_dec)
  have "c \<noteq> CHR ''-''" "c \<noteq> CHR ''+''"
    using c(2) by (auto dest: digit_not_punct)
  with False assms c d show ?thesis by (simp add: atoi_def itoa_def)
qed

lemma itoa_inject: "itoa i = itoa j \<Longrightarrow> i = j"
proof -
  assume eq: "itoa i = itoa j"
  have neq: "CHR ''-'' # s \<noteq> nat_to_dec n" for s n
    using nat_to_dec_hd [of n] by (auto dest: digit_not_punct)
  have "nat_to_dec m = nat_to_dec n \<Longrightarrow> m = n" for m n
    by (metis dec_to_nat_to_dec)
  then have "nat (- i) = nat (- j)" if "i < 0" "j < 0"
    using eq that by (simp add: itoa_def)
  moreover have "nat i = nat j" if "\<not> i < 0" "\<not> j < 0"
    using eq that \<open>\<And>n m. nat_to_dec m = nat_to_dec n \<Longrightarrow> m = n\<close> by (simp add: itoa_def)
  moreover have "(i < 0) = (j < 0)"
    using eq neq by (metis itoa_def)
  ultimately show "i = j" by linarith
qed

lemma itoa_no_punct:
  "CHR '':'' \<notin> set (itoa i)" "CHR ''['' \<notin> set (itoa i)" "CHR '']'' \<notin> set (itoa i)"
  "CHR ''.'' \<notin> set (itoa i)"
proof -
  have "\<forall>c \<in> set (nat_to_dec n). is_digit c" for n
    using nat_to_dec_digits [of n] by (simp add: list_all_iff)
  then have "\<forall>c \<in> set (itoa i). is_digit c \<or> c = CHR ''-''"
    by (simp add: itoa_def)
  then show "CHR '':'' \<notin> set (itoa i)" "CHR ''['' \<notin> set (itoa i)" "CHR '']'' \<notin> set (itoa i)"
    "CHR ''.'' \<notin> set (itoa i)"
    by (auto dest: digit_not_punct)
qed

section \<open>Durations\<close>

definition nanosecond :: int where "nanosecond = 1"
definition millisecond :: int where "millisecond = 1000000"
definition second :: int where "second = 1000000000"
definition minute :: int where "minute = 60 * second"

lemmas duration_defs = nanosecond_def millisecond_def minute_def second_def

fun pad_left :: "nat \<Rightarrow> string \<Rightarrow> string" where
  "pad_left n s = replicate (n - length s) (CHR ''0'') @ s"

definition trim_zeros :: "string \<Rightarrow> string" where
  "trim_zeros s = rev (dropWhile (\<lambda>c. c = CHR ''0'') (rev s))"

text \<open>\<^verbatim>\<open>fmtFrac\<close>: the fraction of \<open>u\<close> below \<open>10 ^ prec\<close>, without trailing zeros.\<close>

definition fmt_frac :: "nat \<Rightarrow> nat \<Rightarrow> string" where
  "fmt_frac u prec =
     (let ds = trim_zeros (pad_left prec (nat_to_dec (u mod 10 ^ prec)))
      in if ds = [] then [] else CHR ''.'' # ds)"

text \<open>\<^verbatim>\<open>time.Duration.String\<close>.\<close>

definition duration_string :: "int \<Rightarrow> string" where
  "duration_string d =
     (let u = nat \<bar>d\<bar>;
        body =
          (if u = 0 then ''0s''
           else if u < 1000 then nat_to_dec u @ ''ns''
           else if u < 1000000
             then nat_to_dec (u div 1000) @ fmt_frac u 3 @ [char_of (194::nat), char_of (181::nat)] @ ''s''
           else if u < 1000000000 then nat_to_dec (u div 1000000) @ fmt_frac u 6 @ ''ms''
           else
             (let s = u div 1000000000; m = s div 60; h = m div 60;
                secs = nat_to_dec (s mod 60) @ fmt_frac u 9 @ ''s''
              in if m = 0 then secs
                 else if h = 0 then nat_to_dec (m mod 60) @ ''m'' @ secs
                 else nat_to_dec h @ ''h'' @ nat_to_dec (m mod 60) @ ''m'' @ secs))
      in if d < 0 then CHR ''-'' # body else body)"

section \<open>Times\<close>

text \<open>
  A \<^verbatim>\<open>time.Time\<close> is its distance from the Unix epoch in nanoseconds; the zero time is the
  first instant of year 1. \<^verbatim>\<open>Sub\<close> saturates.
\<close>

type_synonym gotime = int

definition zero_time :: gotime where "zero_time = - 62135596800 * second"

definition time_sub :: "gotime \<Rightarrow> gotime \<Rightarrow> int" where
  "time_sub t u = max min_int64 (min max_int64 (t - u))"

definition unix_milli :: "gotime \<Rightarrow> int" where "unix_milli t = t div millisecond"

definition unix_time :: "int \<Rightarrow> gotime" where "unix_time sec = sec * second"

text \<open>
  \<^verbatim>\<open>d.Seconds()\<close> and \<^verbatim>\<open>int64(d.Seconds())\<close>. A \<^verbatim>\<open>float64\<close> is the rational it denotes, and
  \<open>fl\<close> rounds an exact result to one: a parameter of every definition that computes with
  floats, applied after each operation.
\<close>

definition quot64 :: "int \<Rightarrow> int \<Rightarrow> int" where
  "quot64 a b = sgn a * (\<bar>a\<bar> div b)"

definition duration_seconds :: "(rat \<Rightarrow> rat) \<Rightarrow> int \<Rightarrow> rat" where
  "duration_seconds fl d =
     (let sec = quot64 d second; nsec = d - sec * second
      in fl (fl (of_int sec) + fl (fl (of_int nsec) / 1000000000)))"

definition whole_seconds :: "(rat \<Rightarrow> rat) \<Rightarrow> int \<Rightarrow> int" where
  "whole_seconds fl d =
     (let r = duration_seconds fl d in if r < 0 then \<lceil>r\<rceil> else \<lfloor>r\<rfloor>)"

text \<open>\<^verbatim>\<open>d.Milliseconds()\<close>.\<close>

definition milliseconds :: "int \<Rightarrow> int" where
  "milliseconds d = quot64 d millisecond"

section \<open>strings: Cut, Split, TrimSpace, EqualFold, ToLower\<close>

definition index_byte :: "char \<Rightarrow> string \<Rightarrow> nat option" where
  "index_byte c s = find_idx (\<lambda>x. x = c) s"

definition last_index_byte :: "char \<Rightarrow> string \<Rightarrow> nat option" where
  "last_index_byte c s = map_option (\<lambda>i. length s - 1 - i) (index_byte c (rev s))"

text \<open>\<^verbatim>\<open>strings.Cut\<close> with a one-byte separator.\<close>

definition cut :: "string \<Rightarrow> char \<Rightarrow> (string \<times> string) option" where
  "cut s c = map_option (\<lambda>i. (take i s, drop (Suc i) s)) (index_byte c s)"

text \<open>\<^verbatim>\<open>strings.Split\<close> with a one-byte separator.\<close>

fun split_on :: "char \<Rightarrow> string \<Rightarrow> string list" where
  "split_on c [] = [[]]"
| "split_on c (x # xs) =
     (if x = c then [] # split_on c xs
      else (case split_on c xs of [] \<Rightarrow> [[x]] | f # fs \<Rightarrow> (x # f) # fs))"

record unicode =
  u_trim :: "string \<Rightarrow> string"
  u_trim_right :: "string \<Rightarrow> string"
  u_fold :: "string \<Rightarrow> string \<Rightarrow> bool"
  u_lower :: "string \<Rightarrow> string"
  u_quote :: "string \<Rightarrow> string"

fun trim_end_rev :: "unicode \<Rightarrow> string \<Rightarrow> string" where
  "trim_end_rev U [] = []"
| "trim_end_rev U (c # r) =
     (if \<not> is_ascii c then u_trim_right U (rev (c # r))
      else if is_space c then trim_end_rev U r
      else rev (c # r))"

fun trim_space :: "unicode \<Rightarrow> string \<Rightarrow> string" where
  "trim_space U [] = []"
| "trim_space U (c # cs) =
     (if \<not> is_ascii c then u_trim U (c # cs)
      else if is_space c then trim_space U cs
      else trim_end_rev U (rev (c # cs)))"

text \<open>
  \<^verbatim>\<open>strings.EqualFold\<close>: bytes are compared while both are ASCII (equal, or the same letter in
  two cases); at the first byte that is not, the rest goes to the Unicode comparison.
\<close>

fun equal_fold :: "unicode \<Rightarrow> string \<Rightarrow> string \<Rightarrow> bool" where
  "equal_fold U [] [] = True"
| "equal_fold U [] (t # ts) = False"
| "equal_fold U (s # ss) [] = False"
| "equal_fold U (s # ss) (t # ts) =
     (if \<not> is_ascii s \<or> \<not> is_ascii t then u_fold U (s # ss) (t # ts)
      else if ascii_lower s = ascii_lower t then equal_fold U ss ts
      else False)"

definition to_lower :: "unicode \<Rightarrow> string \<Rightarrow> string" where
  "to_lower U s = (if list_all is_ascii s then map ascii_lower s else u_lower U s)"

lemma split_on_nonempty [simp]: "split_on c s \<noteq> []"
  by (induction s) (auto split: list.splits)

lemma split_on_no_sep: "c \<notin> set s \<Longrightarrow> split_on c s = [s]"
  by (induction s) auto

lemma split_on_append: "c \<notin> set s \<Longrightarrow> split_on c (s @ c # t) = s # split_on c t"
  by (induction s) auto

lemma cut_append: "c \<notin> set s \<Longrightarrow> cut (s @ c # t) c = Some (s, t)"
  unfolding cut_def index_byte_def
  by (subst find_idx_append_hit) auto

lemma cut_None: "cut s c = None \<longleftrightarrow> c \<notin> set s"
  by (auto simp: cut_def index_byte_def find_idx_None)

lemma equal_fold_ascii:
  "list_all is_ascii s \<Longrightarrow> list_all is_ascii t \<Longrightarrow>
     equal_fold U s t \<longleftrightarrow> map ascii_lower s = map ascii_lower t"
  by (induction U s t rule: equal_fold.induct) auto

lemma equal_fold_refl: "(\<And>x. u_fold U x x) \<Longrightarrow> equal_fold U s s"
  by (induction s) auto

lemma trim_space_plain:
  assumes "s = [] \<or> (\<not> is_space (hd s) \<and> \<not> is_space (last s))" "list_all is_ascii s"
  shows "trim_space U s = s"
proof (cases s)
  case Nil
  then show ?thesis by simp
next
  case (Cons c cs)
  then have "rev s = last s # rev (butlast s)"
    by (metis append_butlast_last_id list.distinct(1) rev.simps(2) rev_rev_ident)
  moreover have "is_ascii (last s)"
    using assms(2) Cons by (metis last_in_set list.distinct(1) list_all_iff)
  moreover have "rev (butlast s) = rev (butlast s)" ..
  ultimately have "trim_end_rev U (rev s) = s"
    using assms(1) Cons by (metis rev_rev_ident list.distinct(1) trim_end_rev.simps(2))
  with assms Cons show ?thesis by simp
qed

section \<open>net: JoinHostPort and SplitHostPort\<close>

definition join_host_port :: "string \<Rightarrow> string \<Rightarrow> string" where
  "join_host_port host prt =
     (if index_byte (CHR '':'') host \<noteq> None
      then ''['' @ host @ '']:'' @ prt
      else host @ '':'' @ prt)"

text \<open>
  \<^verbatim>\<open>net.SplitHostPort\<close>: \<open>j\<close> and \<open>k\<close> are the positions before which no opening,
  respectively closing, bracket can be left.
\<close>

definition addr_error :: "string \<Rightarrow> string \<Rightarrow> gerror" where
  "addr_error addr why = ErrMsg (''address '' @ addr @ '': '' @ why)"

definition missing_port :: string where "missing_port = ''missing port in address''"
definition too_many_colons :: string where "too_many_colons = ''too many colons in address''"

definition split_check :: "string \<Rightarrow> nat \<Rightarrow> nat \<Rightarrow> nat \<Rightarrow> string \<Rightarrow> (string \<times> string) result" where
  "split_check hp i j k host =
     (if index_byte (CHR ''['') (drop j hp) \<noteq> None
        then Inl (addr_error hp ''unexpected '[' in address'')
      else if index_byte (CHR '']'') (drop k hp) \<noteq> None
        then Inl (addr_error hp ''unexpected ']' in address'')
      else Inr (host, drop (Suc i) hp))"

definition split_host_port :: "string \<Rightarrow> (string \<times> string) result" where
  "split_host_port hp =
     (case last_index_byte (CHR '':'') hp of
        None \<Rightarrow> Inl (addr_error hp missing_port)
      | Some i \<Rightarrow>
          if hd hp = CHR ''[''
          then (case index_byte (CHR '']'') hp of
              None \<Rightarrow> Inl (addr_error hp ''missing ']' in address'')
            | Some e \<Rightarrow>
                if Suc e = length hp
                  then Inl (addr_error hp missing_port)
                else if Suc e = i
                  then split_check hp i 1 (Suc e) (drop 1 (take e hp))
                else if hp ! Suc e = CHR '':''
                  then Inl (addr_error hp too_many_colons)
                else Inl (addr_error hp missing_port))
          else if index_byte (CHR '':'') (take i hp) \<noteq> None
            then Inl (addr_error hp too_many_colons)
          else split_check hp i 0 0 (take i hp))"

lemma index_byte_None [simp]: "index_byte c s = None \<longleftrightarrow> c \<notin> set s"
  by (auto simp: index_byte_def find_idx_None)

lemma last_index_byte_append:
  assumes "c \<notin> set t"
  shows "last_index_byte c (s @ c # t) = Some (length s)"
proof -
  have "find_idx (\<lambda>x. x = c) (rev t @ c # rev s) = Some (length (rev t))"
    using assms by (intro find_idx_append_hit) auto
  then show ?thesis by (simp add: last_index_byte_def index_byte_def)
qed

lemma index_byte_append: "c \<notin> set s \<Longrightarrow> index_byte c (s @ c # t) = Some (length s)"
  by (auto simp: index_byte_def intro!: find_idx_append_hit)

text \<open>
  Splitting undoes joining for every host without brackets (names, IPv4 and IPv6 literals) and
  every port without colon or brackets (decimal numbers).
\<close>

lemma split_join_host_port:
  assumes "CHR ''['' \<notin> set h" "CHR '']'' \<notin> set h"
    and p: "CHR '':'' \<notin> set p" "CHR ''['' \<notin> set p" "CHR '']'' \<notin> set p"
  shows "split_host_port (join_host_port h p) = Inr (h, p)"
proof (cases "CHR '':'' \<in> set h")
  case True
  define hp where "hp = ''['' @ h @ '']:'' @ p"
  have hp1: "hp = (''['' @ h @ '']'') @ CHR '':'' # p" by (simp add: hp_def)
  have hp2: "hp = (''['' @ h) @ CHR '']'' # CHR '':'' # p" by (simp add: hp_def)
  have l: "last_index_byte (CHR '':'') hp = Some (length h + 2)"
    unfolding hp1 using last_index_byte_append [OF p(1), of "''['' @ h @ '']''"] by simp
  have e: "index_byte (CHR '']'') hp = Some (length h + 1)"
    unfolding hp2 using index_byte_append [of "CHR '']''" "''['' @ h" "CHR '':'' # p"] assms by simp
  have "split_host_port hp = split_check hp (length h + 2) 1 (length h + 2) h"
    unfolding split_host_port_def l e by (simp add: hp_def)
  also have "\<dots> = Inr (h, p)"
    using assms by (simp add: split_check_def hp_def)
  finally show ?thesis using True by (simp add: join_host_port_def hp_def)
next
  case False
  define hp where "hp = h @ CHR '':'' # p"
  have l: "last_index_byte (CHR '':'') hp = Some (length h)"
    unfolding hp_def by (rule last_index_byte_append [OF p(1)])
  have "hd hp \<noteq> CHR ''[''"
    using assms(1) by (cases h) (auto simp: hp_def)
  then have "split_host_port hp = split_check hp (length h) 0 0 h"
    unfolding split_host_port_def l using False by (simp add: hp_def)
  also have "\<dots> = Inr (h, p)"
    using assms by (simp add: split_check_def hp_def)
  finally have "split_host_port hp = Inr (h, p)" .
  then show ?thesis using False by (simp add: join_host_port_def hp_def)
qed

text \<open>
  A host with a bracket in it cannot be split off again, unless it is a plain name within brackets, which
  the split takes for an IPv6 literal.
\<close>

definition bracket_free :: "string \<Rightarrow> bool" where
  "bracket_free h \<longleftrightarrow> CHR ''['' \<notin> set h \<and> CHR '']'' \<notin> set h"

definition bracketed :: "string \<Rightarrow> string" where
  "bracketed h = ''['' @ h @ '']''"

text \<open>The host that splitting a joined address gives back, if it can be split at all.\<close>

definition target_host :: "string \<Rightarrow> string option" where
  "target_host a =
     (if bracket_free a then Some a
      else let h = butlast (tl a)
           in if a = bracketed h \<and> bracket_free h \<and> CHR '':'' \<notin> set h then Some h else None)"

lemma target_host_plain: "bracket_free a \<Longrightarrow> target_host a = Some a"
  by (simp add: target_host_def)

lemma index_byte_Some: "index_byte c s = Some e \<Longrightarrow> e < length s \<and> s ! e = c \<and> c \<notin> set (take e s)"
  by (auto simp: index_byte_def find_idx_Some)

lemma split_check_bad: "CHR ''['' \<in> set (drop j hp) \<or> CHR '']'' \<in> set (drop k hp) \<Longrightarrow> \<not> is_ok (split_check hp i j k h)"
  by (auto simp: split_check_def)

lemma split_bracket_colon:
  assumes "\<not> bracket_free h" and "CHR '':'' \<in> set h" and p: "CHR '':'' \<notin> set p"
  shows "\<not> is_ok (split_host_port (join_host_port h p))"
proof -
  define hp where "hp = ''['' @ h @ '']:'' @ p"
  have hp1: "hp = (''['' @ h @ '']'') @ CHR '':'' # p" by (simp add: hp_def)
  have l: "last_index_byte (CHR '':'') hp = Some (length h + 2)"
    unfolding hp1 using last_index_byte_append [OF p, of "''['' @ h @ '']''"] by simp
  have hd: "hd hp = CHR ''[''" by (simp add: hp_def)
  have "CHR '']'' \<in> set hp" by (simp add: hp_def)
  then obtain e where e: "index_byte (CHR '']'') hp = Some e"
    using index_byte_None [of "CHR '']''" hp] by (metis not_None_eq)
  have "\<not> is_ok (split_host_port hp)"
  proof (cases "Suc e = length h + 2")
    case False
    then show ?thesis unfolding split_host_port_def l e using hd by simp
  next
    case True
    have "take e hp = ''['' @ h" using True by (simp add: hp_def)
    then have "CHR '']'' \<notin> set h" using index_byte_Some [OF e] by simp
    then have "CHR ''['' \<in> set (drop 1 hp)" using assms(1) by (simp add: hp_def bracket_free_def)
    then have "\<not> is_ok (split_check hp (length h + 2) 1 (Suc e) (drop 1 (take e hp)))" by (intro split_check_bad) simp
    then show ?thesis unfolding split_host_port_def l e using hd True by simp
  qed
  then show ?thesis using assms(2) by (simp add: join_host_port_def hp_def)
qed

lemma split_bracket_plain:
  assumes "\<not> bracket_free h" and colon: "CHR '':'' \<notin> set h" and p: "CHR '':'' \<notin> set p" "CHR '']'' \<notin> set p"
    and other: "\<And>g. bracket_free g \<Longrightarrow> h \<noteq> bracketed g"
  shows "\<not> is_ok (split_host_port (join_host_port h p))"
proof -
  define hp where "hp = h @ CHR '':'' # p"
  have l: "last_index_byte (CHR '':'') hp = Some (length h)"
    unfolding hp_def by (rule last_index_byte_append [OF p(1)])
  have "\<not> is_ok (split_host_port hp)"
  proof (cases "hd hp = CHR ''[''")
    case False
    have "\<not> is_ok (split_check hp (length h) 0 0 (take (length h) hp))"
      using assms(1) by (intro split_check_bad) (auto simp: hp_def bracket_free_def)
    then show ?thesis unfolding split_host_port_def l using False colon by (simp add: hp_def)
  next
    case open_hd: True
    show ?thesis
    proof (cases "index_byte (CHR '']'') hp")
      case None
      show ?thesis unfolding split_host_port_def l None using open_hd by simp
    next
      case (Some e)
      note e = index_byte_Some [OF Some]
      show ?thesis
      proof (cases "Suc e = length h")
        case False
        then show ?thesis unfolding split_host_port_def l Some using open_hd by simp
      next
        case True
        obtain g0 where g0: "h = CHR ''['' # g0" using open_hd True by (cases h) (auto simp: hp_def)
        have "h ! e = CHR '']''" using e True by (simp add: hp_def nth_append)
        then have "g0 \<noteq> []" "last g0 = CHR '']''" using g0 True by (cases g0 rule: rev_cases; auto simp: nth_append)+
        then have "g0 = butlast g0 @ '']''" by (metis append_butlast_last_id)
        then have h: "h = bracketed (butlast g0)" using g0 by (simp add: bracketed_def)
        have "CHR '']'' \<notin> set (take e h)" using e True by (simp add: hp_def)
        then have "CHR '']'' \<notin> set (butlast g0)" using h True by (simp add: bracketed_def)
        then have "CHR ''['' \<in> set (butlast g0)" using other h by (auto simp: bracket_free_def)
        then have "CHR ''['' \<in> set (drop 1 hp)" by (simp add: hp_def h bracketed_def)
        then have "\<not> is_ok (split_check hp (length h) 1 (Suc e) (drop 1 (take e hp)))" by (intro split_check_bad) simp
        then show ?thesis unfolding split_host_port_def l Some using open_hd True by (simp add: hp_def)
      qed
    qed
  qed
  then show ?thesis using colon by (simp add: join_host_port_def hp_def)
qed

lemma split_bracketed:
  assumes "bracket_free h" "CHR '':'' \<notin> set h" and p: "CHR '':'' \<notin> set p" "CHR ''['' \<notin> set p" "CHR '']'' \<notin> set p"
  shows "split_host_port (join_host_port (bracketed h) p) = Inr (h, p)"
proof -
  define hp where "hp = bracketed h @ CHR '':'' # p"
  have l: "last_index_byte (CHR '':'') hp = Some (length h + 2)"
    unfolding hp_def using last_index_byte_append [OF p(1), of "bracketed h"] by (simp add: bracketed_def)
  have "hp = (''['' @ h) @ CHR '']'' # CHR '':'' # p" by (simp add: hp_def bracketed_def)
  then have e: "index_byte (CHR '']'') hp = Some (length h + 1)"
    using index_byte_append [of "CHR '']''" "''['' @ h" "CHR '':'' # p"] assms(1) by (simp add: bracket_free_def)
  have "split_host_port hp = split_check hp (length h + 2) 1 (length h + 2) h"
    unfolding split_host_port_def l e by (simp add: hp_def bracketed_def)
  also have "\<dots> = Inr (h, p)" using assms by (simp add: split_check_def hp_def bracketed_def bracket_free_def)
  finally have "split_host_port hp = Inr (h, p)" .
  then show ?thesis using assms(2) by (simp add: join_host_port_def hp_def bracketed_def)
qed

lemma split_target_host:
  assumes p: "CHR '':'' \<notin> set p" "CHR ''['' \<notin> set p" "CHR '']'' \<notin> set p"
  shows "case target_host a of
      Some h \<Rightarrow> split_host_port (join_host_port a p) = Inr (h, p)
    | None \<Rightarrow> \<not> is_ok (split_host_port (join_host_port a p))"
proof (cases "bracket_free a")
  case True
  then show ?thesis
    using split_join_host_port [OF _ _ p, of a] by (simp add: target_host_def bracket_free_def)
next
  case False
  define h where "h = butlast (tl a)"
  show ?thesis
  proof (cases "a = bracketed h \<and> bracket_free h \<and> CHR '':'' \<notin> set h")
    case True
    then have "target_host a = Some h"
      unfolding target_host_def Let_def h_def [symmetric] using False by auto
    with True show ?thesis using split_bracketed [OF _ _ p, of h] by simp
  next
    case other: False
    have "\<not> is_ok (split_host_port (join_host_port a p))"
    proof (cases "CHR '':'' \<in> set a")
      case True
      then show ?thesis using False p(1) by (intro split_bracket_colon)
    next
      case colon: False
      have "a \<noteq> bracketed g" if "bracket_free g" for g
      proof
        assume a: "a = bracketed g"
        then have "h = g" by (simp add: h_def bracketed_def)
        with other a colon that show False by (simp add: bracketed_def)
      qed
      then show ?thesis using False colon p by (intro split_bracket_plain)
    qed
    moreover have "target_host a = None"
      unfolding target_host_def Let_def h_def [symmetric] using False other by auto
    ultimately show ?thesis by simp
  qed
qed

end
