(* ===== verification/GoNetAddr.thy ===== *)
theory GoNetAddr
  imports GoStrings
begin

text \<open>
  \<^verbatim>\<open>net.IP\<close>: \<^verbatim>\<open>net.ParseIP\<close> (with the IPv4 and IPv6 parsers of \<^verbatim>\<open>net/netip\<close>),
  \<^verbatim>\<open>To4\<close>, \<^verbatim>\<open>To16\<close> and \<^verbatim>\<open>String\<close>. An address is the byte slice Go keeps (4 or 16
  bytes); a nil \<^verbatim>\<open>net.IP\<close> is \<open>None\<close>. The main result is that printing a 4-byte or a
  16-byte address and parsing it again gives the same address (\<open>parse_ip_ip_string4\<close>,
  \<open>parse_ip_ip_string16\<close>), on which the SOCKS address codec rests.
\<close>

section \<open>Parsing\<close>

subsection \<open>IPv4\<close>

text \<open>
  \<^verbatim>\<open>netip.parseIPv4Fields\<close>: \<open>prev\<close> is the byte before the current one (\<open>None\<close> at the
  start), \<open>fs\<close> the fields stored so far, \<open>v\<close> and \<open>n\<close> value and digit count of the
  current one.
\<close>

fun v4_fields :: "string \<Rightarrow> char option \<Rightarrow> byte list \<Rightarrow> nat \<Rightarrow> nat \<Rightarrow> byte list option" where
  "v4_fields [] prev fs v n = (if length fs < 3 then None else Some (fs @ [word_of_nat v]))"
| "v4_fields (c # cs) prev fs v n =
     (if is_digit c then
        (if n = 1 \<and> v = 0 then None
         else let v' = v * 10 + digit_val c
              in if v' > 255 then None else v4_fields cs (Some c) fs v' (Suc n))
      else if c = CHR ''.'' then
        (if prev = None \<or> cs = [] \<or> prev = Some (CHR ''.'') then None
         else if length fs = 3 then None
         else v4_fields cs (Some c) (fs @ [word_of_nat v]) 0 0)
      else None)"

definition parse_v4 :: "string \<Rightarrow> byte list option" where
  "parse_v4 s = v4_fields s None [] 0 0"

subsection \<open>IPv6\<close>

definition hex_digit_val :: "char \<Rightarrow> nat option" where
  "hex_digit_val c =
     (if 48 \<le> code c \<and> code c \<le> 57 then Some (code c - 48)
      else if 97 \<le> code c \<and> code c \<le> 102 then Some (code c - 97 + 10)
      else if 65 \<le> code c \<and> code c \<le> 70 then Some (code c - 65 + 10)
      else None)"

text \<open>
  One group of hex digits: digit count, value and the unread rest; \<open>None\<close> for more than four
  digits or a value beyond 16 bits.
\<close>

fun hex_group :: "string \<Rightarrow> nat \<Rightarrow> nat \<Rightarrow> (nat \<times> nat \<times> string) option" where
  "hex_group [] off acc = Some (off, acc, [])"
| "hex_group (c # cs) off acc =
     (case hex_digit_val c of
        None \<Rightarrow> Some (off, acc, c # cs)
      | Some d \<Rightarrow>
          let acc' = acc * 16 + d
          in if off > 3 then None
             else if acc' > 65535 then None
             else hex_group cs (Suc off) acc')"

text \<open>The end of \<^verbatim>\<open>parseIPv6\<close>: the whole string used, and the ellipsis expanded.\<close>

definition v6_finish :: "string \<Rightarrow> byte list \<Rightarrow> nat option \<Rightarrow> byte list option" where
  "v6_finish s acc ell =
     (if s \<noteq> [] then None
      else if length acc < 16 then
        (case ell of None \<Rightarrow> None
         | Some e \<Rightarrow> Some (take e acc @ replicate (16 - length acc) 0 @ drop e acc))
      else if ell \<noteq> None then None
      else Some acc)"

text \<open>The loop over the groups; \<open>acc\<close> holds the bytes stored, \<open>ell\<close> the ellipsis position.\<close>

definition hextet_bytes :: "nat \<Rightarrow> byte list" where
  "hextet_bytes v = [word_of_nat (v div 256), word_of_nat v]"

lemma length_hextet_bytes [simp]: "length (hextet_bytes v) = 2"
  by (simp add: hextet_bytes_def)

function v6_loop :: "string \<Rightarrow> byte list \<Rightarrow> nat option \<Rightarrow> byte list option" where
  "v6_loop s acc ell =
     (if \<not> length acc < 16 then v6_finish s acc ell
      else case hex_group s 0 0 of
        None \<Rightarrow> None
      | Some (off, v, s1) \<Rightarrow>
          if off = 0 then None
          else if s1 \<noteq> [] \<and> hd s1 = CHR ''.'' then
            (if ell = None \<and> length acc \<noteq> 12 then None
             else if length acc + 4 > 16 then None
             else (case parse_v4 s of None \<Rightarrow> None
                   | Some bs \<Rightarrow> v6_finish [] (acc @ bs) ell))
          else
            (let acc1 = acc @ hextet_bytes v
             in case s1 of
                  [] \<Rightarrow> v6_finish [] acc1 ell
                | c # s2 \<Rightarrow>
                    if c \<noteq> CHR '':'' then None
                    else (case s2 of
                        [] \<Rightarrow> None
                      | d # s3 \<Rightarrow>
                          if d = CHR '':'' then
                            (if ell \<noteq> None then None
                             else if s3 = [] then v6_finish [] acc1 (Some (length acc1))
                             else v6_loop s3 acc1 (Some (length acc1)))
                          else v6_loop s2 acc1 ell)))"
  by pat_completeness auto
termination
  by (relation "measure (\<lambda>(s, acc, ell). 16 - length acc)") auto

declare v6_loop.simps [simp del]

definition parse_v6 :: "string \<Rightarrow> byte list option" where
  "parse_v6 s =
     (if CHR ''%'' \<in> set s then None
      else if take 2 s = ''::'' then
        (if drop 2 s = [] then Some (replicate 16 0) else v6_loop (drop 2 s) [] (Some 0))
      else v6_loop s [] None)"

subsection \<open>net.ParseIP, To4, To16\<close>

definition v4_in_v6_prefix :: "byte list" where
  "v4_in_v6_prefix = replicate 10 0 @ [255, 255]"

text \<open>
  \<^verbatim>\<open>net.ParseIP\<close>: the first of the bytes \<^verbatim>\<open>. : %\<close> picks the parser; the result has 16
  bytes. An address with a zone is refused.
\<close>

definition parse_ip :: "string \<Rightarrow> byte list option" where
  "parse_ip s =
     (case find (\<lambda>c. c = CHR ''.'' \<or> c = CHR '':'' \<or> c = CHR ''%'') s of
        None \<Rightarrow> None
      | Some c \<Rightarrow>
          if c = CHR ''.'' then map_option (\<lambda>bs. v4_in_v6_prefix @ bs) (parse_v4 s)
          else if c = CHR '':'' then parse_v6 s
          else None)"

definition to4 :: "byte list \<Rightarrow> byte list option" where
  "to4 ip =
     (if length ip = 4 then Some ip
      else if length ip = 16 \<and> take 12 ip = v4_in_v6_prefix then Some (drop 12 ip)
      else None)"

definition to16 :: "byte list \<Rightarrow> byte list option" where
  "to16 ip =
     (if length ip = 4 then Some (v4_in_v6_prefix @ ip)
      else if length ip = 16 then Some ip
      else None)"

section \<open>Printing\<close>

definition v4_string :: "byte list \<Rightarrow> string" where
  "v4_string bs =
     nat_to_dec (unat (bs ! 0)) @ ''.'' @ nat_to_dec (unat (bs ! 1)) @ ''.'' @
     nat_to_dec (unat (bs ! 2)) @ ''.'' @ nat_to_dec (unat (bs ! 3))"

definition hex_char :: "nat \<Rightarrow> char" where
  "hex_char d = (if d < 10 then char_of (48 + d) else char_of (87 + d))"

fun hex_string :: "nat \<Rightarrow> string" where
  "hex_string n =
     (if n < 16 then [hex_char n] else hex_string (n div 16) @ [hex_char (n mod 16)])"

declare hex_string.simps [simp del]

definition hextet :: "byte list \<Rightarrow> nat \<Rightarrow> nat" where
  "hextet bs i = unat (bs ! (2 * i)) * 256 + unat (bs ! (2 * i + 1))"

definition hextets :: "byte list \<Rightarrow> nat list" where
  "hextets bs = map (hextet bs) [0..<8]"

text \<open>The end of the run of zero groups that starts at position \<open>i\<close>.\<close>

definition zero_run_end :: "nat list \<Rightarrow> nat \<Rightarrow> nat" where
  "zero_run_end hs i = i + length (takeWhile (\<lambda>h. h = 0) (drop i hs))"

text \<open>
  The first longest run of at least two zero groups, as start and end; 255 and 255 if there
  is none. The loop of \<^verbatim>\<open>netip.Addr.appendTo6\<close> over the start \<open>i\<close>.
\<close>

fun zero_run_loop :: "nat list \<Rightarrow> nat list \<Rightarrow> nat \<times> nat \<Rightarrow> nat \<times> nat" where
  "zero_run_loop hs [] z = z"
| "zero_run_loop hs (i # is) (zs, ze) =
     (let j = zero_run_end hs i; l = j - i
      in zero_run_loop hs is (if l \<ge> 2 \<and> l > ze - zs then (i, j) else (zs, ze)))"

definition zero_run :: "nat list \<Rightarrow> nat \<times> nat" where
  "zero_run hs = zero_run_loop hs [0..<8] (255, 255)"

text \<open>The second loop: the groups from position \<open>i\<close> on, with the zero run as \<^verbatim>\<open>::\<close>.\<close>

function v6_emit :: "nat \<Rightarrow> nat \<Rightarrow> nat \<Rightarrow> nat list \<Rightarrow> string" where
  "v6_emit zs ze i [] = []"
| "v6_emit zs ze i (h # hs) =
     (if i = zs then
        ''::'' @ (case drop (ze - zs) (h # hs) of
                    [] \<Rightarrow> []
                  | g # gs \<Rightarrow> hex_string g @ v6_emit zs ze (Suc ze) gs)
      else (if i > 0 then '':'' else []) @ hex_string h @ v6_emit zs ze (Suc i) hs)"
  by pat_completeness auto
termination
proof (relation "measure (\<lambda>(zs, ze, i, hs). length hs)", goal_cases)
  case (2 zs ze i h hs g gs)
  then have "Suc (length gs) = length (drop (ze - zs) (h # hs))" by simp
  also have "\<dots> \<le> length (h # hs)" by simp
  finally show ?case by simp
qed auto

definition v6_string :: "byte list \<Rightarrow> string" where
  "v6_string bs =
     (let hs = hextets bs; (zs, ze) = zero_run hs in v6_emit zs ze 0 hs)"

text \<open>\<^verbatim>\<open>net.IP.String\<close>: dotted for anything \<^verbatim>\<open>To4\<close> accepts.\<close>

definition hex_byte :: "byte \<Rightarrow> string" where
  "hex_byte b = [hex_char (unat b div 16), hex_char (unat b mod 16)]"

definition ip_string :: "byte list \<Rightarrow> string" where
  "ip_string ip =
     (if ip = [] then ''<nil>''
      else if length ip \<noteq> 4 \<and> length ip \<noteq> 16 then ''?'' @ concat (map hex_byte ip)
      else (case to4 ip of Some p4 \<Rightarrow> v4_string p4 | None \<Rightarrow> v6_string ip))"

section \<open>IPv4 round trip\<close>

lemma v4_fields_digits:
  assumes "v \<le> 255" "list_all is_digit ds"
    and "\<And>k. k < length ds \<Longrightarrow> foldl (\<lambda>a c. a * 10 + digit_val c) v (take (Suc k) ds) \<le> 255"
    and "n = 1 \<and> v = 0 \<Longrightarrow> ds = []" and "n = 0 \<Longrightarrow> length ds > 1 \<Longrightarrow> digit_val (hd ds) \<noteq> 0"
    and "n = 0 \<Longrightarrow> v = 0"
  shows "v4_fields (ds @ s) prev fs v n =
     v4_fields s (if ds = [] then prev else Some (last ds)) fs
       (foldl (\<lambda>a c. a * 10 + digit_val c) v ds) (n + length ds)"
  using assms
proof (induction ds arbitrary: v n prev)
  case Nil
  then show ?case by simp
next
  case (Cons c cs)
  let ?v = "v * 10 + digit_val c"
  have v: "?v \<le> 255" using Cons.prems(3) [of 0] by simp
  have "v4_fields ((c # cs) @ s) prev fs v n = v4_fields (cs @ s) (Some c) fs ?v (Suc n)"
    using Cons.prems(2,4) v by auto
  also have "\<dots> = v4_fields s (if cs = [] then Some c else Some (last cs)) fs
       (foldl (\<lambda>a c. a * 10 + digit_val c) ?v cs) (Suc n + length cs)"
  proof (rule Cons.IH)
    show "?v \<le> 255" by (rule v)
    show "list_all is_digit cs" using Cons.prems(2) by simp
    show "foldl (\<lambda>a c. a * 10 + digit_val c) ?v (take (Suc k) cs) \<le> 255" if "k < length cs" for k
      using Cons.prems(3) [of "Suc k"] that by simp
    show "cs = []" if "Suc n = 1 \<and> ?v = 0"
      using that Cons.prems(5) by (cases cs) auto
  qed auto
  finally show ?case by simp
qed

lemma dec_to_nat_foldl: "dec_to_nat s = foldl (\<lambda>a c. a * 10 + digit_val c) 0 s"
  by (simp add: dec_to_nat_def mult.commute)

text \<open>A decimal field of a byte is read back: its one to three digits, by cases on its size.\<close>

lemma v4_fields_octet:
  assumes b: "v \<le> 255"
  shows "v4_fields (nat_to_dec v @ s) prev fs 0 0 =
           v4_fields s (Some (last (nat_to_dec v))) fs v (length (nat_to_dec v))"
proof -
  let ?d = "nat_to_dec v"
  have cases3: "?d = [digit_char v] \<and> v < 10 \<or>
      ?d = [digit_char (v div 10), digit_char (v mod 10)] \<and> 10 \<le> v \<and> v < 100 \<or>
      ?d = [digit_char (v div 100), digit_char (v div 10 mod 10), digit_char (v mod 10)] \<and> 100 \<le> v"
  proof -
    have "?d = [digit_char v]" if "v < 10" using that by (subst nat_to_dec.simps) simp
    moreover have "?d = [digit_char (v div 10), digit_char (v mod 10)]" if "10 \<le> v" "v < 100"
      using that by (subst nat_to_dec.simps, subst nat_to_dec.simps) auto
    moreover have "?d = [digit_char (v div 100), digit_char (v div 10 mod 10), digit_char (v mod 10)]"
      if "100 \<le> v"
    proof -
      have "v div 10 div 10 < 10" "\<not> v < 10" "\<not> v div 10 < 10" "v div 10 div 10 = v div 100"
        using that b by (auto simp: div_mult2_eq [symmetric])
      then show ?thesis
        by (subst nat_to_dec.simps, subst nat_to_dec.simps, subst nat_to_dec.simps) simp
    qed
    ultimately show ?thesis by linarith
  qed
  have ne: "?d \<noteq> []" by simp
  have f: "foldl (\<lambda>a c. a * 10 + digit_val c) 0 ?d = v"
    by (metis dec_to_nat_foldl dec_to_nat_to_dec)
  have le: "foldl (\<lambda>a c. a * 10 + digit_val c) 0 (take (Suc k) ?d) \<le> 255" if "k < length ?d" for k
  proof -
    have "v div 100 < 10" "v div 100 \<le> 255" "v div 10 \<le> 255"
      "(v div 100) * 10 + v div 10 mod 10 \<le> v"
      using b by auto
    then show ?thesis
      using cases3 that b f by (auto simp: less_Suc_eq take_Cons' split: if_splits)
  qed
  have "v4_fields (?d @ s) prev fs 0 0 =
     v4_fields s (if ?d = [] then prev else Some (last ?d)) fs
       (foldl (\<lambda>a c. a * 10 + digit_val c) 0 ?d) (0 + length ?d)"
  proof (rule v4_fields_digits)
    show "digit_val (hd ?d) \<noteq> 0" if "(0::nat) = 0" "1 < length ?d"
    proof -
      have "v div 100 < 10" using b by simp
      then show ?thesis using cases3 that by auto
    qed
  qed (use le nat_to_dec_digits in auto)
  with f ne show ?thesis by simp
qed

lemma last_nat_to_dec_digit: "is_digit (last (nat_to_dec n))"
  using nat_to_dec_digits [of n] nat_to_dec_nonempty [of n]
  by (metis last_in_set list_all_iff)

lemma v4_fields_octet_dot:
  assumes "v \<le> 255" "length fs < 3" "s \<noteq> []"
  shows "v4_fields (nat_to_dec v @ CHR ''.'' # s) prev fs 0 0 =
           v4_fields s (Some (CHR ''.'')) (fs @ [word_of_nat v]) 0 0"
proof -
  have "last (nat_to_dec v) \<noteq> CHR ''.''"
    using last_nat_to_dec_digit digit_not_punct(1) by blast
  moreover have "\<not> is_digit (CHR ''.'')" by (simp add: is_digit_def)
  ultimately show ?thesis
    using assms by (simp add: v4_fields_octet)
qed

lemma parse_v4_v4_string:
  assumes "length bs = 4"
  shows "parse_v4 (v4_string bs) = Some bs"
proof -
  obtain a b c d where bs: "bs = [a, b, c, d]" using assms by (auto simp: length_4_iff)
  show ?thesis
    unfolding parse_v4_def v4_string_def bs
    by (simp add: v4_fields_octet_dot v4_fields_octet [where s = "[]", simplified])
qed

lemma find_first_dot: "find (\<lambda>c. c = CHR ''.'' \<or> c = CHR '':'' \<or> c = CHR ''%'') (nat_to_dec v @ CHR ''.'' # s)
    = Some (CHR ''.'')"
proof -
  have "\<forall>c \<in> set ds. is_digit c \<Longrightarrow>
     find (\<lambda>c. c = CHR ''.'' \<or> c = CHR '':'' \<or> c = CHR ''%'') (ds @ CHR ''.'' # s) = Some (CHR ''.'')" for ds
    by (induction ds) (auto dest: digit_not_punct)
  then show ?thesis using nat_to_dec_digits [of v] by (simp add: list_all_iff)
qed

lemma parse_ip_v4_string:
  assumes "length bs = 4"
  shows "parse_ip (v4_string bs) = Some (v4_in_v6_prefix @ bs)"
proof -
  have "find (\<lambda>c. c = CHR ''.'' \<or> c = CHR '':'' \<or> c = CHR ''%'') (v4_string bs) = Some (CHR ''.'')"
    by (simp add: v4_string_def find_first_dot)
  then show ?thesis by (simp add: parse_ip_def parse_v4_v4_string [OF assms])
qed

lemma length_v4_prefix [simp]: "length v4_in_v6_prefix = 12"
  by (simp add: v4_in_v6_prefix_def)

lemma to4_mapped [simp]: "length bs = 4 \<Longrightarrow> to4 (v4_in_v6_prefix @ bs) = Some bs"
  by (simp add: to4_def)

lemma to4_len4 [simp]: "length bs = 4 \<Longrightarrow> to4 bs = Some bs"
  by (simp add: to4_def)

theorem parse_ip_ip_string4:
  assumes "length bs = 4"
  shows "parse_ip (ip_string bs) = Some (v4_in_v6_prefix @ bs)"
  using assms by (simp add: ip_string_def parse_ip_v4_string, auto)

section \<open>IPv6 round trip\<close>

subsection \<open>One group\<close>

lemma hex_digit_val_hex_char [simp]: "d < 16 \<Longrightarrow> hex_digit_val (hex_char d) = Some d"
  by (simp add: hex_digit_val_def hex_char_def)

lemma hex_string_digits:
  assumes "n < 65536"
  shows "\<exists>ds. hex_string n = map hex_char ds \<and> ds \<noteq> [] \<and> length ds \<le> 4 \<and> (\<forall>d \<in> set ds. d < 16) \<and>
           foldl (\<lambda>a d. a * 16 + d) 0 ds = n"
proof -
  have *: "\<exists>ds. hex_string n = map hex_char ds \<and> ds \<noteq> [] \<and> length ds \<le> Suc k \<and>
      (\<forall>d \<in> set ds. d < 16) \<and> foldl (\<lambda>a d. a * 16 + d) 0 ds = n" if "n < 16 ^ Suc k" for n k
    using that
  proof (induction k arbitrary: n)
    case 0
    then show ?case by (intro exI [of _ "[n]"]) (simp add: hex_string.simps)
  next
    case (Suc k)
    show ?case
    proof (cases "n < 16")
      case True
      then show ?thesis by (intro exI [of _ "[n]"]) (simp add: hex_string.simps)
    next
      case False
      have "n div 16 < 16 ^ Suc k"
        using Suc.prems by (simp add: less_mult_imp_div_less)
      then obtain ds where "hex_string (n div 16) = map hex_char ds" "ds \<noteq> []" "length ds \<le> Suc k"
        "\<forall>d \<in> set ds. d < 16" "foldl (\<lambda>a d. a * 16 + d) 0 ds = n div 16"
        using Suc.IH by blast
      with False show ?thesis
        by (intro exI [of _ "ds @ [n mod 16]"]) (auto simp: hex_string.simps [of n])
    qed
  qed
  have "n < 16 ^ Suc 3" using assms by simp
  from * [OF this] show ?thesis by simp
qed

lemma foldl16_le:
  "foldl (\<lambda>a d. a * 16 + d) a ds \<le> (b::nat) \<Longrightarrow> a \<le> b"
  by (induction ds arbitrary: a) (auto, fastforce)

lemma hex_group_digits:
  assumes "\<forall>d \<in> set ds. d < 16" "off + length ds \<le> 4"
    and "foldl (\<lambda>a d. a * 16 + d) acc ds \<le> 65535"
    and "s = [] \<or> hex_digit_val (hd s) = None"
  shows "hex_group (map hex_char ds @ s) off acc =
           Some (off + length ds, foldl (\<lambda>a d. a * 16 + d) acc ds, s)"
  using assms
proof (induction ds arbitrary: off acc)
  case Nil
  then show ?case by (cases s) auto
next
  case (Cons d ds)
  from Cons.prems(3) have "acc * 16 + d \<le> 65535"
    using foldl16_le by fastforce
  with Cons show ?case by simp
qed

lemma hex_group_hex_string:
  assumes "n < 65536" "s = [] \<or> hex_digit_val (hd s) = None"
  shows "\<exists>k > 0. hex_group (hex_string n @ s) 0 0 = Some (k, n, s)"
proof -
  obtain ds where ds: "hex_string n = map hex_char ds" "ds \<noteq> []" "length ds \<le> 4"
    "\<forall>d \<in> set ds. d < 16" "foldl (\<lambda>a d. a * 16 + d) 0 ds = n"
    using hex_string_digits [OF assms(1)] by blast
  with assms hex_group_digits [of ds 0 0 s] show ?thesis
    by (intro exI [of _ "length ds"]) simp
qed

definition is_hex_lower :: "char \<Rightarrow> bool" where
  "is_hex_lower c \<longleftrightarrow> (\<exists>d < 16. c = hex_char d)"

lemma hex_string_set:
  assumes "n < 65536" "c \<in> set (hex_string n)"
  shows "is_hex_lower c"
proof -
  obtain ds where "hex_string n = map hex_char ds" "\<forall>d \<in> set ds. d < 16"
    using hex_string_digits [OF assms(1)] by blast
  with assms(2) show ?thesis by (auto simp: is_hex_lower_def)
qed

lemma hex_string_Cons:
  assumes "n < 65536"
  obtains c cs where "hex_string n = c # cs" "is_hex_lower c"
proof (cases "hex_string n")
  case Nil
  then show ?thesis using hex_string_digits [OF assms] by auto
next
  case (Cons c cs)
  then show ?thesis using that hex_string_set [OF assms, of c] by simp
qed

lemma hex_lower_not_punct:
  "is_hex_lower c \<Longrightarrow> c \<noteq> CHR '':''" "is_hex_lower c \<Longrightarrow> c \<noteq> CHR ''.''"
  "is_hex_lower c \<Longrightarrow> c \<noteq> CHR ''%''"
proof -
  have "hex_digit_val (CHR '':'') = None" "hex_digit_val (CHR ''.'') = None"
    "hex_digit_val (CHR ''%'') = None"
    by (simp_all add: hex_digit_val_def)
  then show "is_hex_lower c \<Longrightarrow> c \<noteq> CHR '':''" "is_hex_lower c \<Longrightarrow> c \<noteq> CHR ''.''"
    "is_hex_lower c \<Longrightarrow> c \<noteq> CHR ''%''"
    unfolding is_hex_lower_def by (metis hex_digit_val_hex_char option.distinct(1))+
qed

lemma colon_not_hex [simp]: "hex_digit_val (CHR '':'') = None"
  by (simp add: hex_digit_val_def)

subsection \<open>Sequences of groups\<close>

fun join_groups :: "nat list \<Rightarrow> string" where
  "join_groups [] = []"
| "join_groups [h] = hex_string h"
| "join_groups (h # hs) = hex_string h @ CHR '':'' # join_groups hs"

abbreviation group_bytes :: "nat list \<Rightarrow> byte list" where
  "group_bytes hs \<equiv> concat (map hextet_bytes hs)"

lemma length_group_bytes [simp]: "length (group_bytes hs) = 2 * length hs"
  by (induction hs) auto

lemma join_groups_Cons:
  "hs \<noteq> [] \<Longrightarrow> join_groups (h # hs) = hex_string h @ CHR '':'' # join_groups hs"
  by (cases hs) auto

lemma join_groups_hd:
  assumes "hs \<noteq> []" "\<forall>h \<in> set hs. h < 65536"
  obtains c cs where "join_groups hs = c # cs" "is_hex_lower c"
proof -
  obtain h t where h: "hs = h # t" using assms(1) by (cases hs) auto
  then have "h < 65536" using assms(2) by simp
  then obtain c cs where c: "hex_string h = c # cs" "is_hex_lower c" by (rule hex_string_Cons)
  then have "\<exists>cs. join_groups hs = c # cs" using h by (cases t) auto
  with c(2) that show ?thesis by blast
qed

lemma v6_loop_last:
  assumes "h < 65536" "length acc < 16"
  shows "v6_loop (hex_string h) acc ell = v6_finish [] (acc @ hextet_bytes h) ell"
proof -
  obtain k where "k > 0" "hex_group (hex_string h) 0 0 = Some (k, h, [])"
    using hex_group_hex_string [OF assms(1), of "[]"] by auto
  with assms(2) show ?thesis by (simp add: v6_loop.simps [of "hex_string h"])
qed

lemma v6_loop_colon:
  assumes "h < 65536" "length acc < 16" "c \<noteq> CHR '':''"
  shows "v6_loop (hex_string h @ CHR '':'' # c # s) acc ell = v6_loop (c # s) (acc @ hextet_bytes h) ell"
proof -
  obtain k where "k > 0" "hex_group (hex_string h @ CHR '':'' # c # s) 0 0 = Some (k, h, CHR '':'' # c # s)"
    using hex_group_hex_string [OF assms(1), of "CHR '':'' # c # s"] by auto
  with assms(2,3) show ?thesis by (subst v6_loop.simps) simp
qed

lemma v6_loop_ellipsis:
  assumes "h < 65536" "length acc < 16"
  shows "v6_loop (hex_string h @ ''::'' @ s) acc None =
     (let acc1 = acc @ hextet_bytes h
      in if s = [] then v6_finish [] acc1 (Some (length acc1))
         else v6_loop s acc1 (Some (length acc1)))"
proof -
  obtain k where "k > 0" "hex_group (hex_string h @ ''::'' @ s) 0 0 = Some (k, h, ''::'' @ s)"
    using hex_group_hex_string [OF assms(1), of "''::'' @ s"] by auto
  with assms(2) show ?thesis by (subst v6_loop.simps) (simp add: Let_def)
qed

lemma v6_loop_groups:
  assumes "hs \<noteq> []" "\<forall>h \<in> set hs. h < 65536" "length acc + 2 * length hs \<le> 16"
  shows "v6_loop (join_groups hs) acc ell = v6_finish [] (acc @ group_bytes hs) ell"
  using assms
proof (induction hs arbitrary: acc)
  case Nil
  then show ?case by simp
next
  case (Cons h hs)
  show ?case
  proof (cases "hs = []")
    case True
    with Cons.prems show ?thesis by (simp add: v6_loop_last)
  next
    case False
    have h: "\<forall>h \<in> set hs. h < 65536" using Cons.prems by simp
    then obtain c cs where c: "join_groups hs = c # cs" "is_hex_lower c"
      using join_groups_hd [OF False] by blast
    have "v6_loop (join_groups (h # hs)) acc ell = v6_loop (join_groups hs) (acc @ hextet_bytes h) ell"
      using Cons.prems c v6_loop_colon [of h acc c cs ell]
      by (simp add: join_groups_Cons [OF False] hex_lower_not_punct)
    also have "\<dots> = v6_finish [] ((acc @ hextet_bytes h) @ group_bytes hs) ell"
      using Cons.prems False h by (intro Cons.IH) auto
    finally show ?thesis by simp
  qed
qed

lemma v6_loop_groups_ellipsis:
  assumes "hs \<noteq> []" "\<forall>h \<in> set hs. h < 65536" "length acc + 2 * length hs \<le> 16"
  shows "v6_loop (join_groups hs @ ''::'' @ s) acc None =
     (let acc1 = acc @ group_bytes hs
      in if s = [] then v6_finish [] acc1 (Some (length acc1))
         else v6_loop s acc1 (Some (length acc1)))"
  using assms
proof (induction hs arbitrary: acc)
  case Nil
  then show ?case by simp
next
  case (Cons h hs)
  show ?case
  proof (cases "hs = []")
    case True
    with Cons.prems v6_loop_ellipsis [of h acc s] show ?thesis by simp
  next
    case False
    have h: "\<forall>h \<in> set hs. h < 65536" using Cons.prems by simp
    then obtain c cs where c: "join_groups hs = c # cs" "is_hex_lower c"
      using join_groups_hd [OF False] by blast
    have "v6_loop (join_groups (h # hs) @ ''::'' @ s) acc None
        = v6_loop (join_groups hs @ ''::'' @ s) (acc @ hextet_bytes h) None"
      using Cons.prems c v6_loop_colon [of h acc c "cs @ ''::'' @ s" None]
      by (simp add: join_groups_Cons [OF False] hex_lower_not_punct)
    also have "\<dots> = (let acc1 = (acc @ hextet_bytes h) @ group_bytes hs
      in if s = [] then v6_finish [] acc1 (Some (length acc1))
         else v6_loop s acc1 (Some (length acc1)))"
      using Cons.prems False h by (intro Cons.IH) auto
    finally show ?thesis by simp
  qed
qed

subsection \<open>The printed form\<close>

definition run_ok :: "nat list \<Rightarrow> nat \<times> nat \<Rightarrow> bool" where
  "run_ok hs z \<longleftrightarrow> z = (255, 255) \<or>
     (fst z + 2 \<le> snd z \<and> snd z \<le> length hs \<and> (\<forall>k. fst z \<le> k \<and> k < snd z \<longrightarrow> hs ! k = 0))"

lemma run_ok_zero_run_end:
  assumes "i \<le> length hs" "zero_run_end hs i - i \<ge> 2"
  shows "run_ok hs (i, zero_run_end hs i)"
proof -
  let ?n = "length (takeWhile (\<lambda>h. h = 0) (drop i hs))"
  have n: "?n \<le> length hs - i"
    using length_takeWhile_le [of "\<lambda>h. h = 0" "drop i hs"] by simp
  have "hs ! k = 0" if "i \<le> k" "k < i + ?n" for k
  proof -
    have k: "k - i < ?n" using that by simp
    then have "takeWhile (\<lambda>h. h = 0) (drop i hs) ! (k - i) = 0"
      using set_takeWhileD [OF nth_mem [OF k]] by simp
    then show ?thesis
      using k that n by (simp add: takeWhile_nth)
  qed
  then show ?thesis using assms n by (auto simp: run_ok_def zero_run_end_def)
qed

lemma run_ok_loop:
  "run_ok hs z \<Longrightarrow> \<forall>i \<in> set is. i \<le> length hs \<Longrightarrow> run_ok hs (zero_run_loop hs is z)"
proof (induction hs "is" z rule: zero_run_loop.induct)
  case (1 hs z)
  then show ?case by simp
next
  case (2 hs i "is" zs ze)
  then show ?case
    using run_ok_zero_run_end [of i hs] by (simp add: Let_def)
qed

lemma run_ok_zero_run: "length hs = 8 \<Longrightarrow> run_ok hs (zero_run hs)"
  unfolding zero_run_def by (rule run_ok_loop) (auto simp: run_ok_def)

lemma v6_emit_tail:
  "0 < i \<Longrightarrow> zs < i \<or> i + length hs \<le> zs \<Longrightarrow>
     v6_emit zs ze i hs = (if hs = [] then [] else CHR '':'' # join_groups hs)"
proof (induction hs arbitrary: i)
  case Nil
  then show ?case by simp
next
  case (Cons h hs)
  then have "i \<noteq> zs" by auto
  with Cons show ?case by (auto simp: join_groups_Cons)
qed

lemma v6_emit_at_run:
  assumes "hs \<noteq> []"
  shows "zs < ze \<Longrightarrow> v6_emit zs ze zs hs = ''::'' @ join_groups (drop (ze - zs) hs)"
proof -
  assume lt: "zs < ze"
  obtain h t where h: "hs = h # t" using assms by (cases hs) auto
  show ?thesis
  proof (cases "drop (ze - zs) hs")
    case Nil
    with h show ?thesis by simp
  next
    case (Cons g gs)
    have "v6_emit zs ze (Suc ze) gs = (if gs = [] then [] else CHR '':'' # join_groups gs)"
      using lt by (intro v6_emit_tail) auto
    with Cons h show ?thesis by (simp add: join_groups_Cons)
  qed
qed

lemma v6_emit_before_run:
  assumes "0 < i" "i \<le> zs" "zs < ze" "zs < i + length hs"
  shows "v6_emit zs ze i hs =
     (if i = zs then [] else CHR '':'' # join_groups (take (zs - i) hs)) @
     ''::'' @ join_groups (drop (ze - i) hs)"
  using assms
proof (induction hs arbitrary: i)
  case Nil
  then show ?case by simp
next
  case (Cons h hs)
  show ?case
  proof (cases "i = zs")
    case True
    with Cons.prems v6_emit_at_run [of "h # hs" zs ze] show ?thesis by simp
  next
    case False
    have "v6_emit zs ze (Suc i) hs =
       (if Suc i = zs then [] else CHR '':'' # join_groups (take (zs - Suc i) hs)) @
       ''::'' @ join_groups (drop (ze - Suc i) hs)"
      using Cons.prems False by (intro Cons.IH) auto
    moreover have "take (zs - i) (h # hs) = h # take (zs - Suc i) hs"
      "drop (ze - i) (h # hs) = drop (ze - Suc i) hs"
      using Cons.prems False by (auto simp: take_Cons' drop_Cons' Suc_diff_Suc)
    moreover have "take (zs - Suc i) hs \<noteq> []" if "Suc i \<noteq> zs"
      using that Cons.prems False by (cases hs) auto
    ultimately show ?thesis using Cons.prems False by (auto simp: join_groups_Cons)
  qed
qed

lemma v6_emit_run:
  assumes "zs < ze" "zs < length hs"
  shows "v6_emit zs ze 0 hs = join_groups (take zs hs) @ ''::'' @ join_groups (drop ze hs)"
proof (cases "zs = 0")
  case True
  with assms v6_emit_at_run [of hs zs ze] show ?thesis by auto
next
  case False
  obtain h t where h: "hs = h # t" using assms by (cases hs) auto
  have "v6_emit zs ze 1 t =
     (if 1 = zs then [] else CHR '':'' # join_groups (take (zs - 1) t)) @
     ''::'' @ join_groups (drop (ze - 1) t)"
    using False assms h by (intro v6_emit_before_run) auto
  moreover have "take zs hs = h # take (zs - 1) t" "drop ze hs = drop (ze - 1) t"
    using False assms h by (auto simp: take_Cons' drop_Cons')
  moreover have "take (zs - 1) t \<noteq> []" if "1 \<noteq> zs"
    using that False assms h by (cases t) auto
  ultimately show ?thesis using False h by (auto simp: join_groups_Cons)
qed

lemma v6_emit_no_run:
  assumes "length hs \<le> zs" "hs \<noteq> []"
  shows "v6_emit zs ze 0 hs = join_groups hs"
proof -
  obtain h t where h: "hs = h # t" using assms by (cases hs) auto
  have "v6_emit zs ze 1 t = (if t = [] then [] else CHR '':'' # join_groups t)"
    using assms h by (intro v6_emit_tail) auto
  with assms h show ?thesis by (auto simp: join_groups_Cons)
qed

subsection \<open>Parsing the printed form\<close>

lemma unat_split_word16:
  fixes a b :: byte
  shows "hextet_bytes (unat a * 256 + unat b) = [a, b]"
proof -
  have "unat b < 256" using unat_byte_le [of b] by linarith
  then have "(unat a * 256 + unat b) div 256 = unat a" by simp
  moreover have "word_of_nat (unat a * 256 + unat b) = (word_of_nat (unat b) :: byte)"
  proof -
    have "word_of_nat (unat a * 256) = (0 :: byte)" by (subst word_of_nat_eq_0_iff) simp
    then show ?thesis by (simp only: of_nat_add) simp
  qed
  ultimately show ?thesis by (simp add: hextet_bytes_def)
qed

lemma hextet_less: "hextet bs i < 65536"
  using unat_byte_le [of "bs ! (2 * i)"] unat_byte_le [of "bs ! (2 * i + 1)"]
  unfolding hextet_def by linarith

lemma length_hextets [simp]: "length (hextets bs) = 8"
  by (simp add: hextets_def)

lemma hextets_less: "\<forall>h \<in> set (hextets bs). h < 65536"
  by (auto simp: hextets_def hextet_less)

lemma group_bytes_hextets:
  assumes "length bs = 16"
  shows "group_bytes (hextets bs) = bs"
proof -
  have idx: "[0..<8] = [0, 1, 2, 3, 4, 5, 6, 7 :: nat]"
    "[0..<16] = [0, 1, 2, 3, 4, 5, 6, 7, 8, 9, 10, 11, 12, 13, 14, 15 :: nat]"
    by (simp_all add: upt_rec)
  have "group_bytes (hextets bs) = concat (map (\<lambda>i. [bs ! (2 * i), bs ! (2 * i + 1)]) [0..<8])"
    by (simp add: hextets_def hextet_def unat_split_word16 comp_def)
  also have "\<dots> = map (nth bs) [0..<16]"
    unfolding idx by simp
  also have "\<dots> = bs"
    using assms map_nth [of bs] by simp
  finally show ?thesis .
qed

lemma group_bytes_zero: "\<forall>h \<in> set hs. h = 0 \<Longrightarrow> group_bytes hs = replicate (2 * length hs) 0"
  by (induction hs) (auto simp: hextet_bytes_def)

lemma hextets_split:
  assumes "run_ok hs (zs, ze)" "(zs, ze) \<noteq> (255, 255)" "length hs = 8"
  shows "group_bytes hs =
     group_bytes (take zs hs) @ replicate (16 - 2 * (zs + (8 - ze))) 0 @ group_bytes (drop ze hs)"
proof -
  have z: "zs + 2 \<le> ze" "ze \<le> 8" "\<forall>k. zs \<le> k \<and> k < ze \<longrightarrow> hs ! k = 0"
    using assms by (auto simp: run_ok_def)
  have "hs = take zs hs @ take (ze - zs) (drop zs hs) @ drop ze hs"
    using z by (metis add_diff_inverse_nat append.assoc append_take_drop_id le_add1 le_trans
        not_less take_add)
  moreover have "\<forall>h \<in> set (take (ze - zs) (drop zs hs)). h = 0"
    using z assms(3) by (auto simp: in_set_conv_nth)
  moreover have "length (take (ze - zs) (drop zs hs)) = ze - zs"
    using z assms(3) by simp
  ultimately have "group_bytes hs = group_bytes (take zs hs) @ replicate (2 * (ze - zs)) 0 @ group_bytes (drop ze hs)"
    using group_bytes_zero [of "take (ze - zs) (drop zs hs)"] by (metis concat_append map_append)
  moreover have "2 * (ze - zs) = 16 - 2 * (zs + (8 - ze))" using z by simp
  ultimately show ?thesis by simp
qed

lemma join_groups_chars:
  "\<forall>h \<in> set hs. h < 65536 \<Longrightarrow> c \<in> set (join_groups hs) \<Longrightarrow> is_hex_lower c \<or> c = CHR '':''"
  by (induction hs rule: join_groups.induct) (auto dest: hex_string_set)

lemma join_groups_no_percent:
  assumes "\<forall>h \<in> set hs. h < 65536"
  shows "CHR ''%'' \<notin> set (join_groups hs)"
proof
  assume "CHR ''%'' \<in> set (join_groups hs)"
  then have "is_hex_lower (CHR ''%'') \<or> CHR ''%'' = CHR '':''"
    by (rule join_groups_chars [OF assms])
  then show False using hex_lower_not_punct(3) by auto
qed

lemma join_groups_nonempty: "hs \<noteq> [] \<Longrightarrow> \<forall>h \<in> set hs. h < 65536 \<Longrightarrow> join_groups hs \<noteq> []"
  by (metis join_groups_hd list.distinct(1))

lemma colon_in_join_groups: "2 \<le> length hs \<Longrightarrow> CHR '':'' \<in> set (join_groups hs)"
  by (cases hs rule: join_groups.cases) auto

lemma take2_join_groups:
  assumes "hs \<noteq> []" "\<forall>h \<in> set hs. h < 65536"
  shows "take 2 (join_groups hs @ s) \<noteq> ''::''"
  using join_groups_hd [OF assms] hex_lower_not_punct(1) by (metis append_Cons list.inject take_Cons_numeral)

lemma parse_v6_groups:
  assumes "length hs = 8" "\<forall>h \<in> set hs. h < 65536"
  shows "parse_v6 (join_groups hs) = Some (group_bytes hs)"
proof -
  have ne: "hs \<noteq> []" using assms(1) by auto
  have "CHR ''%'' \<notin> set (join_groups hs)"
    by (rule join_groups_no_percent [OF assms(2)])
  moreover have "take 2 (join_groups hs) \<noteq> ''::''"
    using take2_join_groups [OF ne assms(2), of "[]"] by simp
  moreover have "v6_loop (join_groups hs) [] None = v6_finish [] ([] @ group_bytes hs) None"
    using assms by (intro v6_loop_groups) auto
  ultimately show ?thesis using assms by (simp add: parse_v6_def v6_finish_def)
qed

lemma parse_v6_run:
  assumes "run_ok hs (zs, ze)" "(zs, ze) \<noteq> (255, 255)" "length hs = 8" "\<forall>h \<in> set hs. h < 65536"
  shows "parse_v6 (join_groups (take zs hs) @ ''::'' @ join_groups (drop ze hs)) = Some (group_bytes hs)"
    (is "parse_v6 (?A @ _ @ ?B) = _")
proof -
  have z: "zs + 2 \<le> ze" "ze \<le> 8" using assms by (auto simp: run_ok_def)
  have lt: "\<forall>h \<in> set (take zs hs). h < 65536" "\<forall>h \<in> set (drop ze hs). h < 65536"
    using assms(4) by (auto dest: in_set_takeD in_set_dropD)
  have pc: "CHR ''%'' \<notin> set (?A @ ''::'' @ ?B)"
    using join_groups_no_percent [OF lt(1)] join_groups_no_percent [OF lt(2)] by simp
  have B0: "?B = [] \<longleftrightarrow> drop ze hs = []"
    by (cases "drop ze hs = []") (simp_all add: join_groups_nonempty [OF _ lt(2)])
  let ?P = "group_bytes (take zs hs)" and ?Q = "group_bytes (drop ze hs)"
  have lens: "length ?P = 2 * zs" "length ?Q = 2 * (8 - ze)"
    using assms(3) z by auto
  have fin: "v6_finish [] (?P @ ?Q) (Some (length ?P)) = Some (group_bytes hs)"
  proof -
    have "length (?P @ ?Q) < 16" using z lens by simp
    then have "v6_finish [] (?P @ ?Q) (Some (length ?P))
        = Some (?P @ replicate (16 - length (?P @ ?Q)) 0 @ ?Q)"
      unfolding v6_finish_def by simp
    moreover have "16 - length (?P @ ?Q) = 16 - 2 * (zs + (8 - ze))" using lens by simp
    ultimately show ?thesis using hextets_split [OF assms(1,2,3)] by metis
  qed
  have loopB: "v6_loop ?B ?P (Some (length ?P)) = v6_finish [] (?P @ ?Q) (Some (length ?P))"
    if "?B \<noteq> []"
    using that B0 lt(2) lens z assms(3) by (intro v6_loop_groups) auto
  show ?thesis
  proof (cases "zs = 0")
    case True
    then have A: "?A = []" "?P = []" by auto
    have "replicate 16 0 = group_bytes hs" if "?B = []"
      using that B0 fin A lens z by (simp add: v6_finish_def)
    moreover have "v6_loop ?B [] (Some 0) = Some (group_bytes hs)" if "?B \<noteq> []"
      using loopB [OF that] fin unfolding A(2) by simp
    ultimately show ?thesis using A(1) pc by (auto simp: parse_v6_def)
  next
    case False
    have ne: "take zs hs \<noteq> []" using False assms(3) by auto
    have "v6_loop (?A @ ''::'' @ ?B) [] None =
       (if ?B = [] then v6_finish [] ?P (Some (length ?P)) else v6_loop ?B ?P (Some (length ?P)))"
      using v6_loop_groups_ellipsis [of "take zs hs" "[]" ?B] ne lt(1) z assms(3) by (simp add: Let_def)
    also have "\<dots> = Some (group_bytes hs)"
      using loopB fin B0 by auto
    finally have "v6_loop (?A @ ''::'' @ ?B) [] None = Some (group_bytes hs)" .
    with pc take2_join_groups [OF ne lt(1), of "''::'' @ ?B"] show ?thesis
      by (simp add: parse_v6_def)
  qed
qed

lemma find_first_colon:
  assumes "\<forall>c \<in> set s. is_hex_lower c \<or> c = CHR '':''" "CHR '':'' \<in> set s"
  shows "find (\<lambda>c. c = CHR ''.'' \<or> c = CHR '':'' \<or> c = CHR ''%'') s = Some (CHR '':'')"
  using assms by (induction s) (auto dest: hex_lower_not_punct)

lemma parse_ip_v6_string:
  assumes "length bs = 16"
  shows "parse_ip (v6_string bs) = Some bs"
proof -
  let ?hs = "hextets bs"
  obtain zs ze where z: "zero_run ?hs = (zs, ze)" by (cases "zero_run ?hs")
  have ok: "run_ok ?hs (zs, ze)" using run_ok_zero_run [of ?hs] z by simp
  have str: "v6_string bs = v6_emit zs ze 0 ?hs" by (simp add: v6_string_def z)
  have lt: "\<forall>h \<in> set ?hs. h < 65536" by (rule hextets_less)
  have "parse_v6 (v6_string bs) = Some bs \<and> CHR '':'' \<in> set (v6_string bs) \<and>
      (\<forall>c \<in> set (v6_string bs). is_hex_lower c \<or> c = CHR '':'')"
  proof (cases "(zs, ze) = (255, 255)")
    case True
    then have "v6_string bs = join_groups ?hs"
      using str v6_emit_no_run [of ?hs zs ze] length_hextets [of bs] by fastforce
    then show ?thesis
      using parse_v6_groups [OF length_hextets lt] group_bytes_hextets [OF assms]
        join_groups_chars [OF lt] colon_in_join_groups [of ?hs] by auto
  next
    case False
    then have s: "zs < ze" "zs < length ?hs" using ok by (auto simp: run_ok_def)
    have e: "v6_string bs = join_groups (take zs ?hs) @ ''::'' @ join_groups (drop ze ?hs)"
      using str v6_emit_run [OF s] by simp
    have lt2: "\<forall>h \<in> set (take zs ?hs). h < 65536" "\<forall>h \<in> set (drop ze ?hs). h < 65536"
      using lt by (auto dest: in_set_takeD in_set_dropD)
    show ?thesis
      unfolding e
      using parse_v6_run [OF ok False length_hextets lt] group_bytes_hextets [OF assms]
        join_groups_chars [OF lt2(1)] join_groups_chars [OF lt2(2)] by auto
  qed
  then show ?thesis by (simp add: parse_ip_def find_first_colon)
qed

theorem parse_ip_ip_string16:
  assumes "length bs = 16"
  shows "parse_ip (ip_string bs) = Some bs"
proof (cases "to4 bs")
  case None
  have "bs \<noteq> []" using assms by auto
  with None assms show ?thesis by (simp add: ip_string_def parse_ip_v6_string)
next
  case (Some p4)
  then have "take 12 bs = v4_in_v6_prefix" "p4 = drop 12 bs" "length p4 = 4"
    using assms by (auto simp: to4_def split: if_splits)
  then have "v4_in_v6_prefix @ p4 = bs" by (metis append_take_drop_id)
  moreover have "bs \<noteq> []" using assms by auto
  ultimately show ?thesis
    using assms Some \<open>length p4 = 4\<close> by (simp add: ip_string_def parse_ip_v4_string)
qed

section \<open>An address has no brackets\<close>

definition addr_char :: "char \<Rightarrow> bool" where
  "addr_char c \<longleftrightarrow> hex_digit_val c \<noteq> None \<or> c = CHR ''.'' \<or> c = CHR '':''"

lemma digit_addr_char: "is_digit c \<Longrightarrow> addr_char c"
  by (simp add: addr_char_def is_digit_def hex_digit_val_def)

lemma dot_addr_char: "addr_char (CHR ''.'')"
  by (simp add: addr_char_def)

lemma v4_fields_chars: "v4_fields s prev fs v n = Some bs \<Longrightarrow> \<forall>c \<in> set s. addr_char c"
  by (induction s prev fs v n rule: v4_fields.induct)
    (auto simp: Let_def digit_addr_char dot_addr_char split: if_splits)

lemma hex_group_chars:
  "hex_group s off acc = Some (m, v, r) \<Longrightarrow> \<exists>ds. s = ds @ r \<and> (\<forall>c \<in> set ds. addr_char c)"
proof (induction s off acc rule: hex_group.induct)
  case (1 off acc)
  then show ?case by simp
next
  case (2 c cs off acc)
  show ?case
  proof (cases "hex_digit_val c")
    case None
    with 2(2) show ?thesis by simp
  next
    case (Some d)
    with 2(2) have "hex_group cs (Suc off) (acc * 16 + d) = Some (m, v, r)" "\<not> off > 3" "\<not> acc * 16 + d > 65535"
      by (auto simp: Let_def split: if_splits)
    with 2(1) [OF Some refl] obtain ds where "cs = ds @ r" "\<forall>c \<in> set ds. addr_char c" by blast
    with Some show ?thesis by (intro exI [of _ "c # ds"]) (simp add: addr_char_def)
  qed
qed

lemma v6_finish_chars: "v6_finish s acc ell = Some bs \<Longrightarrow> s = []"
  by (auto simp: v6_finish_def split: if_splits)

lemma v6_loop_chars: "v6_loop s acc ell = Some bs \<Longrightarrow> \<forall>c \<in> set s. addr_char c"
proof (induction s acc ell rule: v6_loop.induct)
  case (1 s acc ell)
  note run = 1(3) [unfolded v6_loop.simps [of s acc ell]]
  show ?case
  proof (cases "length acc < 16")
    case False
    with run show ?thesis by (auto dest: v6_finish_chars)
  next
    case len: True
    with run obtain m v r where g: "hex_group s 0 0 = Some (m, v, r)" by (auto split: option.splits)
    from hex_group_chars [OF g] obtain ds where s: "s = ds @ r" "\<forall>c \<in> set ds. addr_char c" by blast
    from run len g have m: "m \<noteq> 0" by (auto split: if_splits)
    show ?thesis
    proof (cases "r \<noteq> [] \<and> hd r = CHR ''.''")
      case True
      with run len g m obtain b4 where "parse_v4 s = Some b4" by (auto split: if_splits option.splits)
      then show ?thesis unfolding parse_v4_def by (rule v4_fields_chars)
    next
      case dot: False
      have "\<forall>c \<in> set r. addr_char c"
      proof (cases r)
        case (Cons c s2)
        with run len g m dot obtain d s3 where c: "c = CHR '':''" "s2 = d # s3"
          by (auto simp: Let_def split: if_splits list.splits)
        have dot': "\<not> (r \<noteq> [] \<and> hd r = CHR ''.'')" using dot by blast
        have "\<forall>c \<in> set s2. addr_char c"
        proof (cases "d = CHR '':''")
          case colon: True
          show ?thesis
          proof (cases "s3 = []")
            case True
            with c(2) colon show ?thesis by (simp add: addr_char_def)
          next
            case False
            with run len g m dot Cons c colon have "v6_loop s3 (acc @ hextet_bytes v) (Some (length acc + 2)) = Some bs"
              "ell = None" by (auto simp: Let_def split: if_splits)
            with 1(1) [of "(m, v, r)" m "(v, r)" v r "acc @ hextet_bytes v" c s2 d s3] len g m dot Cons c colon False
            have "\<forall>c \<in> set s3. addr_char c" by simp
            with c(2) colon show ?thesis by (simp add: addr_char_def)
          qed
        next
          case False
          with run len g m dot Cons c have "v6_loop s2 (acc @ hextet_bytes v) ell = Some bs"
            by (auto simp: Let_def split: if_splits)
          with 1(2) [of "(m, v, r)" m "(v, r)" v r "acc @ hextet_bytes v" c s2 d s3] len g m dot Cons c False
          show ?thesis by simp
        qed
        with Cons c(1) show ?thesis by (simp add: addr_char_def)
      qed simp
      with s show ?thesis by auto
    qed
  qed
qed

lemma parse_ip_chars: "parse_ip s = Some ip \<Longrightarrow> \<forall>c \<in> set s. addr_char c"
proof -
  assume "parse_ip s = Some ip"
  then consider b where "parse_v4 s = Some b" | "parse_v6 s = Some ip"
    by (auto simp: parse_ip_def split: option.splits if_splits)
  then show ?thesis
  proof cases
    case 1
    then show ?thesis unfolding parse_v4_def by (rule v4_fields_chars)
  next
    case 2
    show ?thesis
    proof (cases "take 2 s = ''::''")
      case True
      have "\<forall>c \<in> set (drop 2 s). addr_char c"
      proof (cases "drop 2 s = []")
        case False
        with 2 True have "v6_loop (drop 2 s) [] (Some 0) = Some ip" by (simp add: parse_v6_def split: if_splits)
        then show ?thesis by (rule v6_loop_chars)
      qed simp
      moreover have "set s = set (take 2 s) \<union> set (drop 2 s)" by (metis append_take_drop_id set_append)
      ultimately show ?thesis using True by (auto simp: addr_char_def)
    next
      case False
      with 2 have "v6_loop s [] None = Some ip" by (simp add: parse_v6_def split: if_splits)
      then show ?thesis by (rule v6_loop_chars)
    qed
  qed
qed

lemma parse_ip_bracket_free: "parse_ip s = Some ip \<Longrightarrow> bracket_free s"
  using parse_ip_chars [of s ip]
  by (auto simp: bracket_free_def addr_char_def hex_digit_val_def split: if_splits)

section \<open>Parsed addresses have 16 bytes\<close>

lemma length_v4_fields: "v4_fields s prev fs v n = Some bs \<Longrightarrow> length fs \<le> 3 \<Longrightarrow> length bs = 4"
  by (induction s prev fs v n rule: v4_fields.induct)
    (auto simp: Let_def split: if_splits)

lemma length_parse_v4: "parse_v4 s = Some bs \<Longrightarrow> length bs = 4"
  unfolding parse_v4_def by (rule length_v4_fields) auto

lemma length_v6_finish: "v6_finish s acc ell = Some bs \<Longrightarrow> length acc \<le> 16 \<Longrightarrow> length bs = 16"
  by (auto simp: v6_finish_def split: if_splits option.splits)

lemma length_v6_loop:
  "v6_loop s acc ell = Some bs \<Longrightarrow> length acc \<le> 16 \<Longrightarrow> even (length acc) \<Longrightarrow> length bs = 16"
proof (induction s acc ell rule: v6_loop.induct)
  case (1 s acc ell)
  show ?case
  proof (cases "length acc < 16")
    case False
    with "1.prems" show ?thesis by (simp add: v6_loop.simps [of s] length_v6_finish)
  next
    case True
    have room: "length acc + 2 \<le> 16" using True "1.prems"(3) by presburger
    obtain off v s1 where g: "hex_group s 0 0 = Some (off, v, s1)" "off \<noteq> 0"
      using "1.prems"(1) True by (auto simp: v6_loop.simps [of s] split: option.splits if_splits)
    show ?thesis
    proof (cases "s1 \<noteq> [] \<and> hd s1 = CHR ''.''")
      case dot: True
      then show ?thesis
        using "1.prems" True g length_parse_v4
        by (fastforce simp: v6_loop.simps [of s] split: option.splits if_splits dest: length_v6_finish)
    next
      case nodot: False
      let ?acc1 = "acc @ hextet_bytes v"
      have acc1: "length ?acc1 \<le> 16" "even (length ?acc1)" using room "1.prems"(3) by auto
      consider (fin) e where "v6_finish [] ?acc1 e = Some bs"
        | (ell) s2 s3 where "s1 = CHR '':'' # s2" "s2 = CHR '':'' # s3" "ell = None" "s3 \<noteq> []"
            "v6_loop s3 ?acc1 (Some (length ?acc1)) = Some bs"
        | (grp) d s3 where "s1 = CHR '':'' # d # s3" "d \<noteq> CHR '':''" "v6_loop (d # s3) ?acc1 ell = Some bs"
        using "1.prems"(1) True g nodot
        by (auto simp: v6_loop.simps [of s] Let_def split: option.splits if_splits list.splits)
      then show ?thesis
      proof cases
        case fin
        then show ?thesis using acc1 by (auto dest: length_v6_finish)
      next
        case ell
        then show ?thesis
          using "1.IH"(1) [of "(off, v, s1)" off "(v, s1)" v s1 ?acc1 "CHR '':''" s2 "CHR '':''" s3]
            True g nodot acc1 by simp
      next
        case grp
        then show ?thesis
          using "1.IH"(2) [of "(off, v, s1)" off "(v, s1)" v s1 ?acc1 "CHR '':''" "d # s3" d s3]
            True g nodot acc1 by simp
      qed
    qed
  qed
qed

lemma length_parse_ip: "parse_ip s = Some ip \<Longrightarrow> length ip = 16"
proof -
  have "length ip = 16" if "parse_v6 s = Some ip"
    using that length_v6_loop [of _ "[]" _ ip] by (auto simp: parse_v6_def split: if_splits)
  then show "parse_ip s = Some ip \<Longrightarrow> length ip = 16"
    by (auto simp: parse_ip_def dest: length_parse_v4 split: option.splits if_splits)
qed

lemma to4_parse_ip: "parse_ip s = Some ip \<Longrightarrow> to4 ip = Some p4 \<Longrightarrow> ip = v4_in_v6_prefix @ p4 \<and> length p4 = 4"
  using length_parse_ip [of s ip] by (auto simp: to4_def split: if_splits) (metis append_take_drop_id)

text \<open>The printed form of a mapped address is that of its IPv4 address.\<close>

lemma ip_string_mapped: "length p4 = 4 \<Longrightarrow> ip_string (v4_in_v6_prefix @ p4) = ip_string p4"
  by (auto simp: ip_string_def v4_in_v6_prefix_def [symmetric])

end
