(* ===== verification/GoEncoding.thy ===== *)
theory GoEncoding
  imports GoNetAddr
begin

text \<open>
  The encoders the PIA client uses: \<^verbatim>\<open>encoding/hex\<close>, \<^verbatim>\<open>base64.StdEncoding\<close> and
  \<^verbatim>\<open>url.QueryEscape\<close>, with the round trips \<open>hex_decode_encode\<close> and
  \<open>b64_decode_encode\<close>. The text of a base64 error is kept without the byte offset Go adds.
\<close>

section \<open>Hexadecimal\<close>

definition hex_encode :: "byte list \<Rightarrow> string" where
  "hex_encode bs = concat (map hex_byte bs)"

text \<open>How the WireGuard configuration reader takes it back.\<close>

fun hex_decode :: "string \<Rightarrow> byte list option" where
  "hex_decode [] = Some []"
| "hex_decode [c] = None"
| "hex_decode (c # d # s) =
     (case (hex_digit_val c, hex_digit_val d) of
        (Some x, Some y) \<Rightarrow> map_option (\<lambda>bs. word_of_nat (x * 16 + y) # bs) (hex_decode s)
      | _ \<Rightarrow> None)"

lemma length_hex_encode [simp]: "length (hex_encode bs) = 2 * length bs"
  by (induction bs) (auto simp: hex_encode_def hex_byte_def)

lemma hex_decode_encode [simp]: "hex_decode (hex_encode bs) = Some bs"
proof (induction bs)
  case Nil
  then show ?case by (simp add: hex_encode_def)
next
  case (Cons b bs)
  have "unat b div 16 < 16" using unat_byte_less [of b] by linarith
  with Cons show ?case by (simp add: hex_encode_def hex_byte_def)
qed

lemma hex_encode_chars: "c \<in> set (hex_encode bs) \<Longrightarrow> is_hex_lower c"
proof -
  have "unat b div 16 < 16" "unat b mod 16 < 16" for b :: byte
    using unat_byte_less [of b] by linarith simp
  then have h: "is_hex_lower (hex_char (unat b div 16))" "is_hex_lower (hex_char (unat b mod 16))"
    for b :: byte
    unfolding is_hex_lower_def by blast+
  show "c \<in> set (hex_encode bs) \<Longrightarrow> is_hex_lower c"
    by (induction bs) (auto simp: hex_encode_def hex_byte_def h)
qed

section \<open>Base64\<close>

definition b64_char :: "nat \<Rightarrow> char" where
  "b64_char i =
     (if i < 26 then char_of (65 + i)
      else if i < 52 then char_of (71 + i)
      else if i < 62 then char_of (i - 4)
      else if i = 62 then CHR ''+'' else CHR ''/'')"

definition b64_val :: "char \<Rightarrow> nat option" where
  "b64_val c =
     (if 65 \<le> code c \<and> code c \<le> 90 then Some (code c - 65)
      else if 97 \<le> code c \<and> code c \<le> 122 then Some (code c - 71)
      else if 48 \<le> code c \<and> code c \<le> 57 then Some (code c + 4)
      else if c = CHR ''+'' then Some 62
      else if c = CHR ''/'' then Some 63
      else None)"

fun b64_encode :: "byte list \<Rightarrow> string" where
  "b64_encode [] = []"
| "b64_encode [a] =
     (let n = unat a * 16
      in [b64_char (n div 64), b64_char (n mod 64), CHR ''='', CHR ''=''])"
| "b64_encode [a, b] =
     (let n = unat a * 1024 + unat b * 4
      in [b64_char (n div 4096), b64_char (n div 64 mod 64), b64_char (n mod 64), CHR ''=''])"
| "b64_encode (a # b # c # bs) =
     (let n = unat a * 65536 + unat b * 256 + unat c
      in b64_char (n div 262144) # b64_char (n div 4096 mod 64) # b64_char (n div 64 mod 64) #
         b64_char (n mod 64) # b64_encode bs)"

text \<open>
  \<^verbatim>\<open>DecodeString\<close>: CR and LF are skipped anywhere; padding only ends the input; the unused
  low bits before padding are ignored (the encoding is not the strict one).
\<close>

fun b64_quads :: "string \<Rightarrow> byte list option" where
  "b64_quads [] = Some []"
| "b64_quads (p # q # r # s # cs) =
     (case (b64_val p, b64_val q) of
        (Some x, Some y) \<Rightarrow>
          (if r = CHR ''='' then
             (if s = CHR ''='' \<and> cs = [] then Some [word_of_nat ((x * 64 + y) div 16)] else None)
           else (case b64_val r of
               None \<Rightarrow> None
             | Some z \<Rightarrow>
                 let n = (x * 64 + y) * 64 + z
                 in if s = CHR ''='' then
                      (if cs = [] then Some [word_of_nat (n div 1024), word_of_nat (n div 4 mod 256)] else None)
                    else (case b64_val s of
                        None \<Rightarrow> None
                      | Some w \<Rightarrow>
                          let m = n * 64 + w
                          in map_option (\<lambda>bs. word_of_nat (m div 65536) # word_of_nat (m div 256 mod 256) #
                               word_of_nat (m mod 256) # bs) (b64_quads cs))))
      | _ \<Rightarrow> None)"
| "b64_quads cs = None"

definition b64_decode :: "string \<Rightarrow> byte list option" where
  "b64_decode s = b64_quads (filter (\<lambda>c. code c \<noteq> 10 \<and> code c \<noteq> 13) s)"

lemma b64_val_char [simp]: "i < 64 \<Longrightarrow> b64_val (b64_char i) = Some i"
  by (auto simp: b64_val_def b64_char_def)

lemma b64_char_code:
  assumes "i < 64"
  shows "b64_char i \<noteq> CHR ''=''" "code (b64_char i) \<noteq> 10" "code (b64_char i) \<noteq> 13"
proof -
  have v: "b64_val (b64_char i) = Some i" using assms by simp
  show "b64_char i \<noteq> CHR ''=''" using v by (auto simp: b64_val_def)
  have "b64_val (char_of (10 :: nat)) = None" "b64_val (char_of (13 :: nat)) = None"
    by (simp_all add: b64_val_def char_of_def)
  with v show "code (b64_char i) \<noteq> 10" "code (b64_char i) \<noteq> 13"
    by (metis char_of_char option.distinct(1))+
qed

lemma b64_encode_no_newline: "filter (\<lambda>c. code c \<noteq> 10 \<and> code c \<noteq> 13) (b64_encode bs) = b64_encode bs"
proof (induction bs rule: b64_encode.induct)
  case (2 a)
  have "unat a * 16 div 64 < 64" using unat_byte_less [of a] by linarith
  then show ?case by (simp add: Let_def b64_char_code)
next
  case (3 a b)
  have "(unat a * 1024 + unat b * 4) div 4096 < 64"
    using unat_byte_less [of a] unat_byte_less [of b] by linarith
  then show ?case by (simp add: Let_def b64_char_code)
next
  case (4 a b c bs)
  have "(unat a * 65536 + unat b * 256 + unat c) div 262144 < 64"
    using unat_byte_less [of a] unat_byte_less [of b] unat_byte_less [of c] by linarith
  with 4 show ?case by (simp add: Let_def b64_char_code)
qed simp

lemma b64_digits3:
  fixes n :: nat
  shows "((n div 262144 * 64 + n div 4096 mod 64) * 64 + n div 64 mod 64) * 64 + n mod 64 = n"
proof -
  have "n div 4096 = n div 262144 * 64 + n div 4096 mod 64"
    using div_mult_mod_eq [of "n div 4096" 64] by (simp add: div_mult2_eq [symmetric])
  moreover have "n div 64 = n div 4096 * 64 + n div 64 mod 64"
    using div_mult_mod_eq [of "n div 64" 64] by (simp add: div_mult2_eq [symmetric])
  moreover have "n = n div 64 * 64 + n mod 64" by simp
  ultimately show ?thesis by metis
qed

lemma b64_quads_encode: "b64_quads (b64_encode bs) = Some bs"
proof (induction bs rule: b64_encode.induct)
  case 1
  then show ?case by simp
next
  case (2 a)
  let ?n = "unat a * 16"
  have "?n div 64 < 64" using unat_byte_less [of a] by linarith
  moreover have "(?n div 64 * 64 + ?n mod 64) div 16 = unat a"
    by (simp only: div_mult_mod_eq)
  ultimately show ?case by (simp only: b64_encode.simps Let_def b64_quads.simps) (simp add: b64_char_code)
next
  case (3 a b)
  let ?n = "unat a * 1024 + unat b * 4"
  have lt: "?n div 4096 < 64" using unat_byte_less [of a] unat_byte_less [of b] by linarith
  have "(?n div 4096 * 64 + ?n div 64 mod 64) * 64 + ?n mod 64 = ?n"
  proof -
    have "?n div 64 = ?n div 4096 * 64 + ?n div 64 mod 64"
      using div_mult_mod_eq [of "?n div 64" 64] by (simp add: div_mult2_eq [symmetric])
    then show ?thesis by (metis div_mult_mod_eq)
  qed
  moreover have "?n div 1024 = unat a" "?n div 4 mod 256 = unat b"
    using unat_byte_less [of b] by auto
  ultimately show ?case using lt
    by (simp only: b64_encode.simps Let_def b64_quads.simps) (simp add: b64_char_code)
next
  case (4 a b c bs)
  let ?n = "unat a * 65536 + unat b * 256 + unat c"
  have lt: "?n div 262144 < 64"
    using unat_byte_less [of a] unat_byte_less [of b] unat_byte_less [of c] by linarith
  have "?n div 65536 = unat a" "?n div 256 mod 256 = unat b" "?n mod 256 = unat c"
  proof -
    have *: "?n = (unat a * 256 + unat b) * 256 + unat c" by simp
    have "?n div 256 = unat a * 256 + unat b"
      unfolding * by (subst div_mult_self3) simp_all
    then show "?n div 256 mod 256 = unat b" by simp
    have "?n div 65536 = ?n div 256 div 256" by (simp add: div_mult2_eq [symmetric])
    then show "?n div 65536 = unat a" using \<open>?n div 256 = _\<close> by simp
    show "?n mod 256 = unat c" using * by (metis mod_less mod_mult_self3 unat_byte_less)
  qed
  with lt 4 b64_digits3 [of ?n] show ?case
    by (simp only: b64_encode.simps Let_def b64_quads.simps) (simp add: b64_char_code)
qed

lemma b64_decode_encode [simp]: "b64_decode (b64_encode bs) = Some bs"
  by (simp add: b64_decode_def b64_encode_no_newline b64_quads_encode)

section \<open>url.QueryEscape\<close>

definition upper_hex_char :: "nat \<Rightarrow> char" where
  "upper_hex_char d = (if d < 10 then char_of (48 + d) else char_of (55 + d))"

definition url_unreserved :: "char \<Rightarrow> bool" where
  "url_unreserved c \<longleftrightarrow>
     (97 \<le> code c \<and> code c \<le> 122) \<or> (65 \<le> code c \<and> code c \<le> 90) \<or> is_digit c \<or>
     c = CHR ''-'' \<or> c = CHR ''_'' \<or> c = CHR ''.'' \<or> c = CHR ''~''"

fun query_escape :: "string \<Rightarrow> string" where
  "query_escape [] = []"
| "query_escape (c # s) =
     (if url_unreserved c then [c]
      else if c = CHR '' '' then ''+''
      else [CHR ''%'', upper_hex_char (code c div 16), upper_hex_char (code c mod 16)])
     @ query_escape s"

end
