(* ===== verification/PiaClient.thy ===== *)
theory PiaClient
  imports GoEncoding
begin

text \<open>
  The PIA API client of src/pia.go: errors and their texts, the Retry-After header, the token
  cache, the region cache and lookup, the token request, the server list, the key registration
  with its certificate check, key generation, sessions and the WireGuard configuration text.
  What the network, the TLS and X.509 libraries, the JSON decoder and the random source answer
  are parameters; the errors they make are environment errors.
\<close>

unbundle bit_operations_syntax

section \<open>Errors\<close>

fun error_text :: "gerror \<Rightarrow> string" where
  "error_text (ErrMsg s) = s"
| "error_text (ErrWrap p e q) = p @ error_text e @ q"
| "error_text (ErrRateLimit r) =
     (if rl_retry_after r > 0
      then ''rate-limited by PIA '' @ rl_endpoint r @ '' endpoint: '' @ rl_status r @
           '' (retry-after '' @ duration_string (rl_retry_after r) @ ''): '' @ rl_body r
      else ''rate-limited by PIA '' @ rl_endpoint r @ '' endpoint: '' @ rl_status r @ '': '' @ rl_body r)"
| "error_text (ErrAuth a) =
     ''auth rejected by PIA '' @ ae_endpoint a @ '' endpoint: '' @ ae_status a @ '': '' @ ae_body a"
| "error_text ErrTunnelDown = ''piaproxy: tunnel is down''"
| "error_text ErrShortWrite = ''short write''"
| "error_text ErrCanceled = ''context canceled''"
| "error_text (ErrEnv e) = ee_text e"

definition IsAuthError :: "gerror \<Rightarrow> bool" where
  "IsAuthError e \<longleftrightarrow> as_auth e \<noteq> None"

definition IsRateLimitError :: "gerror \<Rightarrow> bool" where
  "IsRateLimitError e \<longleftrightarrow> as_rate_limit e \<noteq> None"

section \<open>Data\<close>

record serverEndpoint =
  se_ip :: string
  se_cn :: string
  se_port :: int

record region =
  rg_id :: string
  rg_name :: string
  rg_country :: string
  rg_dns :: string
  rg_portForward :: bool
  rg_geo :: bool
  rg_offline :: bool
  rg_servers :: "serverEndpoint list"

record wgSession =
  ws_region :: region
  ws_server :: serverEndpoint
  ws_peerIP :: "byte list"
  ws_serverPublicKey :: string
  ws_serverPort :: int
  ws_dnsServers :: "byte list list"
  ws_privateKey :: string
  ws_publicKey :: string

record wireGuardConfig =
  wg_peerIPv4 :: "byte list"
  wg_serverPublicKey :: string
  wg_serverPort :: int
  wg_dnsServers :: "byte list list"

record piaClient =
  pc_cert :: string                      \<comment> \<open>the root certificate\<close>
  pc_username :: string
  pc_password :: string
  token :: string
  tokenAcquiredAt :: gotime
  regions :: "region list option"        \<comment> \<open>\<open>None\<close> is the nil slice\<close>

definition NewPIAClient :: "string \<Rightarrow> string \<Rightarrow> string \<Rightarrow> piaClient" where
  "NewPIAClient cert user pass =
     \<lparr>pc_cert = cert, pc_username = user, pc_password = pass, token = [],
      tokenAcquiredAt = zero_time, regions = None\<rparr>"

section \<open>The environment\<close>

type_synonym 'a env_result = "env_error + 'a"

definition lift_env :: "'a env_result \<Rightarrow> 'a result" where
  "lift_env r = (case r of Inl e \<Rightarrow> Inl (ErrEnv e) | Inr a \<Rightarrow> Inr a)"

text \<open>An HTTP response; \<open>hr_body\<close> is what can be read of the body, \<open>hr_body_err\<close> how it breaks off.\<close>

record httpResponse =
  hr_code :: int
  hr_status :: string
  hr_retry_after :: string
  hr_body :: string
  hr_body_err :: "env_error option"

record addKeyPayload =
  ak_status :: string
  ak_serverIP :: string
  ak_peerIP :: string
  ak_serverKey :: string
  ak_serverPort :: int
  ak_dns :: "string list"

record wgGroup =
  gr_name :: string
  gr_ports :: "int list"

record regionJSON =
  rj_id :: string
  rj_name :: string
  rj_country :: string
  rj_dns :: string
  rj_portForward :: bool
  rj_geo :: bool
  rj_offline :: bool
  rj_wg :: "(string \<times> string) list"     \<comment> \<open>ip, cn\<close>

record serverListJSON =
  sl_groups :: "wgGroup list"
  sl_regions :: "regionJSON list"

record certificate =
  ct_cn :: string
  ct_raw :: string

text \<open>Library code the client calls: Unicode tables, HTTP dates, JSON, X.509, Curve25519.\<close>

record libs =
  lb_uni :: unicode
  lb_http_date :: "string \<Rightarrow> gotime option"
  lb_json_token :: "string \<Rightarrow> env_error option \<Rightarrow> string env_result"
  lb_json_addkey :: "string \<Rightarrow> addKeyPayload env_result"
  lb_json_servers :: "string \<Rightarrow> serverListJSON env_result"
  lb_verify :: "string \<Rightarrow> certificate list \<Rightarrow> gotime \<Rightarrow> certificate \<Rightarrow> env_error option"
  lb_x25519 :: "byte list \<Rightarrow> byte list env_result"

text \<open>
  What the network does in one registration: the clock, 32 random bytes, the answer to a token
  request, the TCP dial of the server, the certificates it presents, the rest of its handshake,
  whether a URL can be made a request, and the answer to it (redirects the HTTP client follows
  included).
\<close>

record attempt =
  at_now :: gotime
  at_random :: "byte list env_result"
  at_token :: "httpResponse env_result"
  at_dial :: "string \<Rightarrow> env_error option"
  at_chain :: "certificate list"
  at_handshake :: "env_error option"
  at_request :: "string \<Rightarrow> env_error option"
  at_get :: "string \<Rightarrow> httpResponse env_result"

datatype api_request =
    ReqToken string string
  | ReqServers
  | ReqAddKey string          \<comment> \<open>the URL sent over an established connection\<close>

section \<open>Retry-After\<close>

definition parseRetryAfter :: "libs \<Rightarrow> gotime \<Rightarrow> string \<Rightarrow> int" where
  "parseRetryAfter L now h0 =
     (let h = trim_space (lb_uni L) h0
      in if h = [] then 0
         else (case atoi h of
             Some secs \<Rightarrow>
               if secs > 0 then int64 (secs * second)
               else (case lb_http_date L h of
                   Some t \<Rightarrow> if time_sub t now > 0 then time_sub t now else 0
                 | None \<Rightarrow> 0)
           | None \<Rightarrow>
               (case lb_http_date L h of
                   Some t \<Rightarrow> if time_sub t now > 0 then time_sub t now else 0
                 | None \<Rightarrow> 0)))"

section \<open>The status checks the two endpoints share\<close>

definition body512 :: "httpResponse \<Rightarrow> string" where
  "body512 r = take 512 (hr_body r)"

definition status_error :: "libs \<Rightarrow> gotime \<Rightarrow> string \<Rightarrow> string \<Rightarrow> httpResponse \<Rightarrow> gerror option" where
  "status_error L now endpoint failed r =
     (if hr_code r = 429 then
        Some (ErrRateLimit \<lparr>rl_endpoint = endpoint, rl_status = hr_status r, rl_body = body512 r,
                rl_retry_after = parseRetryAfter L now (hr_retry_after r)\<rparr>)
      else if hr_code r = 401 \<or> hr_code r = 403 then
        Some (ErrAuth \<lparr>ae_endpoint = endpoint, ae_status = hr_status r, ae_body = body512 r\<rparr>)
      else if hr_code r < 200 \<or> hr_code r \<ge> 300 then
        Some (ErrMsg (failed @ hr_status r @ '': '' @ body512 r))
      else None)"

definition url_error :: "libs \<Rightarrow> string \<Rightarrow> string \<Rightarrow> gerror \<Rightarrow> gerror" where
  "url_error L op url e = ErrWrap (op @ '' '' @ u_quote (lb_uni L) url @ '': '') e []"

section \<open>Token\<close>

definition token_url :: string where
  "token_url = ''https://www.privateinternetaccess.com/api/client/v2/token''"

definition fetchAuthToken :: "libs \<Rightarrow> attempt \<Rightarrow> string result" where
  "fetchAuthToken L A =
     (case at_token A of
        Inl e \<Rightarrow> Inl (url_error L ''Post'' token_url (ErrEnv e))
      | Inr r \<Rightarrow>
          (case status_error L (at_now A) ''token'' ''token request failed: '' r of
             Some e \<Rightarrow> Inl e
           | None \<Rightarrow>
               (case lb_json_token L (hr_body r) (hr_body_err r) of
                  Inl e \<Rightarrow> Inl (ErrWrap ''invalid token response: '' (ErrEnv e) [])
                | Inr t \<Rightarrow> if t = [] then Inl (ErrMsg ''received empty token'') else Inr t)))"

definition Token :: "libs \<Rightarrow> attempt \<Rightarrow> piaClient \<Rightarrow> string result \<times> piaClient \<times> api_request list" where
  "Token L A c =
     (if token c \<noteq> [] then (Inr (token c), c, [])
      else (case fetchAuthToken L A of
          Inl e \<Rightarrow> (Inl e, c, [ReqToken (pc_username c) (pc_password c)])
        | Inr t \<Rightarrow>
            (Inr t, c\<lparr>token := t, tokenAcquiredAt := at_now A\<rparr>,
             [ReqToken (pc_username c) (pc_password c)])))"

definition SetToken :: "piaClient \<Rightarrow> string \<Rightarrow> gotime \<Rightarrow> piaClient" where
  "SetToken c t acquiredAt = c\<lparr>token := t, tokenAcquiredAt := acquiredAt\<rparr>"

definition GetToken :: "piaClient \<Rightarrow> string \<times> gotime" where
  "GetToken c = (token c, tokenAcquiredAt c)"

definition InvalidateToken :: "piaClient \<Rightarrow> piaClient" where
  "InvalidateToken c = c\<lparr>token := [], tokenAcquiredAt := zero_time\<rparr>"

section \<open>Server list and regions\<close>

fun wireguard_port :: "libs \<Rightarrow> wgGroup list \<Rightarrow> int" where
  "wireguard_port L [] = -1"
| "wireguard_port L (g # gs) =
     (if equal_fold (lb_uni L) (gr_name g) ''WireGuard'' \<and> gr_ports g \<noteq> []
      then hd (gr_ports g) else wireguard_port L gs)"

definition region_of :: "int \<Rightarrow> regionJSON \<Rightarrow> region" where
  "region_of prt r =
     \<lparr>rg_id = rj_id r, rg_name = rj_name r, rg_country = rj_country r, rg_dns = rj_dns r,
      rg_portForward = rj_portForward r, rg_geo = rj_geo r, rg_offline = rj_offline r,
      rg_servers = map (\<lambda>(ip, cn). \<lparr>se_ip = ip, se_cn = cn, se_port = prt\<rparr>) (rj_wg r)\<rparr>"

definition servers_url :: string where
  "servers_url = ''https://serverlist.piaservers.net/vpninfo/servers/v6''"

definition fetchServerList :: "libs \<Rightarrow> httpResponse env_result \<Rightarrow> region list result" where
  "fetchServerList L answer =
     (case answer of
        Inl e \<Rightarrow> Inl (url_error L ''Get'' servers_url (ErrEnv e))
      | Inr r \<Rightarrow>
          if hr_code r < 200 \<or> hr_code r \<ge> 300
          then Inl (ErrMsg (''server list request failed: '' @ hr_status r))
          else (case hr_body_err r of
              Some e \<Rightarrow> Inl (ErrEnv e)
            | None \<Rightarrow>
                (case find_idx (\<lambda>b. b = newline) (hr_body r) of
                   None \<Rightarrow> Inl (ErrMsg ''invalid server list format'')
                 | Some nl \<Rightarrow>
                     (case lb_json_servers L (take nl (hr_body r)) of
                        Inl e \<Rightarrow> Inl (ErrEnv e)
                      | Inr sl \<Rightarrow>
                          (let prt = wireguard_port L (sl_groups sl)
                           in if prt = -1
                              then Inl (ErrMsg ''WireGuard port not found in server list'')
                              else Inr (map (region_of prt) (sl_regions sl)))))))"

definition Regions ::
  "libs \<Rightarrow> httpResponse env_result \<Rightarrow> piaClient \<Rightarrow> region list result \<times> piaClient \<times> api_request list" where
  "Regions L answer c =
     (case regions c of
        Some rs \<Rightarrow> (Inr rs, c, [])
      | None \<Rightarrow>
          (case fetchServerList L answer of
             Inl e \<Rightarrow> (Inl e, c, [ReqServers])
           | Inr rs \<Rightarrow> (Inr rs, c\<lparr>regions := Some rs\<rparr>, [ReqServers])))"

definition FindRegion ::
  "libs \<Rightarrow> httpResponse env_result \<Rightarrow> piaClient \<Rightarrow> string \<Rightarrow> region result \<times> piaClient \<times> api_request list" where
  "FindRegion L answer c i =
     (case Regions L answer c of
        (Inl e, c1, reqs) \<Rightarrow> (Inl e, c1, reqs)
      | (Inr rs, c1, reqs) \<Rightarrow>
          (case find (\<lambda>r. equal_fold (lb_uni L) (rg_id r) i) rs of
             Some r \<Rightarrow> (Inr r, c1, reqs)
           | None \<Rightarrow>
               (Inl (ErrMsg (''region '' @ u_quote (lb_uni L) i @ '' not found'')), c1, reqs)))"

section \<open>Registering a key\<close>

text \<open>The \<^verbatim>\<open>VerifyConnection\<close> callback.\<close>

definition verifyConnection ::
  "libs \<Rightarrow> string \<Rightarrow> string \<Rightarrow> gotime \<Rightarrow> certificate list \<Rightarrow> gerror option" where
  "verifyConnection L ca serverHostname now chain =
     (case chain of
        [] \<Rightarrow> Some (ErrMsg ''no peer certificates'')
      | leaf # rest \<Rightarrow>
          if \<not> equal_fold (lb_uni L) (ct_cn leaf) serverHostname
          then Some (ErrMsg (''certificate CN mismatch: got '' @ u_quote (lb_uni L) (ct_cn leaf) @
                 '', want '' @ u_quote (lb_uni L) serverHostname))
          else map_option ErrEnv (lb_verify L ca rest now leaf))"

text \<open>The \<^verbatim>\<open>DialTLSContext\<close> of the transport: dial, then the handshake with the check.\<close>

definition dial_tls :: "libs \<Rightarrow> attempt \<Rightarrow> string \<Rightarrow> string \<Rightarrow> string \<Rightarrow> gerror option" where
  "dial_tls L A ca host address =
     (case at_dial A address of
        Some e \<Rightarrow> Some (ErrEnv e)
      | None \<Rightarrow>
          (case verifyConnection L ca host (at_now A) (at_chain A) of
             Some e \<Rightarrow> Some e
           | None \<Rightarrow> map_option ErrEnv (at_handshake A)))"

fun parse_dns :: "string list \<Rightarrow> byte list list result" where
  "parse_dns [] = Inr []"
| "parse_dns (s # ss) =
     (case parse_ip s of
        None \<Rightarrow> Inl (ErrMsg (''invalid DNS server IP: '' @ s))
      | Some ip \<Rightarrow> rbind (parse_dns ss) (\<lambda>ips. Inr (ip # ips)))"

definition addkey_url :: "serverEndpoint \<Rightarrow> string \<Rightarrow> string \<Rightarrow> string" where
  "addkey_url s tok pub =
     ''https://'' @ se_ip s @ '':'' @ itoa (se_port s) @ ''/addKey?pt='' @ query_escape tok @
     ''&pubkey='' @ query_escape pub"

definition accept_addkey :: "libs \<Rightarrow> serverEndpoint \<Rightarrow> httpResponse \<Rightarrow> wireGuardConfig result" where
  "accept_addkey L s r =
     (case hr_body_err r of
        Some e \<Rightarrow> Inl (ErrEnv e)
      | None \<Rightarrow>
          (case lb_json_addkey L (hr_body r) of
             Inl e \<Rightarrow> Inl (ErrWrap ''invalid addKey response: '' (ErrEnv e) ('' (body='' @ hr_body r @ '')''))
           | Inr p \<Rightarrow>
               if \<not> equal_fold (lb_uni L) (ak_status p) ''OK''
                 then Inl (ErrMsg (''addKey returned status '' @ u_quote (lb_uni L) (ak_status p)))
               else if \<not> equal_fold (lb_uni L) (ak_serverIP p) (se_ip s)
                 then Inl (ErrMsg ''server IP in response does not match'')
               else (case parse_ip (ak_peerIP p) of
                   None \<Rightarrow> Inl (ErrMsg (''invalid peer IP: '' @ ak_peerIP p))
                 | Some peerIP \<Rightarrow>
                     rbind (parse_dns (ak_dns p)) (\<lambda>dns.
                       Inr \<lparr>wg_peerIPv4 = peerIP, wg_serverPublicKey = ak_serverKey p,
                            wg_serverPort = ak_serverPort p, wg_dnsServers = dns\<rparr>))))"

definition registerWireGuardKey ::
  "libs \<Rightarrow> attempt \<Rightarrow> string \<Rightarrow> serverEndpoint \<Rightarrow> string \<Rightarrow> string \<Rightarrow> wireGuardConfig result \<times> api_request list" where
  "registerWireGuardKey L A ca s tok pub =
     (let url = addkey_url s tok pub
      in case at_request A url of
           Some e \<Rightarrow> (Inl (ErrEnv e), [])
         | None \<Rightarrow>
             (case dial_tls L A ca (se_cn s) (se_ip s @ '':'' @ itoa (se_port s)) of
                Some e \<Rightarrow> (Inl (url_error L ''Get'' url e), [])
              | None \<Rightarrow>
                  (case at_get A url of
                     Inl e \<Rightarrow> (Inl (url_error L ''Get'' url (ErrEnv e)), [ReqAddKey url])
                   | Inr r \<Rightarrow>
                       (case status_error L (at_now A) ''addKey'' ''addKey failed: '' r of
                          Some e \<Rightarrow> (Inl e, [ReqAddKey url])
                        | None \<Rightarrow> (accept_addkey L s r, [ReqAddKey url])))))"

section \<open>Keys\<close>

text \<open>\<^verbatim>\<open>priv[0] &= 248; priv[31] &= 127; priv[31] |= 64\<close>\<close>

definition clamp_key :: "byte list \<Rightarrow> byte list" where
  "clamp_key k =
     (let k1 = k[0 := k ! 0 AND 248];
          k2 = k1[31 := k1 ! 31 AND 127]
      in k2[31 := k2 ! 31 OR 64])"

definition generateWireGuardKeyPair :: "libs \<Rightarrow> byte list env_result \<Rightarrow> (string \<times> string) result" where
  "generateWireGuardKeyPair L rnd =
     (case rnd of
        Inl e \<Rightarrow> Inl (ErrWrap ''generating private key: '' (ErrEnv e) [])
      | Inr k \<Rightarrow>
          (let priv = clamp_key k
           in case lb_x25519 L priv of
                Inl e \<Rightarrow> Inl (ErrWrap ''deriving public key: '' (ErrEnv e) [])
              | Inr pub \<Rightarrow> Inr (b64_encode pub, b64_encode priv)))"

section \<open>Sessions\<close>

definition NewSessionWithServer ::
  "libs \<Rightarrow> attempt \<Rightarrow> piaClient \<Rightarrow> region \<Rightarrow> serverEndpoint \<Rightarrow> wgSession result \<times> piaClient \<times> api_request list" where
  "NewSessionWithServer L A c reg s =
     (case generateWireGuardKeyPair L (at_random A) of
        Inl e \<Rightarrow> (Inl e, c, [])
      | Inr (pub, priv) \<Rightarrow>
          (case Token L A c of
             (Inl e, c1, q1) \<Rightarrow> (Inl e, c1, q1)
           | (Inr tok, c1, q1) \<Rightarrow>
               (case registerWireGuardKey L A (pc_cert c1) s tok pub of
                  (Inl e, q2) \<Rightarrow> (Inl e, if IsAuthError e then InvalidateToken c1 else c1, q1 @ q2)
                | (Inr wg, q2) \<Rightarrow>
                    (Inr \<lparr>ws_region = reg, ws_server = s, ws_peerIP = wg_peerIPv4 wg,
                          ws_serverPublicKey = wg_serverPublicKey wg, ws_serverPort = wg_serverPort wg,
                          ws_dnsServers = wg_dnsServers wg, ws_privateKey = priv, ws_publicKey = pub\<rparr>,
                     c1, q1 @ q2))))"

text \<open>
  \<^verbatim>\<open>NewSession\<close>: \<open>pick\<close> is \<^verbatim>\<open>rand.Int\<close>, which answers an index below its bound (\<open>pick_ok\<close>).
\<close>

definition pick_ok :: "(nat \<Rightarrow> nat env_result) \<Rightarrow> bool" where
  "pick_ok pick \<longleftrightarrow> (\<forall>n i. 0 < n \<and> pick n = Inr i \<longrightarrow> i < n)"

definition NewSession ::
  "libs \<Rightarrow> attempt \<Rightarrow> (nat \<Rightarrow> nat env_result) \<Rightarrow> piaClient \<Rightarrow> region \<Rightarrow> wgSession result \<times> piaClient \<times> api_request list" where
  "NewSession L A pick c reg =
     (if rg_servers reg = []
      then (Inl (ErrMsg (''region '' @ rg_id reg @ '' has no WireGuard servers'')), c, [])
      else (case pick (length (rg_servers reg)) of
          Inl e \<Rightarrow> (Inl (ErrEnv e), c, [])
        | Inr i \<Rightarrow> NewSessionWithServer L A c reg (rg_servers reg ! i)))"

section \<open>IPCConfig\<close>

definition IPCConfig :: "wgSession \<Rightarrow> string result" where
  "IPCConfig s =
     (case b64_decode (ws_privateKey s) of
        None \<Rightarrow> Inl (ErrWrap ''invalid private key: '' (ErrMsg ''illegal base64 data'') [])
      | Some pk \<Rightarrow>
          (case b64_decode (ws_serverPublicKey s) of
             None \<Rightarrow> Inl (ErrWrap ''invalid server public key: '' (ErrMsg ''illegal base64 data'') [])
           | Some peer \<Rightarrow>
               Inr (concat (map (\<lambda>l. l @ [newline])
                 [''private_key='' @ hex_encode pk,
                  ''replace_peers=true'',
                  ''public_key='' @ hex_encode peer,
                  ''endpoint='' @ se_ip (ws_server s) @ '':'' @ itoa (ws_serverPort s),
                  ''persistent_keepalive_interval=25'',
                  ''replace_allowed_ips=true'',
                  ''allowed_ip=0.0.0.0/0'',
                  ''allowed_ip=::/0'']))))"

section \<open>Certificates\<close>

text \<open>
  \<^verbatim>\<open>ParseCertificate\<close>: the loop over PEM blocks; \<open>pem\<close> is \<^verbatim>\<open>pem.Decode\<close> (block type, block
  bytes, rest) and \<open>x509\<close> the DER parser. \<open>None\<close> is not returning.
\<close>

partial_function (option) pem_loop ::
  "(string \<Rightarrow> (string \<times> string \<times> string) option) \<Rightarrow> (string \<Rightarrow> 'c env_result) \<Rightarrow> string \<Rightarrow> 'c result option" where
  "pem_loop pem x509 data =
     (case pem data of
        None \<Rightarrow> Some (Inl (ErrMsg ''no PEM certificate found''))
      | Some (typ, block, rest) \<Rightarrow>
          if typ = ''CERTIFICATE'' then Some (lift_env (x509 block))
          else pem_loop pem x509 rest)"

definition contains :: "string \<Rightarrow> string \<Rightarrow> bool" where
  "contains s sub \<longleftrightarrow> (\<exists>i \<in> set [0..<Suc (length s)]. take (length sub) (drop i s) = sub)"

definition ParseCertificate ::
  "(string \<Rightarrow> (string \<times> string \<times> string) option) \<Rightarrow> (string \<Rightarrow> 'c env_result) \<Rightarrow> string \<Rightarrow> 'c result option" where
  "ParseCertificate pem x509 data =
     (if contains data ''-----BEGIN'' then pem_loop pem x509 data
      else Some (lift_env (x509 data)))"

definition LoadCertFromFile ::
  "(string \<Rightarrow> string env_result) \<Rightarrow> (string \<Rightarrow> (string \<times> string \<times> string) option) \<Rightarrow>
   (string \<Rightarrow> 'c env_result) \<Rightarrow> string \<Rightarrow> 'c result option" where
  "LoadCertFromFile readFile pem x509 path =
     (case readFile path of
        Inl e \<Rightarrow> Some (Inl (ErrEnv e))
      | Inr data \<Rightarrow> ParseCertificate pem x509 data)"

section \<open>The token cache as an interface\<close>

text \<open>
  What sessions rely on: a non-empty cached token is returned without a request and left alone;
  a fetched token is cached; dropping it empties the cache. Hence after any run of such calls
  a request is made only for an empty cache.
\<close>

locale token_cache =
  fixes cached :: "'c \<Rightarrow> string" and get :: "'a \<Rightarrow> 'c \<Rightarrow> string result \<times> 'c \<times> 'q list"
    and drop_token :: "'c \<Rightarrow> 'c"
  assumes get_cached: "cached c \<noteq> [] \<Longrightarrow> get a c = (Inr (cached c), c, [])"
    and get_fetched: "cached c = [] \<Longrightarrow> get a c = (r, c', q) \<Longrightarrow>
      length q = 1 \<and> (case r of Inl _ \<Rightarrow> c' = c | Inr t \<Rightarrow> t \<noteq> [] \<and> cached c' = t)"
    and drop_cached: "cached (drop_token c) = []"
begin

lemma get_Inr: "get a c = (Inr t, c', q) \<Longrightarrow> t \<noteq> [] \<and> cached c' = t"
  using get_cached [of c a] get_fetched [of c a "Inr t" c' q] by (cases "cached c = []") auto

lemma get_again: "get a c = (Inr t, c', q) \<Longrightarrow> get b c' = (Inr t, c', [])"
  using get_Inr get_cached by metis

lemma get_after_drop: "get a (drop_token c) = (r, c', q) \<Longrightarrow> length q = 1"
  using get_fetched drop_cached by metis

end

lemma fetchAuthToken_nonempty: "fetchAuthToken L A = Inr t \<Longrightarrow> t \<noteq> []"
  by (auto simp: fetchAuthToken_def split: sum.splits option.splits if_splits)

interpretation tc: token_cache token "Token L" InvalidateToken for L
  by unfold_locales
    (auto simp: Token_def InvalidateToken_def dest: fetchAuthToken_nonempty split: sum.splits)

section \<open>Lemmas\<close>

lemma status_error_None: "status_error L now ep f r = None \<longleftrightarrow> 200 \<le> hr_code r \<and> hr_code r < 300"
  by (auto simp: status_error_def)

lemma status_error_auth:
  "status_error L now ep f r = Some e \<Longrightarrow> IsAuthError e \<longleftrightarrow> hr_code r = 401 \<or> hr_code r = 403"
  by (auto simp: status_error_def IsAuthError_def split: if_splits)

lemma as_auth_url_error [simp]: "as_auth (url_error L op u e) = as_auth e"
  by (simp add: url_error_def)

lemma verifyConnection_not_auth: "verifyConnection L ca h now chain = Some e \<Longrightarrow> as_auth e = None"
  by (auto simp: verifyConnection_def split: list.splits if_splits)

lemma dial_tls_not_auth: "dial_tls L A ca h a = Some e \<Longrightarrow> as_auth e = None"
  by (auto simp: dial_tls_def dest: verifyConnection_not_auth split: option.splits)

lemma parse_dns_not_auth: "parse_dns ss = Inl e \<Longrightarrow> as_auth e = None"
  by (induction ss) (auto simp: rbind_def split: option.splits sum.splits)

lemma accept_addkey_not_auth: "accept_addkey L s r = Inl e \<Longrightarrow> as_auth e = None"
  by (auto simp: accept_addkey_def rbind_def dest: parse_dns_not_auth
      split: option.splits sum.splits if_splits)

lemma register_auth:
  assumes "registerWireGuardKey L A ca s tok pub = (Inl e, q)" "IsAuthError e"
  shows "\<exists>r. at_get A (addkey_url s tok pub) = Inr r \<and> (hr_code r = 401 \<or> hr_code r = 403)"
  using assms
  by (auto simp: registerWireGuardKey_def Let_def IsAuthError_def
      dest: dial_tls_not_auth accept_addkey_not_auth status_error_auth [unfolded IsAuthError_def]
      split: option.splits sum.splits)

lemma register_no_token_request: "registerWireGuardKey L A ca s tok pub = (r, q) \<Longrightarrow> ReqToken u p \<notin> set q"
  by (auto simp: registerWireGuardKey_def Let_def split: option.splits sum.splits)

lemma dial_tls_None:
  "dial_tls L A ca h a = None \<Longrightarrow>
     \<exists>leaf rest. at_chain A = leaf # rest \<and> equal_fold (lb_uni L) (ct_cn leaf) h \<and>
       lb_verify L ca rest (at_now A) leaf = None"
  by (auto simp: dial_tls_def verifyConnection_def split: option.splits list.splits if_splits)

lemma register_verified:
  assumes "registerWireGuardKey L A ca s tok pub = (r, q)" and "q \<noteq> []"
  shows "\<exists>leaf rest. at_chain A = leaf # rest \<and> equal_fold (lb_uni L) (ct_cn leaf) (se_cn s) \<and>
       lb_verify L ca rest (at_now A) leaf = None"
  using assms by (auto simp: registerWireGuardKey_def Let_def dest: dial_tls_None split: option.splits)

lemma parse_dns_Inr: "parse_dns ss = Inr ips \<longleftrightarrow> map parse_ip ss = map Some ips"
proof (induction ss arbitrary: ips)
  case Nil
  then show ?case by auto
next
  case (Cons s ss)
  then show ?case by (cases ips) (auto simp: rbind_Inr_iff split: option.splits)
qed

lemma pc_cert_Token: "Token L A c = (r, c1, q) \<Longrightarrow> pc_cert c1 = pc_cert c"
  by (auto simp: Token_def split: if_splits sum.splits)

lemma Token_requests: "Token L A c = (r, c1, q) \<Longrightarrow> ReqAddKey u \<notin> set q"
  by (auto simp: Token_def split: if_splits sum.splits)

section \<open>Properties of the PIA client\<close>

definition plain_uni :: unicode where
  "plain_uni = \<lparr>u_trim = (\<lambda>s. s), u_trim_right = (\<lambda>s. s), u_fold = (=), u_lower = (\<lambda>s. s),
     u_quote = (\<lambda>s. [CHR 0x22] @ s @ [CHR 0x22])\<rparr>"

definition demo_libs :: libs where
  "demo_libs = \<lparr>lb_uni = plain_uni, lb_http_date = (\<lambda>_. None),
     lb_json_token = (\<lambda>s _. Inr s),
     lb_json_addkey = (\<lambda>_. Inr \<lparr>ak_status = ''OK'', ak_serverIP = ''10.0.0.9'', ak_peerIP = ''10.0.0.2'',
        ak_serverKey = b64_encode (replicate 32 7), ak_serverPort = 1337, ak_dns = []\<rparr>),
     lb_json_servers = (\<lambda>_. Inr \<lparr>sl_groups = [\<lparr>gr_name = ''wireguard'', gr_ports = [1337]\<rparr>],
        sl_regions = [\<lparr>rj_id = ''us_seattle'', rj_name = ''Seattle'', rj_country = ''US'', rj_dns = [],
          rj_portForward = False, rj_geo = False, rj_offline = False, rj_wg = [(''10.0.0.9'', ''seattle401'')]\<rparr>]\<rparr>),
     lb_verify = (\<lambda>_ _ _ _. None), lb_x25519 = (\<lambda>k. Inr (rev k))\<rparr>"

definition demo_response :: "int \<Rightarrow> httpResponse" where
  "demo_response c = \<lparr>hr_code = c, hr_status = itoa c, hr_retry_after = ''30'', hr_body = ''tok'', hr_body_err = None\<rparr>"

definition demo_attempt :: "int \<Rightarrow> attempt" where
  "demo_attempt c = \<lparr>at_now = 0, at_random = Inr (replicate 32 255), at_token = Inr (demo_response 200),
     at_dial = (\<lambda>_. None), at_chain = [\<lparr>ct_cn = ''Seattle401'', ct_raw = []\<rparr>], at_handshake = None,
     at_request = (\<lambda>_. None), at_get = (\<lambda>_. Inr (demo_response c))\<rparr>"

definition demo_endpoint :: serverEndpoint where
  "demo_endpoint = \<lparr>se_ip = ''10.0.0.9'', se_cn = ''seattle401'', se_port = 1337\<rparr>"

definition demo_region :: region where
  "demo_region = \<lparr>rg_id = ''us_seattle'', rg_name = ''Seattle'', rg_country = ''US'', rg_dns = [],
     rg_portForward = False, rg_geo = False, rg_offline = False, rg_servers = [demo_endpoint]\<rparr>"

definition demo_client :: "string \<Rightarrow> piaClient" where
  "demo_client t = SetToken (NewPIAClient ''CA'' ''p1'' ''pw'') t 5"

text \<open>C4: A cached token is dropped only when the server answered the registration with 401 or
  403: on network errors, time-outs, TLS failures, 429 and 5xx the client is unchanged. While
  the cache is filled, no token request is made.\<close>

theorem token_dropped_only_on_rejection:
  assumes "token c \<noteq> []" and "NewSessionWithServer L A c reg s = (r, c', reqs)"
  shows "(\<forall>u p. ReqToken u p \<notin> set reqs) \<and>
    (c' = c \<or>
     c' = InvalidateToken c \<and> (\<exists>e. r = Inl e \<and> IsAuthError e) \<and>
     (\<exists>pub resp. at_get A (addkey_url s (token c) pub) = Inr resp \<and>
        (hr_code resp = 401 \<or> hr_code resp = 403)))"
proof (cases "generateWireGuardKeyPair L (at_random A)")
  case (Inl e)
  with assms show ?thesis by (auto simp: NewSessionWithServer_def)
next
  case (Inr kp)
  obtain pub priv where kp: "kp = (pub, priv)" by (cases kp)
  obtain rr q where reg: "registerWireGuardKey L A (pc_cert c) s (token c) pub = (rr, q)"
    by (cases "registerWireGuardKey L A (pc_cert c) s (token c) pub")
  have no: "ReqToken u p \<notin> set q" for u p using register_no_token_request [OF reg] .
  show ?thesis
  proof (cases rr)
    case (Inl e)
    with assms Inr kp reg no register_auth [of L A "pc_cert c" s "token c" pub e q] show ?thesis
      by (auto simp: NewSessionWithServer_def tc.get_cached split: if_splits)
  next
    case (Inr wg)
    with assms \<open>generateWireGuardKeyPair _ _ = _\<close> kp reg no show ?thesis
      by (auto simp: NewSessionWithServer_def tc.get_cached)
  qed
qed

theorem token_dropped_only_on_rejection_witness:
  "let (r, c', reqs) = NewSessionWithServer demo_libs (demo_attempt 503) (demo_client ''T'') demo_region demo_endpoint
   in (\<forall>u p. ReqToken u p \<notin> set reqs) \<and>
      (c' = demo_client ''T'' \<or> c' = InvalidateToken (demo_client ''T''))"
proof -
  obtain r c' reqs where n: "NewSessionWithServer demo_libs (demo_attempt 503) (demo_client ''T'')
      demo_region demo_endpoint = (r, c', reqs)"
    by (cases "NewSessionWithServer demo_libs (demo_attempt 503) (demo_client ''T'') demo_region demo_endpoint") auto
  have "token (demo_client ''T'') \<noteq> []" by (simp add: demo_client_def SetToken_def)
  from token_dropped_only_on_rejection [OF this n] n show ?thesis by auto
qed

text \<open>A token in the cache, however it got there, is returned as it is without a request;
  one that was fetched is cached, is never empty, and serves every later call; after
  \<^verbatim>\<open>InvalidateToken\<close> the next call makes exactly one request, with the configured account.\<close>

lemma token_cache_behaviour:
  "(t \<noteq> [] \<longrightarrow> Token L A (SetToken c t w) = (Inr t, SetToken c t w, [])) \<and>
   (Token L A c = (Inr t, c', q) \<longrightarrow> t \<noteq> [] \<and> Token L B c' = (Inr t, c', [])) \<and>
   (Token L A (InvalidateToken c) = (r, c'', q') \<longrightarrow> q' = [ReqToken (pc_username c) (pc_password c)])"
proof (intro conjI impI)
  show "Token L A (SetToken c t w) = (Inr t, SetToken c t w, [])" if "t \<noteq> []"
    using that tc.get_cached [of "SetToken c t w" L A] by (simp add: SetToken_def)
  show "t \<noteq> []" "Token L B c' = (Inr t, c', [])" if "Token L A c = (Inr t, c', q)"
    using that tc.get_Inr tc.get_again by blast+
  show "q' = [ReqToken (pc_username c) (pc_password c)]" if "Token L A (InvalidateToken c) = (r, c'', q')"
    using that by (auto simp: Token_def InvalidateToken_def split: sum.splits)
qed

text \<open>C37: A Retry-After of \<open>n\<close> seconds is read as the 64-bit wrapped product \<open>n * 10 ^ 9\<close>: right
  up to 9223372036 seconds, and negative for the next number already.\<close>

theorem parseRetryAfter_seconds:
  assumes "0 < n" and "n \<le> max_int64"
  shows "parseRetryAfter L now (itoa n) = int64 (n * second) \<and>
    (n \<le> 9223372036 \<longrightarrow> parseRetryAfter L now (itoa n) = n * second) \<and>
    parseRetryAfter L now (itoa 9223372037) = - 9223372036709551616"
proof -
  have ascii: "list_all is_ascii (itoa m)" and sp: "\<forall>c \<in> set (itoa m). \<not> is_space c" and ne: "itoa m \<noteq> []"
    if "0 < m" for m
  proof -
    have "\<forall>c \<in> set (itoa m). is_digit c"
      using that nat_to_dec_digits [of "nat m"] by (simp add: itoa_def list_all_iff)
    then show "list_all is_ascii (itoa m)" "\<forall>c \<in> set (itoa m). \<not> is_space c"
      by (auto simp: list_all_iff is_digit_def is_ascii_def is_space_def)
    show "itoa m \<noteq> []" by (simp add: itoa_def)
  qed
  have eq: "parseRetryAfter L now (itoa m) = int64 (m * second)" if m: "0 < m" "m \<le> max_int64" for m
  proof -
    have "trim_space (lb_uni L) (itoa m) = itoa m"
      using sp [OF m(1)] ne [OF m(1)] ascii [OF m(1)] by (intro trim_space_plain) auto
    moreover have "atoi (itoa m) = Some m"
      using m by (intro atoi_itoa) (auto simp: min_int64_def)
    ultimately show ?thesis using m ne by (simp add: parseRetryAfter_def)
  qed
  have "n * second = int64 (n * second)" if "n \<le> 9223372036"
    using that assms by (subst int64_id) (simp_all add: second_def int64_bounds)
  moreover have "int64 (9223372037 * second) = - 9223372036709551616"
    by (simp add: int64_def second_def signed_take_bit_eq_take_bit_minus take_bit_int_def)
  ultimately show ?thesis using eq [OF assms] eq [of 9223372037] by (simp add: int64_bounds)
qed

theorem parseRetryAfter_seconds_witness:
  "parseRetryAfter demo_libs 0 (itoa 30) = int64 (30 * second) \<and> parseRetryAfter demo_libs 0 (itoa 30) = 30 * second"
  using parseRetryAfter_seconds [of 30 demo_libs 0] by (simp add: int64_bounds)

text \<open>C3: The registration request, whose URL carries the token, is sent only over a connection
  whose leaf certificate bears the server's CN and was verified, with the other presented
  certificates as intermediates, against the configured root certificate and no other.\<close>

theorem token_sent_only_to_verified_server:
  assumes "NewSessionWithServer L A c reg s = (r, c', reqs)" and "ReqAddKey url \<in> set reqs"
  shows "\<exists>leaf rest. at_chain A = leaf # rest \<and> equal_fold (lb_uni L) (ct_cn leaf) (se_cn s) \<and>
    lb_verify L (pc_cert c) rest (at_now A) leaf = None"
proof -
  obtain pub priv where "generateWireGuardKeyPair L (at_random A) = Inr (pub, priv)"
    using assms by (auto simp: NewSessionWithServer_def split: sum.splits)
  moreover obtain tok c1 q1 where t: "Token L A c = (Inr tok, c1, q1)"
    using assms Token_requests by (fastforce simp: NewSessionWithServer_def split: sum.splits prod.splits)
  moreover obtain rr q2 where g: "registerWireGuardKey L A (pc_cert c1) s tok pub = (rr, q2)"
    by (cases "registerWireGuardKey L A (pc_cert c1) s tok pub")
  ultimately have "reqs = q1 @ q2"
    using assms(1) by (auto simp: NewSessionWithServer_def split: sum.splits)
  then have "q2 \<noteq> []" using assms(2) Token_requests [OF t] by auto
  from register_verified [OF g this] pc_cert_Token [OF t] show ?thesis by simp
qed

lemma demo_keys:
  "generateWireGuardKeyPair demo_libs (Inr k) = Inr (b64_encode (rev (clamp_key k)), b64_encode (clamp_key k))"
  by (simp add: generateWireGuardKeyPair_def demo_libs_def Let_def)

lemma equal_fold_plain: "equal_fold plain_uni s s"
  by (rule equal_fold_refl) (simp add: plain_uni_def)

lemma demo_uni [simp]: "lb_uni demo_libs = plain_uni"
  by (simp add: demo_libs_def)

lemma demo_cn: "equal_fold plain_uni ''Seattle401'' ''seattle401''"
  by code_simp

lemma demo_peer: "parse_ip ''10.0.0.2'' = Some (v4_in_v6_prefix @ [10, 0, 0, 2])"
proof -
  have "ip_string [10, 0, 0, 2] = ''10.0.0.2''" by code_simp
  then show ?thesis using parse_ip_ip_string4 [of "[10, 0, 0, 2]"] by simp
qed

definition demo_ws :: wgSession where
  "demo_ws = \<lparr>ws_region = demo_region, ws_server = demo_endpoint, ws_peerIP = v4_in_v6_prefix @ [10, 0, 0, 2],
      ws_serverPublicKey = b64_encode (replicate 32 7), ws_serverPort = 1337, ws_dnsServers = [],
      ws_privateKey = b64_encode (clamp_key (replicate 32 255)),
      ws_publicKey = b64_encode (rev (clamp_key (replicate 32 255)))\<rparr>"

lemma demo_session_any:
  assumes "token c = ''T''"
  shows
  "NewSessionWithServer demo_libs (demo_attempt 200) c demo_region demo_endpoint =
     (Inr demo_ws, c,
      [ReqAddKey (addkey_url demo_endpoint ''T'' (b64_encode (rev (clamp_key (replicate 32 255)))))])"
proof -
  have "dial_tls demo_libs (demo_attempt 200) ca (se_cn demo_endpoint) a = None" for ca a
    by (simp add: dial_tls_def demo_attempt_def verifyConnection_def demo_endpoint_def demo_cn
        del: equal_fold.simps) (simp add: demo_libs_def)
  moreover have "accept_addkey demo_libs demo_endpoint (demo_response 200) =
      Inr \<lparr>wg_peerIPv4 = v4_in_v6_prefix @ [10, 0, 0, 2], wg_serverPublicKey = b64_encode (replicate 32 7),
           wg_serverPort = 1337, wg_dnsServers = []\<rparr>"
    by (simp add: accept_addkey_def demo_response_def demo_endpoint_def demo_libs_def demo_peer
        equal_fold_plain del: equal_fold.simps)
  moreover have "status_error demo_libs 0 e f (demo_response 200) = None" for e f
    by (simp add: status_error_None) (simp add: demo_response_def)
  ultimately show ?thesis
    using assms by (simp add: NewSessionWithServer_def demo_keys Token_def registerWireGuardKey_def Let_def
        demo_attempt_def demo_ws_def)
qed

lemma demo_session:
  "NewSessionWithServer demo_libs (demo_attempt 200) (demo_client ''T'') demo_region demo_endpoint =
     (Inr demo_ws, demo_client ''T'',
      [ReqAddKey (addkey_url demo_endpoint ''T'' (b64_encode (rev (clamp_key (replicate 32 255)))))])"
  by (rule demo_session_any) (simp add: demo_client_def SetToken_def)

theorem token_sent_only_to_verified_server_witness:
  "\<exists>leaf rest. at_chain (demo_attempt 200) = leaf # rest \<and>
     equal_fold (lb_uni demo_libs) (ct_cn leaf) (se_cn demo_endpoint) \<and>
     lb_verify demo_libs (pc_cert (demo_client ''T'')) rest (at_now (demo_attempt 200)) leaf = None"
  by (rule token_sent_only_to_verified_server [OF demo_session]) simp

text \<open>C16: A session is made only from a 2xx answer whose payload says OK and names the very
  server asked, and whose peer and DNS addresses are all IP addresses; it carries exactly
  these, the key the server sent, the server asked and the region asked.\<close>

theorem session_from_confirmed_answer:
  assumes "NewSessionWithServer L A c reg s = (Inr ws, c', reqs)"
  shows "\<exists>tok pub resp p. at_get A (addkey_url s tok pub) = Inr resp \<and>
    200 \<le> hr_code resp \<and> hr_code resp < 300 \<and> lb_json_addkey L (hr_body resp) = Inr p \<and>
    equal_fold (lb_uni L) (ak_status p) ''OK'' \<and> equal_fold (lb_uni L) (ak_serverIP p) (se_ip s) \<and>
    parse_ip (ak_peerIP p) = Some (ws_peerIP ws) \<and>
    map parse_ip (ak_dns p) = map Some (ws_dnsServers ws) \<and>
    ws_serverPublicKey ws = ak_serverKey p \<and> ws_serverPort ws = ak_serverPort p \<and>
    ws_server ws = s \<and> ws_region ws = reg \<and> token c' = tok \<and> ws_publicKey ws = pub"
proof -
  obtain pub priv where k: "generateWireGuardKeyPair L (at_random A) = Inr (pub, priv)"
    using assms by (auto simp: NewSessionWithServer_def split: sum.splits)
  obtain tok c1 q1 where t: "Token L A c = (Inr tok, c1, q1)"
    using assms k by (auto simp: NewSessionWithServer_def split: sum.splits prod.splits)
  obtain wg q2 where g: "registerWireGuardKey L A (pc_cert c1) s tok pub = (Inr wg, q2)"
    using assms k t by (auto simp: NewSessionWithServer_def split: sum.splits prod.splits)
  then obtain resp where "at_get A (addkey_url s tok pub) = Inr resp"
    "200 \<le> hr_code resp" "hr_code resp < 300" "accept_addkey L s resp = Inr wg"
    by (auto simp: registerWireGuardKey_def Let_def status_error_None split: option.splits sum.splits)
  moreover from this(4) obtain p where "lb_json_addkey L (hr_body resp) = Inr p"
    "equal_fold (lb_uni L) (ak_status p) ''OK''" "equal_fold (lb_uni L) (ak_serverIP p) (se_ip s)"
    "parse_ip (ak_peerIP p) = Some (wg_peerIPv4 wg)" "parse_dns (ak_dns p) = Inr (wg_dnsServers wg)"
    "wg_serverPublicKey wg = ak_serverKey p" "wg_serverPort wg = ak_serverPort p"
    by (auto simp: accept_addkey_def rbind_Inr_iff split: option.splits sum.splits if_splits)
  moreover have "c' = c1" "ws_peerIP ws = wg_peerIPv4 wg" "ws_dnsServers ws = wg_dnsServers wg"
    "ws_serverPublicKey ws = wg_serverPublicKey wg" "ws_serverPort ws = wg_serverPort wg"
    "ws_server ws = s" "ws_region ws = reg" "ws_publicKey ws = pub"
    using assms k t g by (auto simp: NewSessionWithServer_def)
  moreover have "token c1 = tok" using tc.get_Inr [OF t] by simp
  ultimately show ?thesis by (auto simp: parse_dns_Inr)
qed

theorem session_from_confirmed_answer_witness:
  "\<exists>tok pub resp p. at_get (demo_attempt 200) (addkey_url demo_endpoint tok pub) = Inr resp \<and>
    200 \<le> hr_code resp \<and> lb_json_addkey demo_libs (hr_body resp) = Inr p \<and>
    equal_fold (lb_uni demo_libs) (ak_serverIP p) (se_ip demo_endpoint)"
  using session_from_confirmed_answer [OF demo_session] by blast

lemma clamp_key_bits:
  assumes "length k = 32"
  shows "length (clamp_key k) = 32" "clamp_key k ! 0 AND 7 = 0"
    "\<not> bit (clamp_key k ! 31) 7" "bit (clamp_key k ! 31) 6"
proof -
  have b0: "clamp_key k ! 0 = k ! 0 AND 248" and b31: "clamp_key k ! 31 = (k ! 31 AND 127) OR 64"
    using assms by (simp_all add: clamp_key_def Let_def)
  show "length (clamp_key k) = 32" using assms by (simp add: clamp_key_def Let_def)
  have "(k ! 0 AND 248) AND 7 = k ! 0 AND (248 AND 7)" by (rule and.assoc)
  then show "clamp_key k ! 0 AND 7 = 0" unfolding b0 by simp
  have c: "\<not> bit (127 :: byte) 7" "\<not> bit (64 :: byte) 7" "bit (64 :: byte) 6" by code_simp+
  show "\<not> bit (clamp_key k ! 31) 7" "bit (clamp_key k ! 31) 6"
    unfolding b31 by (simp_all only: bit_or_iff bit_and_iff c) simp_all
qed

text \<open>C17: The WireGuard configuration of a session made from 32 random bytes starts by setting
  the private key to these bytes clamped as Curve25519 asks (low three bits and top bit clear,
  bit 254 set), replacing all peers, and adding the server's key; and it can always be built
  when the server's key is valid base64.\<close>

theorem ipc_config_of_session:
  assumes "NewSessionWithServer L A c reg s = (Inr ws, c', reqs)"
    and "at_random A = Inr k" and "length k = 32"
    and "b64_decode (ws_serverPublicKey ws) = Some peer"
  shows "\<exists>priv rest. IPCConfig ws =
      Inr (''private_key='' @ hex_encode priv @ [newline] @ ''replace_peers=true'' @ [newline] @
           ''public_key='' @ hex_encode peer @ [newline] @ ''endpoint='' @ se_ip s @ '':'' @
           itoa (ws_serverPort ws) @ [newline] @ rest) \<and>
    length priv = 32 \<and> priv ! 0 AND 7 = 0 \<and> \<not> bit (priv ! 31) 7 \<and> bit (priv ! 31) 6 \<and>
    (\<forall>i. 0 < i \<and> i < 31 \<longrightarrow> priv ! i = k ! i)"
proof -
  have w: "ws_privateKey ws = b64_encode (clamp_key k)" "ws_server ws = s"
    using assms(1,2)
    by (auto simp: NewSessionWithServer_def generateWireGuardKeyPair_def Let_def
        split: sum.splits prod.splits)
  have mid: "\<forall>i. 0 < i \<and> i < 31 \<longrightarrow> clamp_key k ! i = k ! i"
    by (simp add: clamp_key_def Let_def)
  show ?thesis
    by (rule exI [of _ "clamp_key k"], intro exI conjI)
      (simp_all add: IPCConfig_def w assms(4) clamp_key_bits [OF assms(3)] mid)
qed

theorem ipc_config_of_session_witness:
  "\<exists>priv t. IPCConfig demo_ws = Inr (''private_key='' @ hex_encode priv @ t) \<and>
     length priv = 32 \<and> bit (priv ! 31) 6"
proof -
  have r: "at_random (demo_attempt 200) = Inr (replicate 32 255)" by (simp add: demo_attempt_def)
  have d: "b64_decode (ws_serverPublicKey demo_ws) = Some (replicate 32 7)" by (simp add: demo_ws_def)
  from ipc_config_of_session [OF demo_session r _ d] show ?thesis by fastforce
qed

definition demo_body :: string where "demo_body = ''{}'' @ [newline]"

lemma demo_line: "find_idx (\<lambda>b. b = newline) demo_body = Some 2"
  by code_simp

lemma demo_list: "fetchServerList demo_libs (Inr (demo_response 200 \<lparr>hr_body := demo_body\<rparr>)) =
    Inr [demo_region]"
proof -
  have w: "equal_fold plain_uni ''wireguard'' ''WireGuard''" by code_simp
  show ?thesis
    by (simp add: fetchServerList_def demo_response_def demo_libs_def region_of_def demo_endpoint_def
        demo_region_def demo_line w del: equal_fold.simps)
qed

text \<open>The regions come from the JSON on the first line of the server list alone (the
  signature after it is not looked at), in its order; every server of every region has the
  first port of the first non-empty group named WireGuard up to case.\<close>

lemma server_list_first_line:
  assumes "fetchServerList L (Inr resp) = Inr rs"
  shows "\<exists>line sig sl g. hr_body resp = line @ newline # sig \<and> newline \<notin> set line \<and>
    lb_json_servers L line = Inr sl \<and> map rg_id rs = map rj_id (sl_regions sl) \<and>
    find (\<lambda>g. equal_fold (lb_uni L) (gr_name g) ''WireGuard'' \<and> gr_ports g \<noteq> []) (sl_groups sl) = Some g \<and>
    (\<forall>x \<in> set rs. \<forall>e \<in> set (rg_servers x). se_port e = hd (gr_ports g)) \<and> hd (gr_ports g) \<noteq> -1"
proof -
  obtain n sl where n: "find_idx (\<lambda>b. b = newline) (hr_body resp) = Some n"
    "lb_json_servers L (take n (hr_body resp)) = Inr sl"
    "wireguard_port L (sl_groups sl) \<noteq> -1"
    "rs = map (region_of (wireguard_port L (sl_groups sl))) (sl_regions sl)"
    using assms by (auto simp: fetchServerList_def Let_def split: if_splits option.splits sum.splits)
  have "wireguard_port L gs \<noteq> -1 \<Longrightarrow>
      \<exists>g. find (\<lambda>g. equal_fold (lb_uni L) (gr_name g) ''WireGuard'' \<and> gr_ports g \<noteq> []) gs = Some g \<and>
          wireguard_port L gs = hd (gr_ports g)" for gs
    by (induction gs) auto
  then obtain g where g: "find (\<lambda>g. equal_fold (lb_uni L) (gr_name g) ''WireGuard'' \<and> gr_ports g \<noteq> []) (sl_groups sl) = Some g"
    "wireguard_port L (sl_groups sl) = hd (gr_ports g)" using n(3) by blast
  have "hr_body resp = take n (hr_body resp) @ newline # drop (Suc n) (hr_body resp)"
    using n(1) [unfolded find_idx_Some] id_take_nth_drop by metis
  moreover have "newline \<notin> set (take n (hr_body resp))"
    using n(1) [unfolded find_idx_Some] by blast
  ultimately show ?thesis using n g
    by (intro exI [of _ "take n (hr_body resp)"] exI [of _ "drop (Suc n) (hr_body resp)"]
        exI [of _ sl] exI [of _ g])
      (auto simp: region_of_def)
qed

text \<open>The PEM blocks of a text, all of them and in order, as (type, bytes).\<close>

fun pem_seq :: "(string \<Rightarrow> (string \<times> string \<times> string) option) \<Rightarrow> string \<Rightarrow> (string \<times> string) list \<Rightarrow> bool" where
  "pem_seq pem d [] \<longleftrightarrow> pem d = None"
| "pem_seq pem d (tb # bs) \<longleftrightarrow>
     (case pem d of None \<Rightarrow> False | Some (t, b, r) \<Rightarrow> tb = (t, b) \<and> pem_seq pem r bs)"

lemma pem_seq_exists:
  assumes "\<And>d t b r. pem d = Some (t, b, r) \<Longrightarrow> length r < length d"
  shows "\<exists>blocks. pem_seq pem data blocks"
proof (induction data rule: length_induct)
  case (1 data)
  show ?case
  proof (cases "pem data")
    case None
    then show ?thesis by (intro exI [of _ "[]"]) simp
  next
    case (Some x)
    obtain t b r where x: "x = (t, b, r)" by (cases x)
    with Some 1 assms obtain bs where "pem_seq pem r bs" by blast
    with Some x show ?thesis by (intro exI [of _ "(t, b) # bs"]) simp
  qed
qed

lemma pem_seq_unique: "pem_seq pem d bs \<Longrightarrow> pem_seq pem d bs' \<Longrightarrow> bs = bs'"
proof (induction pem d bs arbitrary: bs' rule: pem_seq.induct)
  case (1 pem d)
  then show ?case by (cases bs') auto
next
  case (2 pem d tb bs)
  then show ?case by (cases bs') (auto split: option.splits)
qed

lemma pem_loop_blocks:
  "pem_seq pem d blocks \<Longrightarrow> pem_loop pem x509 d =
     Some (case find (\<lambda>(t, _). t = ''CERTIFICATE'') blocks of
        Some (_, b) \<Rightarrow> lift_env (x509 b)
      | None \<Rightarrow> Inl (ErrMsg ''no PEM certificate found''))"
proof (induction pem d blocks rule: pem_seq.induct)
  case (1 pem d)
  then show ?case by (subst pem_loop.simps) simp
next
  case (2 pem d tb bs)
  then obtain t b r where "pem d = Some (t, b, r)" "tb = (t, b)" "pem_seq pem r bs"
    by (auto split: option.splits)
  with 2(1) [of "(t, b, r)" t "(b, r)" b r] show ?case by (subst pem_loop.simps) simp
qed

text \<open>C38: Certificate parsing returns on every input, as long as each decoded PEM block uses up
  some of it. A text without a PEM header is parsed as it is. Any other text has one sequence of PEM
  blocks, and it is the first block of type CERTIFICATE in it that is parsed, however many blocks
  of other types come before it; if there is none, the result is the error that says so.\<close>

theorem ParseCertificate_returns:
  assumes "\<And>d t b r. pem d = Some (t, b, r) \<Longrightarrow> length r < length d"
  shows "\<exists>!blocks. pem_seq pem data blocks \<and>
    ParseCertificate pem x509 data =
      Some (if contains data ''-----BEGIN'' then
              (case find (\<lambda>(t, _). t = ''CERTIFICATE'') blocks of
                 Some (_, b) \<Rightarrow> lift_env (x509 b)
               | None \<Rightarrow> Inl (ErrMsg ''no PEM certificate found''))
            else lift_env (x509 data))"
proof -
  obtain blocks where "pem_seq pem data blocks" using pem_seq_exists [of pem data] assms by metis
  then show ?thesis
    by (intro ex1I [of _ blocks]) (auto simp: ParseCertificate_def pem_loop_blocks intro: pem_seq_unique)
qed

definition demo_pem :: "string \<Rightarrow> (string \<times> string \<times> string) option" where
  "demo_pem d = (case d of [] \<Rightarrow> None | c # r \<Rightarrow>
     Some (if c = CHR ''C'' then ''CERTIFICATE'' else ''KEY'', [c], r))"

theorem ParseCertificate_returns_witness:
  "ParseCertificate demo_pem (\<lambda>b. Inr b) ''-----BEGINXYCZ'' = Some (Inr ''C'')"
proof -
  let ?d = "''-----BEGINXYCZ''"
  have short: "length r < length d" if "demo_pem d = Some (t, b, r)" for d t b r
    using that by (auto simp: demo_pem_def split: list.splits if_splits)
  obtain blocks where b: "pem_seq demo_pem ?d blocks"
      "ParseCertificate demo_pem (\<lambda>b. Inr b) ?d =
        Some (if contains ?d ''-----BEGIN'' then
              (case find (\<lambda>(t, _). t = ''CERTIFICATE'') blocks of
                 Some (_, b) \<Rightarrow> lift_env (Inr b)
               | None \<Rightarrow> Inl (ErrMsg ''no PEM certificate found''))
            else lift_env (Inr ?d))"
    using ParseCertificate_returns [of demo_pem ?d "\<lambda>b. Inr b"] short by metis
  have "pem_seq demo_pem ?d (map (\<lambda>c. (if c = CHR ''C'' then ''CERTIFICATE'' else ''KEY'', [c])) ?d)"
    by code_simp
  then have blocks: "blocks = map (\<lambda>c. (if c = CHR ''C'' then ''CERTIFICATE'' else ''KEY'', [c])) ?d"
    by (rule pem_seq_unique [OF b(1)])
  have "contains ?d ''-----BEGIN''" by code_simp
  then show ?thesis unfolding b(2) blocks by (simp add: lift_env_def)
qed

end
