(* ===== verification/Tunnel.thy ===== *)
theory Tunnel
  imports PiaClient
begin

text \<open>
  The tunnel of src/tunnel.go: its record, the guarded assignments of every critical section
  (\<^verbatim>\<open>setState\<close>, \<^verbatim>\<open>setError\<close>, the publication of a session in \<^verbatim>\<open>runOnce\<close> and the deferred
  clean-up), the registration strategy with the preferred server, the back-off of \<^verbatim>\<open>Run\<close>, one
  turn of the statistics and health loops, and the snapshot. \<^verbatim>\<open>Run\<close> itself, interleaved with the two
  loops and with cancellation, is the theory \<open>TunnelRun\<close>. A WireGuard device and its
  netstack are one number; what they answer is a parameter.
\<close>

section \<open>Data\<close>

datatype State = StateIdle | StateConnecting | StateUp | StateDegraded | StateError

fun state_string :: "State \<Rightarrow> string" where
  "state_string StateIdle = ''idle''"
| "state_string StateConnecting = ''connecting''"
| "state_string StateUp = ''up''"
| "state_string StateDegraded = ''degraded''"
| "state_string StateError = ''error''"

instantiation State :: enum
begin

definition "enum_State = [StateIdle, StateConnecting, StateUp, StateDegraded, StateError]"
definition "enum_all_State P \<longleftrightarrow>
  P StateIdle \<and> P StateConnecting \<and> P StateUp \<and> P StateDegraded \<and> P StateError"
definition "enum_ex_State P \<longleftrightarrow>
  P StateIdle \<or> P StateConnecting \<or> P StateUp \<or> P StateDegraded \<or> P StateError"

instance
proof
  have univ: "UNIV = {StateIdle, StateConnecting, StateUp, StateDegraded, StateError}"
    using State.exhaust by auto
  show "UNIV = set (enum_class.enum :: State list)" by (simp add: univ enum_State_def)
  show "distinct (enum_class.enum :: State list)" by (simp add: enum_State_def)
  show "enum_class.enum_all P \<longleftrightarrow> Ball (UNIV :: State set) P" for P
    by (simp add: univ enum_all_State_def)
  show "enum_class.enum_ex P \<longleftrightarrow> Bex (UNIV :: State set) P" for P
    by (simp add: univ enum_ex_State_def)
qed

end

lemma state_string_inject: "state_string s = state_string t \<longleftrightarrow> s = t"
  by (cases s; cases t) simp_all

record cityConfig =
  City :: string
  Region :: string
  Listen :: string
  PreferredServer :: serverEndpoint

type_synonym dev_id = nat

record tunnel =
  tun_cfg :: cityConfig
  state :: State
  lastError :: string
  session :: "wgSession option"
  connectedAt :: gotime
  addKeyAt :: gotime
  lastHandshake :: gotime
  rxTotal :: uint64
  txTotal :: uint64
  rxRate :: rat
  txRate :: rat
  prevRx :: uint64
  prevTx :: uint64
  prevStatsAt :: gotime
  probeAt :: gotime
  probeOK :: bool
  probeStatus :: string
  probeLatencyMs :: int
  pingLatencyMs :: int
  probeCount :: uint64
  probeFailCount :: uint64
  connectAttempt :: uint64
  connectFails :: uint64
  device :: "dev_id option"
  netNet :: "dev_id option"

definition NewTunnel :: "cityConfig \<Rightarrow> tunnel" where
  "NewTunnel cfg =
     \<lparr>tun_cfg = cfg, state = StateIdle, lastError = [], session = None, connectedAt = zero_time,
      addKeyAt = zero_time, lastHandshake = zero_time, rxTotal = 0, txTotal = 0, rxRate = 0,
      txRate = 0, prevRx = 0, prevTx = 0, prevStatsAt = zero_time, probeAt = zero_time,
      probeOK = False, probeStatus = [], probeLatencyMs = 0, pingLatencyMs = 0, probeCount = 0,
      probeFailCount = 0, connectAttempt = 0, connectFails = 0, device = None, netNet = None\<rparr>"

definition Cfg :: "tunnel \<Rightarrow> cityConfig" where "Cfg t = tun_cfg t"

definition Netstack :: "tunnel \<Rightarrow> dev_id option" where "Netstack t = netNet t"

text \<open>\<^verbatim>\<open>Tunnel.Dial\<close>: \<open>dial n network addr\<close> is the netstack's \<^verbatim>\<open>DialContext\<close>.\<close>

definition Tunnel_Dial ::
  "(dev_id \<Rightarrow> string \<Rightarrow> string \<Rightarrow> 'c result) \<Rightarrow> tunnel \<Rightarrow> string \<Rightarrow> string \<Rightarrow> 'c result" where
  "Tunnel_Dial dial t network address =
     (case netNet t of None \<Rightarrow> Inl ErrTunnelDown | Some n \<Rightarrow> dial n network address)"

definition setState :: "State \<Rightarrow> string \<Rightarrow> tunnel \<Rightarrow> tunnel" where
  "setState s msg t = t\<lparr>state := s, lastError := msg\<rparr>"

definition setError :: "gerror option \<Rightarrow> tunnel \<Rightarrow> tunnel" where
  "setError err t =
     (case err of None \<Rightarrow> t
      | Some e \<Rightarrow> t\<lparr>state := StateError, lastError := error_text e\<rparr>)"

section \<open>The preferred server\<close>

fun preferred_in :: "unicode \<Rightarrow> serverEndpoint \<Rightarrow> serverEndpoint list \<Rightarrow> serverEndpoint option" where
  "preferred_in U pref [] = None"
| "preferred_in U pref (s # ss) =
     (if se_cn pref \<noteq> [] \<and> equal_fold U (se_cn s) (se_cn pref) then Some s
      else if se_cn pref = [] \<and> se_ip s = se_ip pref then Some s
      else preferred_in U pref ss)"

definition preferredServerInRegion :: "unicode \<Rightarrow> tunnel \<Rightarrow> region \<Rightarrow> serverEndpoint option" where
  "preferredServerInRegion U t r =
     (let pref = PreferredServer (tun_cfg t)
      in if se_cn pref = [] \<and> se_ip pref = [] then None
         else preferred_in U pref (rg_servers r))"

section \<open>One bring-up\<close>

text \<open>
  What the outside answers during one \<^verbatim>\<open>runOnce\<close>: the server list, the network of the
  registration with the preferred server and of the one with a random server, the random pick,
  the clock, the netstack and the device (number \<open>br_dev\<close>).
\<close>

record bringup =
  br_servers :: "httpResponse env_result"
  br_pref :: attempt
  br_rand :: attempt
  br_pick :: "nat \<Rightarrow> nat env_result"
  br_addKeyAt :: gotime
  br_createTun :: "byte list list \<Rightarrow> byte list list \<Rightarrow> int \<Rightarrow> env_error option"
  br_dev :: dev_id
  br_ipcSet :: "string \<Rightarrow> env_error option"
  br_up :: "env_error option"
  br_connectedAt :: gotime
  br_prevStatsAt :: gotime

datatype dev_event =
    CreateNetTUN "byte list list" "byte list list"
  | NewDevice dev_id
  | IpcSet dev_id string
  | DevUp dev_id
  | DevClose dev_id

text \<open>The first statements of \<^verbatim>\<open>runOnce\<close>.\<close>

definition runOnce_begin :: "tunnel \<Rightarrow> tunnel" where
  "runOnce_begin t = setState StateConnecting [] (t\<lparr>connectAttempt := connectAttempt t + 1\<rparr>)"

text \<open>Steps 1 and 2: the region, then the preferred server if it is on offer, then a random one.\<close>

definition register_peer ::
  "libs \<Rightarrow> bringup \<Rightarrow> tunnel \<Rightarrow> piaClient \<Rightarrow> wgSession result \<times> piaClient \<times> api_request list" where
  "register_peer L B t c =
     (case FindRegion L (br_servers B) c (Region (tun_cfg t)) of
        (Inl e, c1, q) \<Rightarrow> (Inl (ErrWrap ''region lookup: '' e []), c1, q)
      | (Inr reg, c1, q) \<Rightarrow>
          (let (s, c2, q2) =
             (case preferredServerInRegion (lb_uni L) t reg of
                None \<Rightarrow> (None, c1, [])
              | Some p \<Rightarrow>
                  (case NewSessionWithServer L (br_pref B) c1 reg p of
                     (Inl e, c2, q2) \<Rightarrow> (None, c2, q2)
                   | (Inr ws, c2, q2) \<Rightarrow> (Some ws, c2, q2)))
           in case s of
                Some ws \<Rightarrow> (Inr ws, c2, q @ q2)
              | None \<Rightarrow>
                  (case NewSession L (br_rand B) (br_pick B) c2 reg of
                     (Inl e, c3, q3) \<Rightarrow> (Inl (ErrWrap ''addKey: '' e []), c3, q @ q2 @ q3)
                   | (Inr ws, c3, q3) \<Rightarrow> (Inr ws, c3, q @ q2 @ q3))))"

text \<open>Step 3: the resolvers for the netstack, PIA's own when none is IPv4.\<close>

definition dns_addrs :: "byte list list \<Rightarrow> byte list list" where
  "dns_addrs ips =
     (let v4s = List.map_filter to4 ips in if v4s = [] then [[10, 0, 0, 243]] else v4s)"

text \<open>Step 5: the session is published.\<close>

definition publish :: "bringup \<Rightarrow> wgSession \<Rightarrow> tunnel \<Rightarrow> tunnel" where
  "publish B ws t =
     t\<lparr>state := StateUp, lastError := [], session := Some ws, connectedAt := br_connectedAt B,
       device := Some (br_dev B), netNet := Some (br_dev B), prevRx := 0, prevTx := 0,
       rxTotal := 0, txTotal := 0, rxRate := 0, txRate := 0, prevStatsAt := br_prevStatsAt B,
       lastHandshake := zero_time, probeOK := False, probeStatus := []\<rparr>"

text \<open>
  Steps 3 to 5 on a registered session: the error returned, if any, the tunnel, and the calls on
  the netstack and the device.
\<close>

definition start_device ::
  "bringup \<Rightarrow> wgSession \<Rightarrow> tunnel \<Rightarrow> gerror option \<times> tunnel \<times> dev_event list" where
  "start_device B ws t =
     (case to4 (ws_peerIP ws) of
        None \<Rightarrow> (Some (ErrMsg (''invalid peer IP '' @ ip_string (ws_peerIP ws))), t, [])
      | Some peer4 \<Rightarrow>
          (let dns = dns_addrs (ws_dnsServers ws); n = br_dev B
           in case br_createTun B [peer4] dns 1420 of
                Some e \<Rightarrow> (Some (ErrWrap ''create netstack tun: '' (ErrEnv e) []), t,
                           [CreateNetTUN [peer4] dns])
              | None \<Rightarrow>
                  (case IPCConfig ws of
                     Inl e \<Rightarrow> (Some (ErrWrap ''build ipc config: '' e []), t,
                               [CreateNetTUN [peer4] dns, NewDevice n, DevClose n])
                   | Inr ipc \<Rightarrow>
                       (case br_ipcSet B ipc of
                          Some e \<Rightarrow> (Some (ErrWrap ''ipc set: '' (ErrEnv e) []), t,
                            [CreateNetTUN [peer4] dns, NewDevice n, IpcSet n ipc, DevClose n])
                        | None \<Rightarrow>
                            (case br_up B of
                               Some e \<Rightarrow> (Some (ErrWrap ''wg up: '' (ErrEnv e) []), t,
                                 [CreateNetTUN [peer4] dns, NewDevice n, IpcSet n ipc, DevUp n, DevClose n])
                             | None \<Rightarrow> (None, publish B ws t,
                                 [CreateNetTUN [peer4] dns, NewDevice n, IpcSet n ipc, DevUp n]))))))"

text \<open>\<^verbatim>\<open>runOnce\<close> after its first statements, up to the start of the loops.\<close>

definition bring_up ::
  "libs \<Rightarrow> bringup \<Rightarrow> piaClient \<Rightarrow> tunnel \<Rightarrow> gerror option \<times> tunnel \<times> piaClient \<times> dev_event list" where
  "bring_up L B c t =
     (case register_peer L B t c of
        (Inl e, c1, q) \<Rightarrow> (Some e, t, c1, [])
      | (Inr ws, c1, q) \<Rightarrow>
          (case start_device B ws (t\<lparr>addKeyAt := br_addKeyAt B\<rparr>) of
             (err, t1, evs) \<Rightarrow> (err, t1, c1, evs)))"

text \<open>The deferred clean-up, but for the closing of the device that ends it.\<close>

definition cleanup :: "bool \<Rightarrow> tunnel \<Rightarrow> tunnel" where
  "cleanup canceled t =
     (let wasUp = state t = StateUp \<or> state t = StateDegraded;
          t1 = t\<lparr>netNet := None, device := None, session := None\<rparr>
      in if \<not> canceled then t1\<lparr>state := StateError\<rparr>
         else if wasUp then t1\<lparr>state := StateIdle\<rparr>
         else t1)"

section \<open>The back-off of Run\<close>

definition maxBackoff :: int where "maxBackoff = 60 * second"
definition rateLimitFloor :: int where "rateLimitFloor = 5 * minute"
definition initialBackoff :: int where "initialBackoff = 2 * second"

text \<open>The delay before the next attempt, and the back-off for the one after.\<close>

definition run_delay :: "int \<Rightarrow> gerror \<Rightarrow> int \<times> int" where
  "run_delay backoff err =
     (case as_rate_limit err of
        Some rl \<Rightarrow>
          (if rl_retry_after rl < rateLimitFloor then rateLimitFloor else rl_retry_after rl,
           initialBackoff)
      | None \<Rightarrow> (backoff, if backoff * 2 > maxBackoff then maxBackoff else backoff * 2))"

text \<open>The delays of a run whose bring-ups fail with the given errors.\<close>

fun run_delays :: "int \<Rightarrow> gerror list \<Rightarrow> int list" where
  "run_delays b [] = []"
| "run_delays b (e # es) = fst (run_delay b e) # run_delays (snd (run_delay b e)) es"

section \<open>statsLoop\<close>

text \<open>One line of the device's answer: the counters and the handshake second after it.\<close>

definition stats_line :: "unicode \<Rightarrow> string \<Rightarrow> uint64 \<times> uint64 \<times> int \<Rightarrow> uint64 \<times> uint64 \<times> int" where
  "stats_line U l0 a =
     (case a of (r, x, hs) \<Rightarrow>
        (case cut (trim_space U l0) (CHR ''='') of
           None \<Rightarrow> (r, x, hs)
         | Some (k, v) \<Rightarrow>
             if k = ''rx_bytes'' then (parse_uint64 v, x, hs)
             else if k = ''tx_bytes'' then (r, parse_uint64 v, hs)
             else if k = ''last_handshake_time_sec'' then (r, x, parse_int64 v)
             else (r, x, hs)))"

definition parse_stats :: "unicode \<Rightarrow> string \<Rightarrow> uint64 \<times> uint64 \<times> int" where
  "parse_stats U raw = fold (stats_line U) (split_on newline raw) (0, 0, 0)"

record stats_in =
  si_raw :: "string env_result"
  si_now :: gotime
  si_since :: gotime        \<comment> \<open>the clock read by \<^verbatim>\<open>time.Since\<close>\<close>

definition ema :: "(rat \<Rightarrow> rat) \<Rightarrow> rat \<Rightarrow> uint64 \<Rightarrow> uint64 \<Rightarrow> rat \<Rightarrow> rat" where
  "ema fl dt cur prev rate =
     (let inst = fl (fl (of_nat (unat (cur - prev))) / dt);
          alpha = fl (4 / 10)
      in fl (fl (alpha * inst) + fl (fl (1 - alpha) * rate)))"

definition handshake_state :: "gotime \<Rightarrow> int \<Rightarrow> tunnel \<Rightarrow> tunnel" where
  "handshake_state since hsSec t =
     (if state t = StateUp \<and> hsSec > 0 \<and> time_sub since (lastHandshake t) > 3 * minute
      then t\<lparr>state := StateDegraded, lastError := ''stale handshake''\<rparr>
      else if state t = StateDegraded \<and> hsSec > 0 \<and> time_sub since (lastHandshake t) \<le> 3 * minute
      then t\<lparr>state := StateUp, lastError := []\<rparr>
      else t)"

definition stats_tick :: "unicode \<Rightarrow> (rat \<Rightarrow> rat) \<Rightarrow> stats_in \<Rightarrow> tunnel \<Rightarrow> tunnel" where
  "stats_tick U fl I t =
     (case si_raw I of
        Inl _ \<Rightarrow> t
      | Inr raw \<Rightarrow>
          (let (r, x, hsSec) = parse_stats U raw;
               dt = duration_seconds fl (time_sub (si_now I) (prevStatsAt t));
               t1 = (if dt > 0 \<and> (prevRx t \<noteq> 0 \<or> prevTx t \<noteq> 0)
                     then t\<lparr>rxRate := ema fl dt r (prevRx t) (rxRate t),
                            txRate := ema fl dt x (prevTx t) (txRate t)\<rparr>
                     else t);
               t2 = t1\<lparr>prevRx := r, prevTx := x, prevStatsAt := si_now I, rxTotal := r, txTotal := x\<rparr>;
               t3 = (if hsSec > 0 then t2\<lparr>lastHandshake := unix_time hsSec\<rparr> else t2)
           in handshake_state (si_since I) hsSec t3))"

section \<open>healthLoop\<close>

definition probeURLs :: "string list" where
  "probeURLs = [''http://www.gstatic.com/generate_204'',
                ''http://www.msftconnecttest.com/connecttest.txt'']"

text \<open>What one turn of the loop is answered by the HTTP client, the netstack and the clock.\<close>

record health_in =
  hi_newRequest :: "string \<Rightarrow> env_error option"
  hi_http :: "string \<Rightarrow> httpResponse env_result"
  hi_start :: gotime
  hi_end :: gotime
  hi_pingStart :: gotime
  hi_pingEnd :: gotime
  hi_dial :: "dev_id \<Rightarrow> string \<Rightarrow> string \<Rightarrow> unit result"
  hi_probeAt :: gotime
  hi_since :: gotime

definition doProbe :: "health_in \<Rightarrow> string \<Rightarrow> bool \<times> string" where
  "doProbe H url =
     (case hi_newRequest H url of
        Some e \<Rightarrow> (False, ee_text e)
      | None \<Rightarrow>
          (case hi_http H url of
             Inl e \<Rightarrow> (False, ee_text e)
           | Inr resp \<Rightarrow> (200 \<le> hr_code resp \<and> hr_code resp < 400, hr_status resp)))"

definition tcpPing :: "health_in \<Rightarrow> dev_id \<Rightarrow> string \<Rightarrow> int" where
  "tcpPing H n hostport =
     (case hi_dial H n ''tcp'' hostport of
        Inl _ \<Rightarrow> -1
      | Inr _ \<Rightarrow> milliseconds (time_sub (hi_pingEnd H) (hi_pingStart H)))"

definition health_state :: "gotime \<Rightarrow> bool \<Rightarrow> string \<Rightarrow> tunnel \<Rightarrow> tunnel" where
  "health_state since ok status t =
     (if state t = StateUp \<and> \<not> ok
      then t\<lparr>state := StateDegraded,
             lastError := (if lastError t = [] then ''health probe failed: '' @ status else lastError t)\<rparr>
      else if state t = StateDegraded \<and> ok \<and> time_sub since (lastHandshake t) \<le> 3 * minute
      then t\<lparr>state := StateUp, lastError := []\<rparr>
      else t)"

text \<open>
  One turn in its three pieces: the attempt is counted, the answer is counted if it is a failure,
  and the outcome is noted under the lock. \<open>n\<close> is the netstack the loop was started with, \<open>idx\<close>
  the number of the turn.
\<close>

definition probe_begin :: "tunnel \<Rightarrow> tunnel" where
  "probe_begin t = t\<lparr>probeCount := probeCount t + 1\<rparr>"

definition probe_answered :: "bool \<Rightarrow> tunnel \<Rightarrow> tunnel" where
  "probe_answered ok t = t\<lparr>probeFailCount := (if ok then probeFailCount t else probeFailCount t + 1)\<rparr>"

definition probe_noted :: "health_in \<Rightarrow> bool \<Rightarrow> string \<Rightarrow> int \<Rightarrow> int \<Rightarrow> tunnel \<Rightarrow> tunnel" where
  "probe_noted H ok status latency ping t =
     health_state (hi_since H) ok status
       (t\<lparr>probeAt := hi_probeAt H, probeOK := ok, probeStatus := status, probeLatencyMs := latency,
          pingLatencyMs := ping\<rparr>)"

definition probe_latency :: "health_in \<Rightarrow> int" where
  "probe_latency H = milliseconds (time_sub (hi_end H) (hi_start H))"

definition probe_url :: "nat \<Rightarrow> string" where
  "probe_url idx = probeURLs ! (idx mod length probeURLs)"

definition health_tick :: "health_in \<Rightarrow> dev_id \<Rightarrow> nat \<Rightarrow> tunnel \<Rightarrow> tunnel" where
  "health_tick H n idx t =
     (case doProbe H (probe_url idx) of
        (ok, status) \<Rightarrow>
          probe_noted H ok status (probe_latency H) (tcpPing H n ''1.1.1.1:443'')
            (probe_answered ok (probe_begin t)))"

lemmas probe_defs = probe_begin_def probe_answered_def probe_noted_def

section \<open>Snapshot\<close>

record tunnelStatus =
  ts_City :: string
  ts_Region :: string
  ts_State :: State
  ts_LastError :: string
  ts_ServerCN :: string
  ts_ServerIP :: string
  ts_ServerPort :: int
  ts_PeerIP :: string
  ts_ConnectedAtMS :: int
  ts_AddKeyAtMS :: int
  ts_UptimeSec :: int
  ts_HandshakeAgoS :: int
  ts_RxBytes :: uint64
  ts_TxBytes :: uint64
  ts_RxRate :: rat
  ts_TxRate :: rat
  ts_ProbeAtMS :: int
  ts_ProbeOK :: bool
  ts_ProbeStatus :: string
  ts_ProbeLatencyMs :: int
  ts_PingLatencyMs :: int
  ts_ProbeCount :: uint64
  ts_ProbeFails :: uint64
  ts_ConnectTries :: uint64
  ts_ConnectFails :: uint64
  ts_AuthToken :: string
  ts_AuthTokenAcquiredAtMS :: int

text \<open>\<open>now1\<close> and \<open>now2\<close> are the clocks the two \<^verbatim>\<open>time.Since\<close> read; a nil peer IP is \<open>[]\<close>.\<close>

definition Tunnel_Snapshot ::
  "(rat \<Rightarrow> rat) \<Rightarrow> gotime \<Rightarrow> gotime \<Rightarrow> piaClient option \<Rightarrow> tunnel \<Rightarrow> tunnelStatus" where
  "Tunnel_Snapshot fl now1 now2 pia t =
     (let live = connectedAt t \<noteq> zero_time \<and> (state t = StateUp \<or> state t = StateDegraded)
      in \<lparr>ts_City = City (tun_cfg t), ts_Region = Region (tun_cfg t), ts_State = state t,
          ts_LastError = lastError t,
          ts_ServerCN = (case session t of None \<Rightarrow> [] | Some ws \<Rightarrow> se_cn (ws_server ws)),
          ts_ServerIP = (case session t of None \<Rightarrow> [] | Some ws \<Rightarrow> se_ip (ws_server ws)),
          ts_ServerPort = (case session t of None \<Rightarrow> 0 | Some ws \<Rightarrow> se_port (ws_server ws)),
          ts_PeerIP = (case session t of None \<Rightarrow> []
                       | Some ws \<Rightarrow> if ws_peerIP ws = [] then [] else ip_string (ws_peerIP ws)),
          ts_ConnectedAtMS = (if live then unix_milli (connectedAt t) else 0),
          ts_AddKeyAtMS = (if addKeyAt t \<noteq> zero_time then unix_milli (addKeyAt t) else 0),
          ts_UptimeSec = (if live then whole_seconds fl (time_sub now1 (connectedAt t)) else 0),
          ts_HandshakeAgoS =
            (if lastHandshake t \<noteq> zero_time then whole_seconds fl (time_sub now2 (lastHandshake t)) else -1),
          ts_RxBytes = rxTotal t, ts_TxBytes = txTotal t, ts_RxRate = rxRate t, ts_TxRate = txRate t,
          ts_ProbeAtMS = (if probeAt t \<noteq> zero_time then unix_milli (probeAt t) else 0),
          ts_ProbeOK = probeOK t, ts_ProbeStatus = probeStatus t,
          ts_ProbeLatencyMs = probeLatencyMs t, ts_PingLatencyMs = pingLatencyMs t,
          ts_ProbeCount = probeCount t, ts_ProbeFails = probeFailCount t,
          ts_ConnectTries = connectAttempt t, ts_ConnectFails = connectFails t,
          ts_AuthToken = (case pia of None \<Rightarrow> [] | Some c \<Rightarrow> fst (GetToken c)),
          ts_AuthTokenAcquiredAtMS =
            (case pia of None \<Rightarrow> 0
             | Some c \<Rightarrow> if snd (GetToken c) \<noteq> zero_time then unix_milli (snd (GetToken c)) else 0)\<rparr>)"

text \<open>The open devices after a sequence of calls.\<close>

fun apply_event :: "dev_event \<Rightarrow> dev_id set \<Rightarrow> dev_id set" where
  "apply_event (NewDevice n) D = insert n D"
| "apply_event (DevClose n) D = D - {n}"
| "apply_event _ D = D"

definition devices_after :: "dev_event list \<Rightarrow> dev_id set \<Rightarrow> dev_id set" where
  "devices_after evs D = fold apply_event evs D"

section \<open>Lemmas\<close>

subsection \<open>The steps of a bring-up\<close>

lemma start_device_error:
  assumes "start_device B ws t = (Some e, t', evs)" and "br_dev B \<notin> D"
  shows "t' = t \<and> devices_after evs D = D"
  using assms
  by (auto simp: start_device_def devices_after_def Let_def split: option.splits sum.splits)

lemma start_device_ok:
  assumes "start_device B ws t = (None, t', evs)"
  shows "\<exists>peer4 ipc. to4 (ws_peerIP ws) = Some peer4 \<and> IPCConfig ws = Inr ipc \<and>
    t' = publish B ws t \<and>
    evs = [CreateNetTUN [peer4] (dns_addrs (ws_dnsServers ws)), NewDevice (br_dev B),
           IpcSet (br_dev B) ipc, DevUp (br_dev B)]"
  using assms by (auto simp: start_device_def Let_def split: option.splits sum.splits)

lemma bring_up_error:
  assumes "bring_up L B c t = (Some e, t', c', evs)" and "br_dev B \<notin> D"
  shows "(t' = t \<or> t' = t\<lparr>addKeyAt := br_addKeyAt B\<rparr>) \<and> devices_after evs D = D"
proof (cases "fst (register_peer L B t c)")
  case (Inl e')
  with assms show ?thesis
    by (auto simp: bring_up_def devices_after_def split: prod.splits sum.splits)
next
  case (Inr ws)
  with assms have "start_device B ws (t\<lparr>addKeyAt := br_addKeyAt B\<rparr>) = (Some e, t', evs)"
    by (auto simp: bring_up_def split: prod.splits)
  from start_device_error [OF this assms(2)] show ?thesis by blast
qed

lemma bring_up_ok:
  assumes "bring_up L B c t = (None, t', c', evs)"
  obtains ws q peer4 ipc where "register_peer L B t c = (Inr ws, c', q)"
    "to4 (ws_peerIP ws) = Some peer4" "IPCConfig ws = Inr ipc"
    "t' = publish B ws (t\<lparr>addKeyAt := br_addKeyAt B\<rparr>)"
    "evs = [CreateNetTUN [peer4] (dns_addrs (ws_dnsServers ws)), NewDevice (br_dev B),
            IpcSet (br_dev B) ipc, DevUp (br_dev B)]"
proof (cases "register_peer L B t c")
  case (fields r c1 q)
  with assms obtain ws where "r = Inr ws" "c1 = c'"
    "start_device B ws (t\<lparr>addKeyAt := br_addKeyAt B\<rparr>) = (None, t', evs)"
    by (auto simp: bring_up_def split: sum.splits prod.splits)
  with fields that start_device_ok [OF this(3)] show thesis by blast
qed

lemma bring_up_error_fields:
  assumes "bring_up L B c t = (Some e, t', c', evs)" and "br_dev B \<notin> D"
  shows "state t' = state t" "lastError t' = lastError t" "session t' = session t"
    "device t' = device t" "netNet t' = netNet t" "devices_after evs D = D"
  using bring_up_error [OF assms] by auto

subsection \<open>The ticks of the loops\<close>

lemma handshake_state_fields [simp]:
  "netNet (handshake_state w h t) = netNet t" "device (handshake_state w h t) = device t"
  "session (handshake_state w h t) = session t" "probeOK (handshake_state w h t) = probeOK t"
  "rxRate (handshake_state w h t) = rxRate t" "txRate (handshake_state w h t) = txRate t"
  "rxTotal (handshake_state w h t) = rxTotal t" "txTotal (handshake_state w h t) = txTotal t"
  "prevRx (handshake_state w h t) = prevRx t" "prevTx (handshake_state w h t) = prevTx t"
  "lastHandshake (handshake_state w h t) = lastHandshake t"
  "tun_cfg (handshake_state w h t) = tun_cfg t"
  by (simp_all add: handshake_state_def)

lemma stats_tick_fields [simp]:
  "netNet (stats_tick U fl I t) = netNet t" "device (stats_tick U fl I t) = device t"
  "session (stats_tick U fl I t) = session t" "probeOK (stats_tick U fl I t) = probeOK t"
  by (simp_all add: stats_tick_def Let_def split: sum.splits prod.splits)

lemma health_state_fields [simp]:
  "netNet (health_state w ok s t) = netNet t" "device (health_state w ok s t) = device t"
  "session (health_state w ok s t) = session t" "rxRate (health_state w ok s t) = rxRate t"
  "txRate (health_state w ok s t) = txRate t" "probeOK (health_state w ok s t) = probeOK t"
  by (simp_all add: health_state_def)

lemma probe_fields [simp]:
  "netNet (probe_begin t) = netNet t" "device (probe_begin t) = device t" "session (probe_begin t) = session t"
  "netNet (probe_answered ok t) = netNet t" "device (probe_answered ok t) = device t"
  "session (probe_answered ok t) = session t" "netNet (probe_noted H ok st l p t) = netNet t"
  "device (probe_noted H ok st l p t) = device t" "session (probe_noted H ok st l p t) = session t"
  by (simp_all add: probe_defs)

text \<open>While a device serves: the record points to it, and an error text is shown iff degraded.\<close>

definition serving_ok :: "tunnel \<Rightarrow> dev_id \<Rightarrow> bool" where
  "serving_ok t n \<longleftrightarrow> netNet t = Some n \<and> device t = Some n \<and> session t \<noteq> None \<and>
     (state t = StateUp \<and> lastError t = [] \<or> state t = StateDegraded \<and> lastError t \<noteq> [])"

definition quiet :: "tunnel \<Rightarrow> bool" where
  "quiet t \<longleftrightarrow> netNet t = None \<and> device t = None \<and> session t = None"

lemma serving_ok_stats: "serving_ok t n \<Longrightarrow> serving_ok (stats_tick U fl I t) n"
  by (auto simp: serving_ok_def stats_tick_def handshake_state_def Let_def
      split: sum.splits prod.splits)

lemma serving_ok_probe:
  "serving_ok t n \<Longrightarrow> serving_ok (probe_begin t) n" "serving_ok t n \<Longrightarrow> serving_ok (probe_answered ok t) n"
  "serving_ok t n \<Longrightarrow> serving_ok (probe_noted H ok st l p t) n"
  by (auto simp: serving_ok_def probe_defs health_state_def)

lemma serving_ok_publish: "serving_ok (publish B ws t) (br_dev B)"
  by (simp add: serving_ok_def publish_def)

lemma quiet_cleanup: "serving_ok t n \<Longrightarrow> quiet (cleanup True t) \<and> state (cleanup True t) = StateIdle"
  by (auto simp: serving_ok_def quiet_def cleanup_def)

lemma quiet_simps [simp]:
  "quiet (t\<lparr>connectAttempt := a\<rparr>) = quiet t" "quiet (t\<lparr>connectFails := f\<rparr>) = quiet t"
  "quiet (setState s m t) = quiet t" "quiet (setError r t) = quiet t"
  by (simp_all add: quiet_def setState_def setError_def split: option.splits)

subsection \<open>Back-off\<close>

lemma run_delay_backoff:
  "initialBackoff \<le> b \<Longrightarrow> b \<le> maxBackoff \<Longrightarrow>
     initialBackoff \<le> snd (run_delay b e) \<and> snd (run_delay b e) \<le> maxBackoff \<and>
     initialBackoff \<le> fst (run_delay b e)"
  by (auto simp: run_delay_def initialBackoff_def maxBackoff_def rateLimitFloor_def duration_defs
      split: option.splits)

subsection \<open>The preferred server and the registration\<close>

definition server_matches :: "unicode \<Rightarrow> serverEndpoint \<Rightarrow> serverEndpoint \<Rightarrow> bool" where
  "server_matches U pref s \<longleftrightarrow>
     (if se_cn pref = [] then se_ip s = se_ip pref else equal_fold U (se_cn s) (se_cn pref))"

lemma preferred_in_find: "preferred_in U pref ss = find (server_matches U pref) ss"
  by (induction ss) (auto simp: server_matches_def)

lemma preferred_find:
  "preferredServerInRegion U t reg =
     (if se_cn (PreferredServer (tun_cfg t)) = [] \<and> se_ip (PreferredServer (tun_cfg t)) = [] then None
      else find (server_matches U (PreferredServer (tun_cfg t))) (rg_servers reg))"
  by (simp add: preferredServerInRegion_def preferred_in_find Let_def)

lemma preferred_in_set: "preferredServerInRegion U t reg = Some s \<Longrightarrow> s \<in> set (rg_servers reg)"
  by (auto simp: preferred_find find_Some_iff split: if_splits)

lemma NewSessionWithServer_server:
  "NewSessionWithServer L A c reg s = (Inr ws, c', q) \<Longrightarrow> ws_server ws = s \<and> ws_region ws = reg"
  by (auto simp: NewSessionWithServer_def split: sum.splits prod.splits)

lemma NewSession_server:
  assumes "NewSession L A pick c reg = (Inr ws, c', q)" and "pick_ok pick"
  shows "ws_server ws \<in> set (rg_servers reg) \<and> ws_region ws = reg"
proof -
  from assms(1) obtain i where i: "rg_servers reg \<noteq> []" "pick (length (rg_servers reg)) = Inr i"
    "NewSessionWithServer L A c reg (rg_servers reg ! i) = (Inr ws, c', q)"
    by (auto simp: NewSession_def split: if_splits sum.splits)
  with assms(2) have "i < length (rg_servers reg)" by (auto simp: pick_ok_def)
  with NewSessionWithServer_server [OF i(3)] show ?thesis by simp
qed

subsection \<open>The device's text\<close>

text \<open>A dump of key and value lines, as \<^verbatim>\<open>IpcGet\<close> prints them.\<close>

definition dump :: "(string \<times> string) list \<Rightarrow> string" where
  "dump kvs = concat (map (\<lambda>(k, v). k @ CHR ''='' # v @ [newline]) kvs)"

definition plain_text :: "string \<Rightarrow> bool" where
  "plain_text s \<longleftrightarrow> list_all (\<lambda>c. is_ascii c \<and> \<not> is_space c) s"

definition set_key :: "string \<times> string \<Rightarrow> uint64 \<times> uint64 \<times> int \<Rightarrow> uint64 \<times> uint64 \<times> int" where
  "set_key kv a =
     (case (kv, a) of ((k, v), (r, x, hs)) \<Rightarrow>
        if k = ''rx_bytes'' then (parse_uint64 v, x, hs)
        else if k = ''tx_bytes'' then (r, parse_uint64 v, hs)
        else if k = ''last_handshake_time_sec'' then (r, x, parse_int64 v)
        else (r, x, hs))"

lemma newline_is_space: "is_space newline"
  by (simp add: is_space_def newline_def)

lemma plain_no_newline: "plain_text s \<Longrightarrow> newline \<notin> set s"
  using newline_is_space by (auto simp: plain_text_def list_all_iff)

lemma plain_append: "plain_text (s @ c # t) \<longleftrightarrow> plain_text s \<and> plain_text [c] \<and> plain_text t"
  by (simp add: plain_text_def conj_ac)

lemma plain_eq: "plain_text ''=''"
  by (simp add: plain_text_def is_ascii_def is_space_def)

lemma stats_line_kv:
  assumes "plain_text k" "plain_text v" "CHR ''='' \<notin> set k"
  shows "stats_line U (k @ CHR ''='' # v) a = set_key (k, v) a"
proof -
  have p: "plain_text (k @ CHR ''='' # v)" using assms plain_eq by (simp add: plain_append)
  then have "\<forall>c \<in> set (k @ CHR ''='' # v). is_ascii c \<and> \<not> is_space c"
    by (simp add: plain_text_def list_all_iff)
  then have "trim_space U (k @ CHR ''='' # v) = k @ CHR ''='' # v"
    by (intro trim_space_plain) (auto simp: list_all_iff hd_append)
  then show ?thesis
    using cut_append [OF assms(3), of v] by (simp add: stats_line_def set_key_def split: prod.split)
qed

lemma parse_stats_dump:
  assumes "\<forall>(k, v) \<in> set kvs. plain_text k \<and> plain_text v \<and> CHR ''='' \<notin> set k"
  shows "parse_stats U (dump kvs) = fold set_key kvs (0, 0, 0)"
proof -
  have "fold (stats_line U) (split_on newline (dump kvs)) a = fold set_key kvs a" for a
    using assms
  proof (induction kvs arbitrary: a)
    case Nil
    then show ?case by (simp add: dump_def stats_line_def cut_def index_byte_def split: prod.split)
  next
    case (Cons kv kvs)
    obtain k v where kv: "kv = (k, v)" by (cases kv)
    with Cons.prems have "plain_text k" "plain_text v" "CHR ''='' \<notin> set k" by auto
    moreover from this have "newline \<notin> set (k @ CHR ''='' # v)"
      using plain_no_newline plain_append plain_eq by blast
    then have "split_on newline (dump (kv # kvs)) = (k @ CHR ''='' # v) # split_on newline (dump kvs)"
      using split_on_append [of newline "k @ CHR ''='' # v" "dump kvs"] by (simp add: dump_def kv)
    ultimately show ?case using Cons by (simp add: stats_line_kv kv)
  qed
  then show ?thesis by (simp add: parse_stats_def)
qed

definition stat_or :: "'a \<Rightarrow> (string \<Rightarrow> 'a) \<Rightarrow> string option \<Rightarrow> 'a" where
  "stat_or d f m = (case m of None \<Rightarrow> d | Some v \<Rightarrow> f v)"

lemma fold_set_key:
  assumes "distinct (map fst kvs)"
  shows "fold set_key kvs (r, x, hs) =
    (stat_or r parse_uint64 (map_of kvs ''rx_bytes''), stat_or x parse_uint64 (map_of kvs ''tx_bytes''),
     stat_or hs parse_int64 (map_of kvs ''last_handshake_time_sec''))"
  using assms
proof (induction kvs arbitrary: r x hs)
  case Nil
  then show ?case by (simp add: stat_or_def)
next
  case (Cons kv kvs)
  obtain k v where kv: "kv = (k, v)" by (cases kv)
  with Cons.prems have "map_of kvs k = None" by (simp add: map_of_eq_None_iff)
  with Cons kv show ?case by (auto simp: set_key_def stat_or_def)
qed

lemma parse_uint64_dec: "n < 2 ^ 64 \<Longrightarrow> parse_uint64 (nat_to_dec n) = word_of_nat n"
  by (simp add: parse_uint64_def)

subsection \<open>Delays\<close>

definition ordinary :: "gerror \<Rightarrow> bool" where
  "ordinary e \<longleftrightarrow> as_rate_limit e = None"

text \<open>The number of ordinary failures at the end of a list.\<close>

definition trailing :: "gerror list \<Rightarrow> nat" where
  "trailing es = length (takeWhile ordinary (rev es))"

definition backoff_after :: "int \<Rightarrow> gerror list \<Rightarrow> int" where
  "backoff_after b es = foldl (\<lambda>b e. snd (run_delay b e)) b es"

lemma run_delays_nth: "i < length es \<Longrightarrow> run_delays b es ! i = fst (run_delay (backoff_after b (take i es)) (es ! i))"
proof (induction es arbitrary: b i)
  case Nil
  then show ?case by simp
next
  case (Cons e es)
  then show ?case by (cases i) (simp_all add: backoff_after_def)
qed

lemma backoff_after_trailing:
  "backoff_after initialBackoff es = min (initialBackoff * 2 ^ trailing es) maxBackoff"
proof (induction es rule: rev_induct)
  case Nil
  then show ?case by (simp add: backoff_after_def trailing_def initialBackoff_def maxBackoff_def duration_defs)
next
  case (snoc e es)
  have step: "backoff_after initialBackoff (es @ [e]) = snd (run_delay (backoff_after initialBackoff es) e)"
    by (simp add: backoff_after_def)
  show ?case
  proof (cases "as_rate_limit e")
    case None
    then have "trailing (es @ [e]) = Suc (trailing es)" by (simp add: trailing_def ordinary_def)
    moreover have "0 \<le> initialBackoff * 2 ^ trailing es" by (simp add: initialBackoff_def duration_defs)
    ultimately show ?thesis
      unfolding step snoc using None
      by (simp add: run_delay_def maxBackoff_def duration_defs min_def)
  next
    case (Some rl)
    then have "trailing (es @ [e]) = 0" by (simp add: trailing_def ordinary_def)
    then show ?thesis unfolding step using Some
      by (simp add: run_delay_def maxBackoff_def initialBackoff_def duration_defs)
  qed
qed

subsection \<open>A bring-up that works\<close>

definition demo_cfg :: cityConfig where
  "demo_cfg = \<lparr>City = ''Seattle'', Region = ''us_seattle'', Listen = ''127.0.0.1:1081'',
     PreferredServer = demo_endpoint\<rparr>"

definition demo_bringup :: "env_error option \<Rightarrow> bringup" where
  "demo_bringup e =
     \<lparr>br_servers = Inr (demo_response 200 \<lparr>hr_body := demo_body\<rparr>), br_pref = demo_attempt 200,
      br_rand = demo_attempt 200, br_pick = (\<lambda>_. Inr 0), br_addKeyAt = 1,
      br_createTun = (\<lambda>_ _ _. None), br_dev = 4, br_ipcSet = (\<lambda>_. None), br_up = e,
      br_connectedAt = 2, br_prevStatsAt = 3\<rparr>"

lemma demo_pref_match: "server_matches plain_uni demo_endpoint demo_endpoint"
  by (simp add: server_matches_def demo_endpoint_def equal_fold_plain del: equal_fold.simps)

lemma demo_preferred:
  "PreferredServer (tun_cfg t) = demo_endpoint \<Longrightarrow>
     preferredServerInRegion plain_uni t demo_region = Some demo_endpoint"
  by (simp add: preferred_find demo_region_def demo_pref_match) (simp add: demo_endpoint_def)

lemma demo_find_region:
  "FindRegion demo_libs (Inr (demo_response 200 \<lparr>hr_body := demo_body\<rparr>)) (demo_client ''T'') ''us_seattle'' =
     (Inr demo_region, (demo_client ''T'')\<lparr>regions := Some [demo_region]\<rparr>, [ReqServers])"
proof -
  have "equal_fold plain_uni (rg_id demo_region) ''us_seattle''"
    by (simp add: demo_region_def equal_fold_plain del: equal_fold.simps)
  then show ?thesis
    by (simp add: FindRegion_def Regions_def demo_client_def SetToken_def NewPIAClient_def demo_list
        del: equal_fold.simps)
qed

lemma demo_register:
  "\<exists>q. register_peer demo_libs (demo_bringup e) (t\<lparr>tun_cfg := demo_cfg\<rparr>) (demo_client ''T'') =
     (Inr demo_ws, (demo_client ''T'')\<lparr>regions := Some [demo_region]\<rparr>, q)"
proof -
  have "preferredServerInRegion plain_uni (t\<lparr>tun_cfg := demo_cfg\<rparr>) demo_region = Some demo_endpoint"
    by (rule demo_preferred) (simp add: demo_cfg_def)
  moreover have "token ((demo_client ''T'')\<lparr>regions := Some [demo_region]\<rparr>) = ''T''"
    by (simp add: demo_client_def SetToken_def)
  moreover have "Region demo_cfg = ''us_seattle''" by (simp add: demo_cfg_def)
  ultimately show ?thesis
    by (simp add: register_peer_def demo_bringup_def demo_find_region demo_session_any)
qed

lemma demo_ipc: "\<exists>ipc. IPCConfig demo_ws = Inr ipc"
  by (simp add: IPCConfig_def demo_ws_def)

lemma demo_to4: "to4 (ws_peerIP demo_ws) = Some [10, 0, 0, 2]"
  by (simp add: demo_ws_def)

lemma demo_bring_up:
  "\<exists>c' evs. bring_up demo_libs (demo_bringup None) (demo_client ''T'') (t\<lparr>tun_cfg := demo_cfg\<rparr>) =
     (None, publish (demo_bringup None) demo_ws (t\<lparr>tun_cfg := demo_cfg, addKeyAt := 1\<rparr>), c', evs)"
proof -
  obtain q where "register_peer demo_libs (demo_bringup None) (t\<lparr>tun_cfg := demo_cfg\<rparr>) (demo_client ''T'') =
     (Inr demo_ws, (demo_client ''T'')\<lparr>regions := Some [demo_region]\<rparr>, q)"
    using demo_register by blast
  moreover obtain ipc where "IPCConfig demo_ws = Inr ipc" using demo_ipc by blast
  moreover have "br_createTun (demo_bringup None) = (\<lambda>_ _ _. None)" "br_ipcSet (demo_bringup None) = (\<lambda>_. None)"
    "br_up (demo_bringup None) = None" "br_addKeyAt (demo_bringup None) = 1"
    by (simp_all add: demo_bringup_def)
  ultimately show ?thesis
    by (simp add: bring_up_def start_device_def demo_to4 Let_def)
qed

lemma tun_cfg_same: "tun_cfg t = c \<Longrightarrow> t\<lparr>tun_cfg := c\<rparr> = t"
  by simp

section \<open>Properties\<close>

text \<open>C20: The delay before the next attempt is 2 s doubled for every ordinary failure in a row and
  capped at 60 s; after a 429 it is the server's Retry-After, and never under 5 minutes (a negative,
  overflown one included), and the doubling starts afresh.\<close>

theorem run_delays_bounds:
  assumes "i < length errs"
  shows "run_delays initialBackoff errs ! i =
    (case as_rate_limit (errs ! i) of
       Some rl \<Rightarrow> max (5 * minute) (rl_retry_after rl)
     | None \<Rightarrow> min (2 * second * 2 ^ trailing (take i errs)) (60 * second)) \<and>
    2 * second \<le> run_delays initialBackoff errs ! i"
proof -
  have eq: "run_delays initialBackoff errs ! i =
    (case as_rate_limit (errs ! i) of
       Some rl \<Rightarrow> max (5 * minute) (rl_retry_after rl)
     | None \<Rightarrow> min (2 * second * 2 ^ trailing (take i errs)) (60 * second))"
  proof (cases "as_rate_limit (errs ! i)")
    case None
    then show ?thesis
      unfolding run_delays_nth [OF assms] backoff_after_trailing run_delay_def
      by (simp only: option.case fst_conv initialBackoff_def maxBackoff_def)
  next
    case (Some rl)
    then show ?thesis
      unfolding run_delays_nth [OF assms] run_delay_def
      by (simp only: option.case fst_conv rateLimitFloor_def max_def not_less split: if_split) auto
  qed
  have "2 * second * 1 \<le> 2 * second * 2 ^ trailing (take i errs)"
    by (rule mult_left_mono) (simp_all add: second_def)
  moreover have "2 * second \<le> 5 * minute" "2 * second \<le> 60 * second" by (simp_all add: duration_defs)
  ultimately show ?thesis unfolding eq by (auto simp: le_max_iff_disj split: option.split)
qed

theorem run_delays_bounds_witness:
  "run_delays initialBackoff [ErrCanceled, ErrTunnelDown] ! 1 =
     min (2 * second * 2 ^ trailing (take 1 [ErrCanceled, ErrTunnelDown])) (60 * second)"
proof -
  have "1 < length [ErrCanceled, ErrTunnelDown]" by simp
  from run_delays_bounds [OF this] show ?thesis by simp
qed

text \<open>C13: A registered session is always with a server of the region found, and with the first
  one that matches the preferred CN (or IP, when no CN is given) whenever registering with that one
  works; when it does not work, for any reason, a random server of the region is tried once, with
  the client the first try left; without a match the random one is tried at once.\<close>

theorem register_peer_strategy:
  assumes "FindRegion L (br_servers B) c (Region (tun_cfg t)) = (Inr reg, c1, q)"
    and "register_peer L B t c = (r, c', q')" and "pick_ok (br_pick B)"
  shows "(\<forall>ws. r = Inr ws \<longrightarrow> ws_region ws = reg \<and> ws_server ws \<in> set (rg_servers reg)) \<and>
    (case preferredServerInRegion (lb_uni L) t reg of
       None \<Rightarrow> c' = fst (snd (NewSession L (br_rand B) (br_pick B) c1 reg)) \<and>
         is_ok r = is_ok (fst (NewSession L (br_rand B) (br_pick B) c1 reg))
     | Some p \<Rightarrow> find (server_matches (lb_uni L) (PreferredServer (tun_cfg t))) (rg_servers reg) = Some p \<and>
         (case NewSessionWithServer L (br_pref B) c1 reg p of
            (Inr ws, c2, q2) \<Rightarrow> r = Inr ws \<and> ws_server ws = p \<and> c' = c2 \<and> q' = q @ q2
          | (Inl e, c2, q2) \<Rightarrow> c' = fst (snd (NewSession L (br_rand B) (br_pick B) c2 reg)) \<and>
              is_ok r = is_ok (fst (NewSession L (br_rand B) (br_pick B) c2 reg))))"
proof (cases "preferredServerInRegion (lb_uni L) t reg")
  case None
  with assms NewSession_server [of L "br_rand B" "br_pick B" c1 reg] show ?thesis
    by (auto simp: register_peer_def split: prod.splits sum.splits)
next
  case (Some p)
  obtain s2 c2 q2 where n: "NewSessionWithServer L (br_pref B) c1 reg p = (s2, c2, q2)"
    by (cases "NewSessionWithServer L (br_pref B) c1 reg p")
  have p: "p \<in> set (rg_servers reg)" using Some by (rule preferred_in_set)
  have f: "find (server_matches (lb_uni L) (PreferredServer (tun_cfg t))) (rg_servers reg) = Some p"
    using Some by (simp add: preferred_find split: if_splits)
  show ?thesis
  proof (cases s2)
    case (Inl e)
    with assms Some n f NewSession_server [of L "br_rand B" "br_pick B" c2 reg] show ?thesis
      by (auto simp: register_peer_def split: prod.splits sum.splits)
  next
    case (Inr ws)
    with NewSessionWithServer_server n have "ws_server ws = p" "ws_region ws = reg" by blast+
    with Inr assms Some n f p show ?thesis by (auto simp: register_peer_def)
  qed
qed

theorem register_peer_strategy_witness:
  "\<exists>ws c' q'. register_peer demo_libs (demo_bringup None) (NewTunnel demo_cfg) (demo_client ''T'') =
     (Inr ws, c', q') \<and> ws_server ws \<in> set (rg_servers demo_region)"
proof -
  have t: "(NewTunnel demo_cfg)\<lparr>tun_cfg := demo_cfg\<rparr> = NewTunnel demo_cfg"
    by (rule tun_cfg_same) (simp add: NewTunnel_def)
  obtain q where r: "register_peer demo_libs (demo_bringup None) (NewTunnel demo_cfg) (demo_client ''T'') =
      (Inr demo_ws, (demo_client ''T'')\<lparr>regions := Some [demo_region]\<rparr>, q)"
    using demo_register [of None "NewTunnel demo_cfg"] unfolding t by blast
  have f: "FindRegion demo_libs (br_servers (demo_bringup None)) (demo_client ''T'')
      (Region (tun_cfg (NewTunnel demo_cfg))) =
      (Inr demo_region, (demo_client ''T'')\<lparr>regions := Some [demo_region]\<rparr>, [ReqServers])"
    using demo_find_region by (simp add: demo_bringup_def NewTunnel_def demo_cfg_def)
  have "pick_ok (br_pick (demo_bringup None))" by (simp add: pick_ok_def demo_bringup_def)
  from register_peer_strategy [OF f r this] r show ?thesis by blast
qed

text \<open>C12: Bringing up is all or nothing. On an error nothing of the tunnel but the time of the
  registration has changed, and a device that was made was closed as the last thing. On success the
  tunnel is up over the device, which was set to the session's configuration before it was
  started, over a netstack with IPv4 addresses only and at least one resolver.\<close>

theorem bring_up_all_or_nothing:
  assumes "bring_up L B c t = (err, t', c', evs)"
  shows "case err of
      Some e \<Rightarrow> (t' = t \<or> t' = t\<lparr>addKeyAt := br_addKeyAt B\<rparr>) \<and>
        (NewDevice (br_dev B) \<in> set evs \<longrightarrow> last evs = DevClose (br_dev B)) \<and>
        (\<forall>n. NewDevice n \<in> set evs \<longrightarrow> n = br_dev B)
    | None \<Rightarrow> \<exists>ws ipc peer4 dns. session t' = Some ws \<and> IPCConfig ws = Inr ipc \<and>
        to4 (ws_peerIP ws) = Some peer4 \<and> dns \<noteq> [] \<and>
        (\<forall>a \<in> set dns. length a = 4 \<and> (a = [10, 0, 0, 243] \<or> (\<exists>ip \<in> set (ws_dnsServers ws). to4 ip = Some a))) \<and>
        evs = [CreateNetTUN [peer4] dns, NewDevice (br_dev B), IpcSet (br_dev B) ipc, DevUp (br_dev B)] \<and>
        state t' = StateUp \<and> lastError t' = [] \<and> netNet t' = Some (br_dev B)"
proof (cases err)
  case (Some e)
  have "NewDevice n \<in> set evs \<longrightarrow> n = br_dev B \<and> last evs = DevClose (br_dev B)" for n
    using assms Some
    by (auto simp: bring_up_def start_device_def Let_def split: prod.splits sum.splits option.splits)
  moreover have "t' = t \<or> t' = t\<lparr>addKeyAt := br_addKeyAt B\<rparr>"
    using bring_up_error [of L B c t e t' c' evs "{}"] assms Some by blast
  ultimately show ?thesis unfolding Some option.case by blast
next
  case None
  have four: "length a = 4" if "to4 ip = Some a" for ip a
    using that by (auto simp: to4_def split: if_splits)
  have dns: "dns_addrs ips \<noteq> []"
    "\<forall>a \<in> set (dns_addrs ips). length a = 4 \<and> (a = [10, 0, 0, 243] \<or> (\<exists>ip \<in> set ips. to4 ip = Some a))" for ips
    by (auto simp: dns_addrs_def Let_def map_filter_def four)
  from assms [unfolded None] obtain ws q peer4 ipc where
    "to4 (ws_peerIP ws) = Some peer4" "IPCConfig ws = Inr ipc"
    "t' = publish B ws (t\<lparr>addKeyAt := br_addKeyAt B\<rparr>)"
    "evs = [CreateNetTUN [peer4] (dns_addrs (ws_dnsServers ws)), NewDevice (br_dev B),
            IpcSet (br_dev B) ipc, DevUp (br_dev B)]"
    by (rule bring_up_ok)
  with dns [of "ws_dnsServers ws"] None show ?thesis by (auto simp: publish_def)
qed

theorem bring_up_all_or_nothing_witness:
  "\<exists>t' c' evs. bring_up demo_libs (demo_bringup None) (demo_client ''T'') (NewTunnel demo_cfg) = (None, t', c', evs) \<and>
     state t' = StateUp \<and> netNet t' = Some 4 \<and> length evs = 4"
proof -
  have t: "(NewTunnel demo_cfg)\<lparr>tun_cfg := demo_cfg\<rparr> = NewTunnel demo_cfg"
    by (rule tun_cfg_same) (simp add: NewTunnel_def)
  obtain t' c' evs where b: "bring_up demo_libs (demo_bringup None) (demo_client ''T'') (NewTunnel demo_cfg) = (None, t', c', evs)"
    using demo_bring_up [of "NewTunnel demo_cfg"] unfolding t by blast
  from bring_up_all_or_nothing [OF b] b show ?thesis by (auto simp: demo_bringup_def)
qed

text \<open>One statistics turn shows the byte totals the device printed, wherever the lines stand
  in its dump and whatever other lines there are; a missing line counts as 0. The rates are left
  alone on the first turn after a bring-up (when both totals were 0 so far).\<close>

lemma stats_tick_totals:
  assumes "si_raw I = Inr (dump kvs)" and "distinct (map fst kvs)"
    and "\<forall>(k, v) \<in> set kvs. plain_text k \<and> plain_text v \<and> CHR ''='' \<notin> set k"
    and "map_of kvs ''rx_bytes'' = Some (nat_to_dec r)" and "r < 2 ^ 64"
  shows "rxTotal (stats_tick U fl I t) = word_of_nat r \<and>
    (\<forall>x. map_of kvs ''tx_bytes'' = Some (nat_to_dec x) \<and> x < 2 ^ 64 \<longrightarrow>
       txTotal (stats_tick U fl I t) = word_of_nat x) \<and>
    (map_of kvs ''tx_bytes'' = None \<longrightarrow> txTotal (stats_tick U fl I t) = 0) \<and>
    (map_of kvs ''last_handshake_time_sec'' = None \<longrightarrow>
       lastHandshake (stats_tick U fl I t) = lastHandshake t \<and> state (stats_tick U fl I t) = state t) \<and>
    (prevRx t = 0 \<and> prevTx t = 0 \<longrightarrow>
       rxRate (stats_tick U fl I t) = rxRate t \<and> txRate (stats_tick U fl I t) = txRate t)"
proof -
  have "parse_stats U (dump kvs) =
    (word_of_nat r, stat_or 0 parse_uint64 (map_of kvs ''tx_bytes''),
     stat_or 0 parse_int64 (map_of kvs ''last_handshake_time_sec''))"
    unfolding parse_stats_dump [OF assms(3)] fold_set_key [OF assms(2)]
    by (simp add: assms(4) stat_or_def parse_uint64_dec [OF assms(5)])
  with assms(1) show ?thesis
    by (auto simp: stats_tick_def Let_def stat_or_def parse_uint64_dec)
      (simp_all add: handshake_state_def)
qed

text \<open>C36: A single failed probe degrades a tunnel that is up; the next statistics turn, two seconds
  later, takes it back to up and clears the error as long as the last handshake is under three
  minutes old, although the last probe still counts as failed.\<close>

theorem stats_override_failed_probe:
  assumes "state t = StateUp" and "fst (doProbe H (probe_url i)) = False"
    and "si_raw I = Inr raw" and "parse_stats U raw = (r, x, hs)" and "0 < hs"
    and "time_sub (si_since I) (unix_time hs) \<le> 3 * minute"
  shows "state (health_tick H n i t) = StateDegraded \<and>
    state (stats_tick U fl I (health_tick H n i t)) = StateUp \<and>
    lastError (stats_tick U fl I (health_tick H n i t)) = [] \<and>
    \<not> probeOK (stats_tick U fl I (health_tick H n i t)) \<and>
    probeFailCount (health_tick H n i t) = probeFailCount t + 1"
proof -
  obtain st where p: "doProbe H (probe_url i) = (False, st)"
    using assms(2) by (metis prod.collapse)
  have h: "state (health_tick H n i t) = StateDegraded" "\<not> probeOK (health_tick H n i t)"
    "probeFailCount (health_tick H n i t) = probeFailCount t + 1"
    using assms(1) by (simp_all add: health_tick_def p probe_defs health_state_def)
  then show ?thesis
    using assms(3-6) by (simp add: stats_tick_def handshake_state_def Let_def)
qed

theorem stats_override_failed_probe_witness:
  "\<exists>H I. state (health_tick H 4 0 ((NewTunnel demo_cfg)\<lparr>state := StateUp\<rparr>)) = StateDegraded \<and>
     state (stats_tick plain_uni (\<lambda>x. x) I (health_tick H 4 0 ((NewTunnel demo_cfg)\<lparr>state := StateUp\<rparr>))) = StateUp"
proof -
  let ?e = "\<lparr>ee_text = ''timeout'', ee_timeout = True, ee_closed = False, ee_eof = False\<rparr>"
  let ?H = "\<lparr>hi_newRequest = (\<lambda>_. None), hi_http = (\<lambda>_. Inl ?e), hi_start = 0, hi_end = 8, hi_pingStart = 9,
      hi_pingEnd = 10, hi_dial = (\<lambda>_ _ _. Inl ErrCanceled), hi_probeAt = 11, hi_since = 12\<rparr>"
  let ?I = "\<lparr>si_raw = Inr (dump [(''last_handshake_time_sec'', ''9'')]), si_now = 20 * second, si_since = 20 * second\<rparr>"
  have "\<forall>(k, v) \<in> set [(''last_handshake_time_sec'', ''9'')]. plain_text k \<and> plain_text v \<and> CHR ''='' \<notin> set k"
    by (simp add: plain_text_def is_ascii_def is_space_def)
  from parse_stats_dump [OF this] have "parse_stats plain_uni (dump [(''last_handshake_time_sec'', ''9'')]) =
      (0, 0, parse_int64 ''9'')" by (simp add: set_key_def)
  moreover have "parse_int64 ''9'' = 9" by code_simp
  ultimately have p: "parse_stats plain_uni (dump [(''last_handshake_time_sec'', ''9'')]) = (0, 0, 9)" by simp
  have "fst (doProbe ?H u) = False" for u by (simp add: doProbe_def)
  with stats_override_failed_probe [of "(NewTunnel demo_cfg)\<lparr>state := StateUp\<rparr>" ?H 0 ?I _ plain_uni 0 0 9 4 "\<lambda>x. x", OF _ _ _ p]
  show ?thesis by (intro exI [of _ ?H] exI [of _ ?I])
      (simp add: time_sub_def unix_time_def duration_defs int64_bounds)
qed

end
