(* ===== verification/SocksWire.thy ===== *)
theory SocksWire
  imports GoNetAddr
begin

text \<open>
  The wire format of src/socks5.go: the readers of the client's messages
  (\<^verbatim>\<open>parseClientGreeting\<close>, \<^verbatim>\<open>parseClientAuth\<close>, \<^verbatim>\<open>parseClientRequest\<close>,
  \<^verbatim>\<open>parseSocksAddr\<close>, \<^verbatim>\<open>parseUDPRequest\<close>) and the writers (\<^verbatim>\<open>socksAddr.marshal\<close>,
  \<^verbatim>\<open>response.marshal\<close>, \<^verbatim>\<open>udpRequest.marshal\<close>). A reader takes the bytes the stream will
  deliver before it ends and returns its result with the bytes it left unread. Two interfaces
  are stated as locales: \<open>prefix_parser\<close> (a reader decides on the bytes it consumes and on
  nothing else) and \<open>wire_codec\<close> (a reader and a writer of the same messages).
\<close>

unbundle bit_operations_syntax

section \<open>Readers\<close>

type_synonym 'a parser = "byte list \<Rightarrow> 'a result \<times> byte list"

text \<open>
  \<^verbatim>\<open>io.ReadFull\<close> into a buffer of \<open>n\<close> bytes, with the message the program puts in the place
  of the error. A short stream is used up.
\<close>

definition read_full :: "nat \<Rightarrow> string \<Rightarrow> byte list parser" where
  "read_full n msg bs =
     (if n \<le> length bs then (Inr (take n bs), drop n bs) else (Inl (ErrMsg msg), []))"

definition pret :: "'a \<Rightarrow> 'a parser" where
  "pret a bs = (Inr a, bs)"

definition perr :: "string \<Rightarrow> 'a parser" where
  "perr msg bs = (Inl (ErrMsg msg), bs)"

definition pbind :: "'a parser \<Rightarrow> ('a \<Rightarrow> 'b parser) \<Rightarrow> 'b parser" where
  "pbind p f bs = (case p bs of (Inl e, rest) \<Rightarrow> (Inl e, rest) | (Inr a, rest) \<Rightarrow> f a rest)"

lemmas [parse_simps] = read_full_def pret_def perr_def pbind_def

section \<open>The interface of a reader\<close>

locale prefix_parser =
  fixes parse :: "byte list \<Rightarrow> 'a result \<times> byte list"
  assumes consumes: "parse bs = (Inr a, rest) \<Longrightarrow> \<exists>pre. bs = pre @ rest"
    and local_: "parse (pre @ rest) = (Inr a, rest) \<Longrightarrow> parse (pre @ rest') = (Inr a, rest')"
begin

lemma extend: "parse bs = (Inr a, rest) \<Longrightarrow> parse (bs @ ext) = (Inr a, rest @ ext)"
  by (metis append.assoc consumes local_)

lemma length_rest: "parse bs = (Inr a, rest) \<Longrightarrow> length rest \<le> length bs"
  using consumes by fastforce

text \<open>Two streams that agree on what one reading consumes give the same message.\<close>

lemma agree:
  assumes "parse (pre @ rest) = (Inr a, rest)" and "parse (pre @ rest') = (r, rest'')"
  shows "r = Inr a \<and> rest'' = rest'"
  using local_ [OF assms(1), of rest'] assms(2) by simp

end

lemma prefix_parser_read_full [intro]: "prefix_parser (read_full n msg)"
proof
  show "\<exists>pre. bs = pre @ rest" if "read_full n msg bs = (Inr a, rest)" for bs a rest
    using that by (auto simp: read_full_def split: if_splits) (metis append_take_drop_id)
  show "read_full n msg (pre @ rest') = (Inr a, rest')"
    if "read_full n msg (pre @ rest) = (Inr a, rest)" for pre rest a rest'
  proof -
    from that have *: "n \<le> length pre + length rest" "take n (pre @ rest) = a" "drop n (pre @ rest) = rest"
      by (auto simp: read_full_def split: if_splits)
    from *(3) have "length pre + length rest - n = length rest"
      by (metis length_append length_drop)
    with *(1) have "n = length pre" by simp
    with *(2) show ?thesis by (simp add: read_full_def)
  qed
qed

lemma prefix_parser_pret [intro]: "prefix_parser (pret a)"
  by unfold_locales (auto simp: pret_def)

lemma prefix_parser_perr [intro]: "prefix_parser (perr msg)"
  by unfold_locales (auto simp: perr_def)

lemma prefix_parser_pbind [intro]:
  assumes p: "prefix_parser p" and f: "\<And>a. prefix_parser (f a)"
  shows "prefix_parser (pbind p f)"
proof
  show "\<exists>pre. bs = pre @ rest" if b: "pbind p f bs = (Inr b, rest)" for bs b rest
  proof -
    from b obtain a mid where "p bs = (Inr a, mid)" "f a mid = (Inr b, rest)"
      by (auto simp: pbind_def split: prod.splits sum.splits)
    then show ?thesis using prefix_parser.consumes [OF p] prefix_parser.consumes [OF f] by fastforce
  qed
  show "pbind p f (pre @ rest') = (Inr b, rest')"
    if b: "pbind p f (pre @ rest) = (Inr b, rest)" for pre rest b rest'
  proof -
    from b obtain a mid where 1: "p (pre @ rest) = (Inr a, mid)" "f a mid = (Inr b, rest)"
      by (auto simp: pbind_def split: prod.splits sum.splits)
    obtain u where u: "mid = u @ rest" using prefix_parser.consumes [OF f 1(2)] by blast
    obtain v where v: "pre @ rest = v @ mid" using prefix_parser.consumes [OF p 1(1)] by blast
    with u have pre: "pre = v @ u" by simp
    have "p (v @ u @ rest') = (Inr a, u @ rest')"
      using prefix_parser.local_ [OF p, of v mid a] 1(1) v by metis
    moreover have "f a (u @ rest') = (Inr b, rest')"
      using prefix_parser.local_ [OF f] 1(2) u by metis
    ultimately show ?thesis by (simp add: pbind_def pre)
  qed
qed

lemma prefix_parser_if [intro]:
  "prefix_parser p \<Longrightarrow> prefix_parser q \<Longrightarrow> prefix_parser (if b then p else q)"
  by simp

section \<open>The interface of a message format\<close>

text \<open>
  A writer \<open>enc\<close> and a reader of the same messages. A value may have several spellings that are
  written alike (an address text); \<open>canon\<close> is the spelling the reader makes.
\<close>

locale wire_codec = prefix_parser parse
  for parse :: "byte list \<Rightarrow> 'a result \<times> byte list" +
  fixes enc :: "'a \<Rightarrow> byte list result" and canon :: "'a \<Rightarrow> 'a"
  assumes enc_parse: "enc a = Inr bs \<Longrightarrow> parse (bs @ rest) = (Inr (canon a), rest)"
    and parse_enc: "parse (pre @ rest) = (Inr a, rest) \<Longrightarrow> enc a = Inr pre"
begin

lemma parse_exact:
  assumes "parse bs = (Inr a, rest)"
  shows "\<exists>raw. enc a = Inr raw \<and> bs = raw @ rest"
  using assms consumes [OF assms] parse_enc by blast

lemma enc_canon: "enc a = Inr bs \<Longrightarrow> enc (canon a) = Inr bs"
  using enc_parse parse_enc by blast

lemma canon_canon: "enc a = Inr bs \<Longrightarrow> canon (canon a) = canon a"
  using enc_canon enc_parse by (metis Pair_inject sum.inject(2))

lemma parse_canonical:
  assumes "parse bs = (Inr a, rest)"
  shows "canon a = a"
  using parse_exact [OF assms] enc_parse assms by fastforce

text \<open>No message is a proper prefix of another: a stream of messages is split in one way only.\<close>

lemma prefix_free:
  assumes "enc a = Inr x" "enc b = Inr y" "x @ u = y @ v"
  shows "x = y \<and> u = v \<and> canon a = canon b"
proof -
  have "(Inr (canon a), u) = (Inr (canon b), v)"
    using enc_parse [OF assms(1), of u] enc_parse [OF assms(2), of v] assms(3) by simp
  with assms(3) show ?thesis by simp
qed

end

section \<open>Constants and messages of socks5.go\<close>

definition noAuthRequired :: byte where "noAuthRequired = 0"
definition passwordAuth :: byte where "passwordAuth = 2"
definition noAcceptableAuth :: byte where "noAcceptableAuth = 255"
definition passwordAuthVersion :: byte where "passwordAuthVersion = 1"
definition socks5Version :: byte where "socks5Version = 5"

definition connect :: byte where "connect = 1"
definition udpAssociate :: byte where "udpAssociate = 3"

definition ipv4 :: byte where "ipv4 = 1"
definition domainName :: byte where "domainName = 3"
definition ipv6 :: byte where "ipv6 = 4"

definition success :: byte where "success = 0"
definition generalFailure :: byte where "generalFailure = 1"
definition hostUnreachable :: byte where "hostUnreachable = 4"
definition commandNotSupported :: byte where "commandNotSupported = 7"

definition bufferSize :: nat where "bufferSize = 8 * 1024"
definition readTimeout :: int where "readTimeout = 5 * second"

lemmas socks_consts =
  noAuthRequired_def passwordAuth_def noAcceptableAuth_def passwordAuthVersion_def
  socks5Version_def connect_def udpAssociate_def ipv4_def domainName_def ipv6_def
  success_def generalFailure_def hostUnreachable_def commandNotSupported_def

record socksAddr =
  addrType :: byte
  addr :: string
  port :: port

record request =
  command :: byte
  destination :: socksAddr

record response =
  reply :: byte
  bindAddr :: socksAddr

record udpRequest =
  frag :: byte
  uaddr :: socksAddr

definition zeroSocksAddr :: socksAddr where
  "zeroSocksAddr = \<lparr>addrType = ipv4, addr = ''0.0.0.0'', port = 0\<rparr>"

definition errorResponse :: "byte \<Rightarrow> response" where
  "errorResponse c = \<lparr>reply = c, bindAddr = zeroSocksAddr\<rparr>"

text \<open>\<^verbatim>\<open>binary.BigEndian\<close> on 16-bit values.\<close>

definition be_uint16 :: "byte \<Rightarrow> byte \<Rightarrow> port" where
  "be_uint16 a b = push_bit 8 (ucast a) OR ucast b"

definition be_append_uint16 :: "byte list \<Rightarrow> port \<Rightarrow> byte list" where
  "be_append_uint16 bs v = bs @ [ucast (drop_bit 8 v), ucast v]"

section \<open>Reading\<close>

definition parseClientGreeting :: "byte \<Rightarrow> unit parser" where
  "parseClientGreeting authMethod =
     pbind (read_full 2 ''could not read packet header'') (\<lambda>hdr.
       if hdr ! 0 \<noteq> socks5Version then perr ''incompatible SOCKS version''
       else pbind (read_full (unat (hdr ! 1)) ''could not read methods'') (\<lambda>methods.
         if authMethod \<in> set methods then pret ()
         else perr ''no acceptable auth methods''))"

definition parseClientAuth :: "(string \<times> string) parser" where
  "parseClientAuth =
     pbind (read_full 2 ''could not read auth packet header'') (\<lambda>hdr.
       if hdr ! 0 \<noteq> passwordAuthVersion then perr ''bad SOCKS auth version''
       else pbind (read_full (unat (hdr ! 1)) ''could not read auth packet username'') (\<lambda>usr.
         pbind (read_full 1 ''could not read auth packet password length'') (\<lambda>hdrPwd.
           pbind (read_full (unat (hdrPwd ! 0)) ''could not read auth packet password'') (\<lambda>pwd.
             pret (string_of_bytes usr, string_of_bytes pwd)))))"

definition parsePort :: "byte \<Rightarrow> string \<Rightarrow> socksAddr parser" where
  "parsePort t dest =
     pbind (read_full 2 ''could not read port'') (\<lambda>p.
       pret \<lparr>addrType = t, addr = dest, port = be_uint16 (p ! 0) (p ! 1)\<rparr>)"

definition parseSocksAddr :: "socksAddr parser" where
  "parseSocksAddr =
     pbind (read_full 1 ''could not read address type'') (\<lambda>td.
       let t = td ! 0 in
       if t = ipv4 then
         pbind (read_full 4 ''could not read IPv4 address'') (\<lambda>ip. parsePort t (ip_string ip))
       else if t = domainName then
         pbind (read_full 1 ''could not read domain name size'') (\<lambda>sz.
           pbind (read_full (unat (sz ! 0)) ''could not read domain name'') (\<lambda>dn.
             parsePort t (string_of_bytes dn)))
       else if t = ipv6 then
         pbind (read_full 16 ''could not read IPv6 address'') (\<lambda>ip. parsePort t (ip_string ip))
       else perr ''unsupported address type'')"

definition parseClientRequest :: "request parser" where
  "parseClientRequest =
     pbind (read_full 3 ''could not read packet header'') (\<lambda>hdr.
       pbind parseSocksAddr (\<lambda>dest.
         pret \<lparr>command = hdr ! 1, destination = dest\<rparr>))"

text \<open>
  \<^verbatim>\<open>parseUDPRequest\<close>: the body is cut from the end of the datagram by the number of bytes the
  address reader left unread.
\<close>

definition parseUDPRequest :: "byte list \<Rightarrow> (udpRequest \<times> byte list) result" where
  "parseUDPRequest data =
     (if length data < 4 then Inl (ErrMsg ''invalid packet length'')
      else if \<not> (data ! 0 = 0 \<and> data ! 1 = 0) then Inl (ErrMsg ''invalid udp request header'')
      else (case parseSocksAddr (drop 3 data) of
          (Inl e, _) \<Rightarrow> Inl e
        | (Inr a, unread) \<Rightarrow>
            Inr (\<lparr>frag = data ! 2, uaddr = a\<rparr>, drop (length data - length unread) data)))"

section \<open>Writing\<close>

definition getAddrType :: "string \<Rightarrow> byte" where
  "getAddrType a =
     (case parse_ip a of
        Some ip \<Rightarrow> if to4 ip \<noteq> None then ipv4 else ipv6
      | None \<Rightarrow> domainName)"

definition hostPort :: "socksAddr \<Rightarrow> string" where
  "hostPort s = join_host_port (addr s) (itoa (int (unat (port s))))"

definition addr_bytes :: "socksAddr \<Rightarrow> byte list result" where
  "addr_bytes s =
     (if addrType s = ipv4 then
        (case Option.bind (parse_ip (addr s)) to4 of
           None \<Rightarrow> Inl (ErrMsg ''invalid IPv4 address for binding'')
         | Some a \<Rightarrow> Inr a)
      else if addrType s = domainName then
        (if length (addr s) > 255 then Inl (ErrMsg ''invalid domain name for binding'')
         else Inr (word_of_nat (length (addr s)) # bytes_of_string (addr s)))
      else if addrType s = ipv6 then
        (case Option.bind (parse_ip (addr s)) to16 of
           None \<Rightarrow> Inl (ErrMsg ''invalid IPv6 address for binding'')
         | Some a \<Rightarrow> Inr a)
      else Inl (ErrMsg ''unsupported address type''))"

definition socksAddr_marshal :: "socksAddr \<Rightarrow> byte list result" where
  "socksAddr_marshal s =
     rbind (addr_bytes s) (\<lambda>a. Inr (be_append_uint16 (addrType s # a) (port s)))"

definition response_marshal :: "response \<Rightarrow> byte list result" where
  "response_marshal res =
     rbind (socksAddr_marshal (bindAddr res)) (\<lambda>a. Inr ([socks5Version, reply res, 0] @ a))"

definition udpRequest_marshal :: "udpRequest \<Rightarrow> byte list result" where
  "udpRequest_marshal u =
     rbind (socksAddr_marshal (uaddr u)) (\<lambda>a. Inr ([0, 0, frag u] @ a))"

definition splitHostPort :: "string \<Rightarrow> (string \<times> port) result" where
  "splitHostPort hp =
     rbind (split_host_port hp) (\<lambda>(host, portStr).
       case atoi portStr of
         None \<Rightarrow> Inl (ErrMsg (''strconv.Atoi: parsing '' @ portStr))
       | Some i \<Rightarrow>
           if i < 0 \<or> i > 65535 then Inl (ErrMsg (''invalid port number '' @ itoa i))
           else Inr (host, word_of_int i))"

section \<open>The readers consume a prefix of the stream\<close>

lemma prefix_parser_Let: "prefix_parser (f x) \<Longrightarrow> prefix_parser (let y = x in f y)"
  by simp

lemma prefix_parser_greeting: "prefix_parser (parseClientGreeting m)"
  unfolding parseClientGreeting_def by (intro prefix_parser_pbind prefix_parser_if) auto

lemma prefix_parser_auth: "prefix_parser parseClientAuth"
  unfolding parseClientAuth_def by (intro prefix_parser_pbind prefix_parser_if) auto

lemma prefix_parser_port: "prefix_parser (parsePort t d)"
  unfolding parsePort_def by (intro prefix_parser_pbind) auto

lemma prefix_parser_addr: "prefix_parser parseSocksAddr"
  unfolding parseSocksAddr_def Let_def
  by (intro prefix_parser_pbind prefix_parser_if) (auto intro: prefix_parser_port)

lemma prefix_parser_request: "prefix_parser parseClientRequest"
  unfolding parseClientRequest_def by (intro prefix_parser_pbind) (auto intro: prefix_parser_addr)

interpretation greeting: prefix_parser "parseClientGreeting m" for m
  by (rule prefix_parser_greeting)

interpretation auth: prefix_parser parseClientAuth
  by (rule prefix_parser_auth)

interpretation req: prefix_parser parseClientRequest
  by (rule prefix_parser_request)

section \<open>Addresses: the reader and the writer agree\<close>

lemma be_uint16_hi [simp]: "ucast (drop_bit 8 (be_uint16 a b)) = a"
  unfolding be_uint16_def by (intro bit_eqI) (auto simp: bit_simps dest: bit_imp_le_length)

lemma be_uint16_lo [simp]: "ucast (be_uint16 a b) = b"
  unfolding be_uint16_def by (intro bit_eqI) (auto simp: bit_simps)

lemma be_uint16_append [simp]: "be_uint16 (ucast (drop_bit 8 v)) (ucast v) = v"
  unfolding be_uint16_def by (intro bit_eqI) (auto simp: bit_simps)

definition canon_addr :: "socksAddr \<Rightarrow> socksAddr" where
  "canon_addr a =
     (if addrType a = ipv4 \<or> addrType a = ipv6 then
        (case parse_ip (addr a) of None \<Rightarrow> a | Some ip \<Rightarrow> a\<lparr>addr := ip_string ip\<rparr>)
      else a)"

lemma parsePort_bytes [parse_simps]:
  "parsePort t d (x # y # rest) = (Inr \<lparr>addrType = t, addr = d, port = be_uint16 x y\<rparr>, rest)"
  by (simp add: parsePort_def parse_simps)

lemma parsePort_Inr:
  "parsePort t d bs = (Inr a, rest) \<Longrightarrow>
     \<exists>x y. bs = x # y # rest \<and> a = \<lparr>addrType = t, addr = d, port = be_uint16 x y\<rparr>"
  by (cases bs rule: remdups_adj.cases) (auto simp: parsePort_def parse_simps)

lemma parseSocksAddr_ipv4:
  "length ip = 4 \<Longrightarrow> parseSocksAddr (ipv4 # ip @ rest) = parsePort ipv4 (ip_string ip) rest"
  by (simp add: parseSocksAddr_def parse_simps)

lemma parseSocksAddr_ipv6:
  "length ip = 16 \<Longrightarrow> parseSocksAddr (ipv6 # ip @ rest) = parsePort ipv6 (ip_string ip) rest"
  by (simp add: parseSocksAddr_def parse_simps socks_consts)

lemma parseSocksAddr_domain:
  "unat n = length dn \<Longrightarrow>
     parseSocksAddr (domainName # n # dn @ rest) = parsePort domainName (string_of_bytes dn) rest"
  by (simp add: parseSocksAddr_def parse_simps socks_consts)

text \<open>Inversion of the reader: the three forms of an address on the wire.\<close>

lemma parseSocksAddr_cases:
  assumes "parseSocksAddr bs = (Inr a, rest)"
  obtains (v4) ip x y where "length ip = 4" "bs = ipv4 # ip @ x # y # rest"
      "a = \<lparr>addrType = ipv4, addr = ip_string ip, port = be_uint16 x y\<rparr>"
  | (v6) ip x y where "length ip = 16" "bs = ipv6 # ip @ x # y # rest"
      "a = \<lparr>addrType = ipv6, addr = ip_string ip, port = be_uint16 x y\<rparr>"
  | (domain) dn n x y where "unat n = length dn" "bs = domainName # n # dn @ x # y # rest"
      "a = \<lparr>addrType = domainName, addr = string_of_bytes dn, port = be_uint16 x y\<rparr>"
proof (cases bs)
  case Nil
  with assms show ?thesis by (simp add: parseSocksAddr_def parse_simps)
next
  case (Cons t tl)
  consider "t = ipv4" | "t = domainName" | "t = ipv6" | "t \<notin> {ipv4, domainName, ipv6}" by auto
  then show ?thesis
  proof cases
    case 1
    with assms Cons have "4 \<le> length tl" "parsePort ipv4 (ip_string (take 4 tl)) (drop 4 tl) = (Inr a, rest)"
      by (auto simp: parseSocksAddr_def read_full_def pbind_def split: if_splits)
    then show ?thesis
      using v4 [of "take 4 tl"] parsePort_Inr Cons 1 by (metis append_take_drop_id length_take min.absorb2)
  next
    case 2
    with assms Cons obtain n tl' where n: "tl = n # tl'" "unat n \<le> length tl'"
      "parsePort domainName (string_of_bytes (take (unat n) tl')) (drop (unat n) tl') = (Inr a, rest)"
      by (cases tl) (auto simp: parseSocksAddr_def read_full_def pbind_def socks_consts split: if_splits)
    then show ?thesis
      using domain [of n "take (unat n) tl'"] parsePort_Inr Cons 2
      by (metis append_take_drop_id length_take min.absorb2)
  next
    case 3
    with assms Cons have "16 \<le> length tl" "parsePort ipv6 (ip_string (take 16 tl)) (drop 16 tl) = (Inr a, rest)"
      by (auto simp: parseSocksAddr_def read_full_def pbind_def socks_consts split: if_splits)
    then show ?thesis
      using v6 [of "take 16 tl"] parsePort_Inr Cons 3 by (metis append_take_drop_id length_take min.absorb2)
  next
    case 4
    with assms Cons show ?thesis by (simp add: parseSocksAddr_def parse_simps)
  qed
qed

lemma marshal_ipv4:
  assumes "length ip = 4"
  shows "socksAddr_marshal \<lparr>addrType = ipv4, addr = ip_string ip, port = p\<rparr> =
           Inr (be_append_uint16 (ipv4 # ip) p)"
  using assms by (simp add: socksAddr_marshal_def addr_bytes_def parse_ip_ip_string4)

lemma marshal_ipv6:
  assumes "length ip = 16"
  shows "socksAddr_marshal \<lparr>addrType = ipv6, addr = ip_string ip, port = p\<rparr> =
           Inr (be_append_uint16 (ipv6 # ip) p)"
  using assms
  by (simp add: socksAddr_marshal_def addr_bytes_def parse_ip_ip_string16 to16_def socks_consts)

lemma marshal_domain:
  "socksAddr_marshal \<lparr>addrType = domainName, addr = d, port = p\<rparr> =
     (if length d > 255 then Inl (ErrMsg ''invalid domain name for binding'')
      else Inr (be_append_uint16 (domainName # word_of_nat (length d) # bytes_of_string d) p))"
  by (simp add: socksAddr_marshal_def addr_bytes_def socks_consts)

lemma socksAddr_parse_marshal:
  assumes "parseSocksAddr (pre @ rest) = (Inr a, rest)"
  shows "socksAddr_marshal a = Inr pre"
  using assms
proof (cases rule: parseSocksAddr_cases)
  case (v4 ip x y)
  from v4(2) have "pre = ipv4 # ip @ [x, y]" by simp
  with v4 show ?thesis by (simp add: marshal_ipv4 be_append_uint16_def)
next
  case (v6 ip x y)
  from v6(2) have "pre = ipv6 # ip @ [x, y]" by simp
  with v6 show ?thesis by (simp add: marshal_ipv6 be_append_uint16_def)
next
  case (domain dn n x y)
  from domain(2) have "pre = domainName # n # dn @ [x, y]" by simp
  moreover have "length dn \<le> 255" "word_of_nat (length dn) = n"
    using domain(1) unat_byte_le [of n] by (simp_all add: domain(1) [symmetric])
  ultimately show ?thesis using domain by (simp add: marshal_domain be_append_uint16_def)
qed

lemma socksAddr_marshal_parse:
  assumes "socksAddr_marshal a = Inr bs"
  shows "parseSocksAddr (bs @ rest) = (Inr (canon_addr a), rest)"
proof -
  obtain ab where ab: "addr_bytes a = Inr ab" "bs = be_append_uint16 (addrType a # ab) (port a)"
    using assms by (auto simp: socksAddr_marshal_def rbind_Inr_iff)
  consider (4) ip where "addrType a = ipv4" "parse_ip (addr a) = Some ip" "to4 ip = Some ab"
    | (d) "addrType a = domainName" "length (addr a) \<le> 255"
        "ab = word_of_nat (length (addr a)) # bytes_of_string (addr a)"
    | (6) ip where "addrType a = ipv6" "parse_ip (addr a) = Some ip" "to16 ip = Some ab"
    using ab(1) by (auto simp: addr_bytes_def split: if_splits option.splits simp: bind_eq_Some_conv)
  then show ?thesis
  proof cases
    case 4
    then have "length ab = 4" "ip_string ip = ip_string ab"
      using to4_parse_ip ip_string_mapped by blast+
    with 4 ab(2) show ?thesis
      by (simp add: be_append_uint16_def parseSocksAddr_ipv4 parse_simps canon_addr_def)
  next
    case d
    then have "unat (word_of_nat (length (addr a)) :: byte) = length (addr a)"
      by (simp add: unat_of_nat)
    moreover have "domainName \<noteq> ipv4" "domainName \<noteq> ipv6" by (simp_all add: socks_consts)
    ultimately show ?thesis
      using d ab(2)
      by (simp add: be_append_uint16_def parseSocksAddr_domain parsePort_bytes canon_addr_def)
  next
    case 6
    then have "length ab = 16" "ip = ab"
      using length_parse_ip by (auto simp: to16_def split: if_splits)
    with 6 ab(2) show ?thesis
      by (simp add: be_append_uint16_def parseSocksAddr_ipv6 parse_simps canon_addr_def)
  qed
qed

interpretation sa: wire_codec parseSocksAddr socksAddr_marshal canon_addr
proof (intro wire_codec.intro prefix_parser_addr wire_codec_axioms.intro)
  show "parseSocksAddr (bs @ rest) = (Inr (canon_addr a), rest)" if "socksAddr_marshal a = Inr bs" for a bs rest
    using that by (rule socksAddr_marshal_parse)
  show "socksAddr_marshal a = Inr pre" if "parseSocksAddr (pre @ rest) = (Inr a, rest)" for pre rest a
    using that by (rule socksAddr_parse_marshal)
qed

section \<open>UDP datagrams\<close>

definition canon_udp :: "udpRequest \<Rightarrow> udpRequest" where
  "canon_udp u = u\<lparr>uaddr := canon_addr (uaddr u)\<rparr>"

text \<open>The datagram reader in the shape of a stream reader: the body is what is left over.\<close>

definition udp_reader :: "udpRequest parser" where
  "udp_reader data =
     (case parseUDPRequest data of Inl e \<Rightarrow> (Inl e, []) | Inr (u, body) \<Rightarrow> (Inr u, body))"

lemma udp_reader_Inr: "udp_reader data = (Inr u, body) \<longleftrightarrow> parseUDPRequest data = Inr (u, body)"
  by (auto simp: udp_reader_def split: sum.splits)

lemma length_socksAddr_marshal: "socksAddr_marshal a = Inr raw \<Longrightarrow> 1 \<le> length raw"
  by (auto simp: socksAddr_marshal_def be_append_uint16_def rbind_Inr_iff)

text \<open>The datagram reader accepts three header bytes and an address, whatever follows.\<close>

lemma parseUDPRequest_iff:
  "parseUDPRequest data = Inr (u, body) \<longleftrightarrow>
     (\<exists>raw. parseSocksAddr (raw @ body) = (Inr (uaddr u), body) \<and> data = [0, 0, frag u] @ raw @ body)"
proof
  assume L: "parseUDPRequest data = Inr (u, body)"
  then have len: "4 \<le> length data" and z: "data ! 0 = 0" "data ! 1 = 0"
    by (auto simp: parseUDPRequest_def split: if_splits)
  obtain a rest where p: "parseSocksAddr (drop 3 data) = (Inr a, rest)"
    "u = \<lparr>frag = data ! 2, uaddr = a\<rparr>" "body = drop (length data - length rest) data"
    using L len z by (auto simp: parseUDPRequest_def split: prod.splits sum.splits)
  obtain raw where raw: "drop 3 data = raw @ rest" using sa.consumes [OF p(1)] by blast
  have data: "data = [0, 0, data ! 2] @ raw @ rest"
  proof -
    obtain x y w d where "data = x # y # w # d"
      using len by (metis Suc_le_length_iff numeral_eq_Suc pred_numeral_simps(2,3) semiring_norm(26,27))
    with z raw show ?thesis by simp
  qed
  then have "body = rest" using p(3) by (metis append_assoc append_eq_conv_conj length_append diff_add_inverse2)
  with p raw data show "\<exists>raw. parseSocksAddr (raw @ body) = (Inr (uaddr u), body) \<and>
      data = [0, 0, frag u] @ raw @ body"
    by (intro exI [of _ raw]) simp
next
  assume "\<exists>raw. parseSocksAddr (raw @ body) = (Inr (uaddr u), body) \<and> data = [0, 0, frag u] @ raw @ body"
  then obtain raw where r: "parseSocksAddr (raw @ body) = (Inr (uaddr u), body)"
    "data = [0, 0, frag u] @ raw @ body" by blast
  have "1 \<le> length raw" using length_socksAddr_marshal [OF sa.parse_enc [OF r(1)]] .
  then obtain x xs where "raw = x # xs" by (cases raw) auto
  with r show "parseUDPRequest data = Inr (u, body)"
    by (simp add: parseUDPRequest_def eval_nat_numeral)
qed

lemma udpRequest_marshal_iff:
  "udpRequest_marshal u = Inr hdr \<longleftrightarrow>
     (\<exists>raw. socksAddr_marshal (uaddr u) = Inr raw \<and> hdr = [0, 0, frag u] @ raw)"
  by (auto simp: udpRequest_marshal_def rbind_Inr_iff)

interpretation udp: wire_codec udp_reader udpRequest_marshal canon_udp
proof (intro wire_codec.intro prefix_parser.intro wire_codec_axioms.intro)
  show "\<exists>pre. bs = pre @ rest" if "udp_reader bs = (Inr a, rest)" for bs a rest
    using that unfolding udp_reader_Inr parseUDPRequest_iff by (metis append.assoc)
  show "udp_reader (pre @ rest') = (Inr a, rest')" if "udp_reader (pre @ rest) = (Inr a, rest)" for pre rest a rest'
  proof -
    from that obtain raw where raw: "parseSocksAddr (raw @ rest) = (Inr (uaddr a), rest)"
      "pre = [0, 0, frag a] @ raw"
      unfolding udp_reader_Inr parseUDPRequest_iff by (metis append.assoc append_same_eq)
    have "parseSocksAddr (raw @ rest') = (Inr (uaddr a), rest')"
      using raw(1) by (rule sa.local_)
    with raw(2) show ?thesis
      unfolding udp_reader_Inr parseUDPRequest_iff by (metis append.assoc)
  qed
  show "udp_reader (bs @ rest) = (Inr (canon_udp a), rest)" if m: "udpRequest_marshal a = Inr bs" for a bs rest
  proof -
    obtain raw where raw: "socksAddr_marshal (uaddr a) = Inr raw" "bs = [0, 0, frag a] @ raw"
      using m unfolding udpRequest_marshal_iff by blast
    have "parseSocksAddr (raw @ rest) = (Inr (uaddr (canon_udp a)), rest)"
      using socksAddr_marshal_parse [OF raw(1)] by (simp add: canon_udp_def)
    with raw(2) show ?thesis
      unfolding udp_reader_Inr parseUDPRequest_iff
      by (intro exI [of _ raw]) (simp add: canon_udp_def)
  qed
  show "udpRequest_marshal a = Inr pre" if "udp_reader (pre @ rest) = (Inr a, rest)" for pre rest a
  proof -
    from that obtain raw where raw: "parseSocksAddr (raw @ rest) = (Inr (uaddr a), rest)"
      "pre = [0, 0, frag a] @ raw"
      unfolding udp_reader_Inr parseUDPRequest_iff by (metis append.assoc append_same_eq)
    with socksAddr_parse_marshal [OF raw(1)] show ?thesis
      unfolding udpRequest_marshal_iff by blast
  qed
qed

section \<open>Properties of the message formats\<close>

lemma read_full_Inr: "read_full n msg bs = (Inr xs, rest) \<longleftrightarrow> length xs = n \<and> bs = xs @ rest"
  by (auto simp: read_full_def)

lemma pbind_Inr:
  "pbind p f bs = (Inr b, rest) \<longleftrightarrow> (\<exists>a mid. p bs = (Inr a, mid) \<and> f a mid = (Inr b, rest))"
  by (auto simp: pbind_def split: prod.splits sum.splits)

lemma pret_Inr: "pret a bs = (Inr b, rest) \<longleftrightarrow> b = a \<and> rest = bs"
  by (auto simp: pret_def)

lemma perr_Inr: "perr msg bs = (Inr b, rest) \<longleftrightarrow> False"
  by (simp add: perr_def)

lemmas reader_Inr = read_full_Inr pbind_Inr pret_Inr perr_Inr

lemma unat_length_byte: "n < 256 \<Longrightarrow> unat (word_of_nat n :: byte) = n"
  by (simp add: unat_of_nat)

lemma byte_length_iff: "unat (n :: byte) = k \<longleftrightarrow> k < 256 \<and> n = word_of_nat k"
  by (auto simp: unat_length_byte)

subsection \<open>Addresses\<close>

text \<open>Whatever address the reader accepts, the writer gives back exactly the bytes it
  consumed, for IPv4, IPv6 (with every placement of the compressed zero groups) and names.\<close>

lemma parse_marshal_addr:
  assumes "parseSocksAddr bs = (Inr a, rest)"
  shows "\<exists>raw. socksAddr_marshal a = Inr raw \<and> bs = raw @ rest"
  using assms by (rule sa.parse_exact)

text \<open>What the writer makes, the reader takes back: the same address up to the spelling of
  its text, which becomes canonical and then no longer changes.\<close>

lemma marshal_parse_addr:
  assumes "socksAddr_marshal a = Inr raw"
  shows "parseSocksAddr (raw @ rest) = (Inr (canon_addr a), rest) \<and>
    canon_addr (canon_addr a) = canon_addr a \<and> socksAddr_marshal (canon_addr a) = Inr raw"
  using assms by (simp add: sa.enc_parse sa.canon_canon sa.enc_canon)

lemma getAddrType_marshal_iff:
  "is_ok (socksAddr_marshal \<lparr>addrType = getAddrType h, addr = h, port = p\<rparr>) \<longleftrightarrow>
     parse_ip h \<noteq> None \<or> length h \<le> 255"
proof (cases "parse_ip h")
  case None
  then have "getAddrType h = domainName" by (simp add: getAddrType_def)
  with None show ?thesis by (auto simp: marshal_domain)
next
  case (Some ip)
  then have len: "length ip = 16" by (rule length_parse_ip)
  show ?thesis
  proof (cases "to4 ip")
    case None
    with Some len show ?thesis
      by (simp add: getAddrType_def socksAddr_marshal_def addr_bytes_def to16_def socks_consts)
  next
    case (Some p4)
    with \<open>parse_ip h = Some ip\<close> show ?thesis
      by (simp add: getAddrType_def socksAddr_marshal_def addr_bytes_def)
  qed
qed

text \<open>Splitting the text of an address gives back its host and port, when the host has no
  bracket: the port survives printing, joining, splitting, parsing and the range check.\<close>

lemma splitHostPort_hostPort:
  assumes "CHR ''['' \<notin> set (addr s)" "CHR '']'' \<notin> set (addr s)"
  shows "splitHostPort (hostPort s) = Inr (addr s, port s)"
proof -
  let ?n = "int (unat (port s))"
  have n: "0 \<le> ?n" "?n < 65536"
    using unsigned_less [of "port s", where ?'a = int] by simp_all
  then have "atoi (itoa ?n) = Some ?n"
    by (intro atoi_itoa) (unfold int64_bounds, linarith+)
  moreover have "split_host_port (join_host_port (addr s) (itoa ?n)) = Inr (addr s, itoa ?n)"
    using assms itoa_no_punct by (intro split_join_host_port) auto
  ultimately show ?thesis
    using n by (simp add: splitHostPort_def hostPort_def)
qed

subsection \<open>Requests\<close>

text \<open>The greeting reader accepts exactly the version-5 greetings that offer the wanted method, and
  consumes exactly the greeting.\<close>

lemma greeting_iff:
  "parseClientGreeting m bs = (Inr (), rest) \<longleftrightarrow>
     (\<exists>methods. length methods < 256 \<and> m \<in> set methods \<and>
        bs = [5, word_of_nat (length methods)] @ methods @ rest)"
proof
  assume "parseClientGreeting m bs = (Inr (), rest)"
  then obtain hdr mid methods where h: "length hdr = 2" "bs = hdr @ mid" "hdr ! 0 = 5"
    "length methods = unat (hdr ! 1)" "mid = methods @ rest" "m \<in> set methods"
    by (auto simp: parseClientGreeting_def socks5Version_def reader_Inr split: if_splits)
  then show "\<exists>methods. length methods < 256 \<and> m \<in> set methods \<and>
      bs = [5, word_of_nat (length methods)] @ methods @ rest"
    by (intro exI [of _ methods]) (auto simp: length_2_iff)
next
  assume "\<exists>methods. length methods < 256 \<and> m \<in> set methods \<and>
      bs = [5, word_of_nat (length methods)] @ methods @ rest"
  then show "parseClientGreeting m bs = (Inr (), rest)"
    by (auto simp: parseClientGreeting_def socks5Version_def parse_simps unat_length_byte)
qed

text \<open>Likewise for the credentials.\<close>

lemma auth_iff:
  "parseClientAuth bs = (Inr (u, p), rest) \<longleftrightarrow>
     length u < 256 \<and> length p < 256 \<and>
     bs = [1, word_of_nat (length u)] @ bytes_of_string u @
          [word_of_nat (length p)] @ bytes_of_string p @ rest"
proof
  assume "parseClientAuth bs = (Inr (u, p), rest)"
  then obtain hdr m1 us m2 hp m3 ps where h: "length hdr = 2" "bs = hdr @ m1" "hdr ! 0 = 1"
    "length us = unat (hdr ! 1)" "m1 = us @ m2" "length hp = 1" "m2 = hp @ m3"
    "length ps = unat (hp ! 0)" "m3 = ps @ rest" "u = string_of_bytes us" "p = string_of_bytes ps"
    by (auto simp: parseClientAuth_def passwordAuthVersion_def reader_Inr split: if_splits)
  then obtain n k where "hdr = [1, n]" "hp = [k]"
    by (auto simp: length_2_iff length_Suc_conv)
  with h show "length u < 256 \<and> length p < 256 \<and>
      bs = [1, word_of_nat (length u)] @ bytes_of_string u @
          [word_of_nat (length p)] @ bytes_of_string p @ rest"
    by simp
next
  assume "length u < 256 \<and> length p < 256 \<and>
      bs = [1, word_of_nat (length u)] @ bytes_of_string u @
          [word_of_nat (length p)] @ bytes_of_string p @ rest"
  then show "parseClientAuth bs = (Inr (u, p), rest)"
    by (simp add: parseClientAuth_def passwordAuthVersion_def parse_simps unat_length_byte)
qed

text \<open>The request reader accepts three bytes, of which only the second (the command) is
  looked at, followed by a canonically spelled address as the writer would write it.\<close>

lemma parseClientRequest_accepts:
  "parseClientRequest bs = (Inr r, rest) \<longleftrightarrow>
     (\<exists>ver rsv raw. socksAddr_marshal (destination r) = Inr raw \<and>
        canon_addr (destination r) = destination r \<and> bs = [ver, command r, rsv] @ raw @ rest)"
proof
  assume "parseClientRequest bs = (Inr r, rest)"
  then obtain hdr mid where h: "length hdr = 3" "bs = hdr @ mid" "command r = hdr ! 1"
    "parseSocksAddr mid = (Inr (destination r), rest)"
    by (auto simp: parseClientRequest_def reader_Inr)
  obtain x y z where "hdr = [x, y, z]"
    using h(1) by (auto simp: numeral_3_eq_3 length_Suc_conv)
  moreover obtain raw where "socksAddr_marshal (destination r) = Inr raw" "mid = raw @ rest"
    using sa.parse_exact [OF h(4)] by blast
  ultimately show "\<exists>ver rsv raw. socksAddr_marshal (destination r) = Inr raw \<and>
      canon_addr (destination r) = destination r \<and> bs = [ver, command r, rsv] @ raw @ rest"
    using h sa.parse_canonical [OF h(4)] by auto
next
  assume "\<exists>ver rsv raw. socksAddr_marshal (destination r) = Inr raw \<and>
      canon_addr (destination r) = destination r \<and> bs = [ver, command r, rsv] @ raw @ rest"
  then obtain ver rsv raw where h: "socksAddr_marshal (destination r) = Inr raw"
    "canon_addr (destination r) = destination r" "bs = [ver, command r, rsv] @ raw @ rest" by blast
  then show "parseClientRequest bs = (Inr r, rest)"
    using socksAddr_marshal_parse [OF h(1), of rest]
    by (simp add: parseClientRequest_def parse_simps)
qed

subsection \<open>Replies and datagrams\<close>

lemma parse_ip_zero: "parse_ip ''0.0.0.0'' = Some (v4_in_v6_prefix @ [0, 0, 0, 0])"
proof -
  have "ip_string [0, 0, 0, 0] = ''0.0.0.0''" by code_simp
  then show ?thesis using parse_ip_ip_string4 [of "[0, 0, 0, 0]"] by simp
qed

lemma response_marshal_error:
  "response_marshal (errorResponse c) = Inr [5, c, 0, 1, 0, 0, 0, 0, 0, 0]"
  by (simp add: response_marshal_def errorResponse_def zeroSocksAddr_def socksAddr_marshal_def
      addr_bytes_def parse_ip_zero be_append_uint16_def socks_consts)

text \<open>C27: A datagram made of a written header and any payload is read back as that header
  (canonically spelled) and exactly that payload; and every datagram accepted is one of these.\<close>

theorem parseUDPRequest_marshal:
  "(\<exists>u'. canon_udp u' = u \<and> (\<exists>hdr. udpRequest_marshal u' = Inr hdr \<and> data = hdr @ body)) \<longleftrightarrow>
     parseUDPRequest data = Inr (u, body)"
proof
  assume "\<exists>u'. canon_udp u' = u \<and> (\<exists>hdr. udpRequest_marshal u' = Inr hdr \<and> data = hdr @ body)"
  then show "parseUDPRequest data = Inr (u, body)"
    using udp.enc_parse udp_reader_Inr by blast
next
  assume p: "parseUDPRequest data = Inr (u, body)"
  then have r: "udp_reader data = (Inr u, body)" by (simp add: udp_reader_Inr)
  with udp.parse_exact [OF r] udp.parse_canonical [OF r]
  show "\<exists>u'. canon_udp u' = u \<and> (\<exists>hdr. udpRequest_marshal u' = Inr hdr \<and> data = hdr @ body)"
    by blast
qed

end
