(* ===== verification/SocksServer.thy ===== *)
theory SocksServer
  imports SocksWire "HOL-Library.Sublist"
begin

text \<open>
  The SOCKS5 server of src/socks5.go over TCP: the registry of live connections
  (\<^verbatim>\<open>Server.register\<close>, \<^verbatim>\<open>unregister\<close>, \<^verbatim>\<open>Snapshot\<close>), the counting writer and the two
  copy loops of \<^verbatim>\<open>handleTCP\<close>, and the whole of \<^verbatim>\<open>Conn.Run\<close>, \<^verbatim>\<open>handleRequest\<close>,
  \<^verbatim>\<open>handleTCP\<close> and \<^verbatim>\<open>handleUDP\<close> as a function from the client's bytes and the answers of
  the network to the actions taken (what is written to the client, what is dialled or listened
  on, when bytes are relayed), the error returned and the connection's new fields.
\<close>

section \<open>Connections and the registry\<close>

record conn =
  peer :: string
  dest :: string
  conn_method :: string
  startMs :: int
  rxBytes :: uint64
  txBytes :: uint64

record connInfo =
  ci_peer :: string
  ci_dest :: string
  ci_method :: string
  ci_startedMs :: int
  ci_rxBytes :: uint64
  ci_txBytes :: uint64

text \<open>
  A \<^verbatim>\<open>*Conn\<close> is a number; \<open>conns\<close> is the store the pointers point into, \<open>activeConns\<close> the
  key set of the Go map (\<open>None\<close> while the map is nil).
\<close>

type_synonym conn_id = nat

record server =
  srv_username :: string
  srv_password :: string
  activeConns :: "conn_id set option"
  conns :: "conn_id \<Rightarrow> conn option"

definition active :: "server \<Rightarrow> conn_id set" where
  "active s = (case activeConns s of None \<Rightarrow> {} | Some A \<Rightarrow> A)"

definition register :: "server \<Rightarrow> conn_id \<Rightarrow> server" where
  "register s c =
     (let A = (case activeConns s of None \<Rightarrow> {} | Some A \<Rightarrow> A)
      in s\<lparr>activeConns := Some (insert c A)\<rparr>)"

definition unregister :: "server \<Rightarrow> conn_id \<Rightarrow> server" where
  "unregister s c = s\<lparr>activeConns := map_option (\<lambda>A. A - {c}) (activeConns s)\<rparr>"

definition conn_info :: "conn \<Rightarrow> connInfo" where
  "conn_info c =
     \<lparr>ci_peer = peer c, ci_dest = dest c, ci_method = conn_method c, ci_startedMs = startMs c,
      ci_rxBytes = rxBytes c, ci_txBytes = txBytes c\<rparr>"

text \<open>
  \<^verbatim>\<open>Server.Snapshot\<close>: Go ranges over the map in any order; \<open>ord\<close> is the order of this call,
  a duplicate-free list of the keys (\<open>range_order\<close>).
\<close>

definition range_order :: "server \<Rightarrow> conn_id list \<Rightarrow> bool" where
  "range_order s ord \<longleftrightarrow> distinct ord \<and> set ord = active s"

definition server_Snapshot :: "server \<Rightarrow> conn_id list \<Rightarrow> connInfo list" where
  "server_Snapshot s ord = map (\<lambda>i. conn_info (the (conns s i))) ord"

lemma active_register [simp, step_simps]: "active (register s c) = insert c (active s)"
  by (simp add: active_def register_def split: option.splits)

lemma active_unregister [simp, step_simps]: "active (unregister s c) = active s - {c}"
  by (simp add: active_def unregister_def split: option.splits)

lemma conns_register [simp]: "conns (register s c) = conns s"
  by (simp add: register_def Let_def)

lemma conns_unregister [simp]: "conns (unregister s c) = conns s"
  by (simp add: unregister_def)

section \<open>Relaying: countWriter and io.Copy\<close>

text \<open>\<^verbatim>\<open>countWriter.Write\<close>: the count the inner writer reports is added when it is positive.\<close>

definition countWriter_Write :: "uint64 \<Rightarrow> int \<Rightarrow> uint64" where
  "countWriter_Write ctr n = (if n > 0 then ctr + word_of_int n else ctr)"

text \<open>
  One turn of the loop of \<^verbatim>\<open>io.Copy\<close>: what \<^verbatim>\<open>Read\<close> returned (bytes and how it ended) and
  what the destination's \<^verbatim>\<open>Write\<close> answered. \<open>Go_on\<close> is a nil read error.
\<close>

datatype read_end = Go_on | Eof | Read_error gerror

record turn =
  t_data :: "byte list"
  t_end :: read_end
  t_nw :: int
  t_ew :: "gerror option"

datatype copy_result = Copying | Ended "gerror option"

record copy_dir =
  ctr :: uint64
  delivered :: "byte list"
  cstatus :: copy_result

definition copy_turn :: "copy_dir \<Rightarrow> turn \<Rightarrow> copy_dir" where
  "copy_turn d t =
     (let after_read = (case t_end t of Go_on \<Rightarrow> Copying | Eof \<Rightarrow> Ended None
                        | Read_error e \<Rightarrow> Ended (Some e))
      in if t_data t = [] then d\<lparr>cstatus := after_read\<rparr>
         else
           (let d1 = d\<lparr>ctr := countWriter_Write (ctr d) (t_nw t),
                       delivered := delivered d @ take (nat (t_nw t)) (t_data t)\<rparr>;
                bad = t_nw t < 0 \<or> int (length (t_data t)) < t_nw t;
                nw = (if bad then 0 else t_nw t);
                ew = (if bad \<and> t_ew t = None then Some (ErrMsg ''invalid write result'') else t_ew t)
            in if ew \<noteq> None then d1\<lparr>cstatus := Ended ew\<rparr>
               else if nw \<noteq> int (length (t_data t)) then d1\<lparr>cstatus := Ended (Some ErrShortWrite)\<rparr>
               else d1\<lparr>cstatus := after_read\<rparr>))"

text \<open>
  The two goroutines of \<^verbatim>\<open>handleTCP\<close>: \<open>Rx\<close> copies upstream to client, \<open>Tx\<close> client to
  upstream. \<open>first\<close> is the value the channel delivers first, which \<^verbatim>\<open>handleTCP\<close> returns.
\<close>

datatype direction = Rx | Tx

record relay =
  rx :: copy_dir
  tx :: copy_dir
  first :: "gerror option option"

definition wrap_end :: "string \<Rightarrow> gerror option \<Rightarrow> gerror option" where
  "wrap_end pre e = map_option (\<lambda>x. ErrWrap pre x []) e"

definition relay_turn :: "relay \<Rightarrow> direction \<times> turn \<Rightarrow> relay" where
  "relay_turn r dt =
     (case dt of
        (Rx, t) \<Rightarrow>
          if cstatus (rx r) \<noteq> Copying then r
          else (let d = copy_turn (rx r) t
                in r\<lparr>rx := d,
                     first := (case (first r, cstatus d) of
                                 (None, Ended e) \<Rightarrow> Some (wrap_end ''from backend to client: '' e)
                               | (f, _) \<Rightarrow> f)\<rparr>)
      | (Tx, t) \<Rightarrow>
          if cstatus (tx r) \<noteq> Copying then r
          else (let d = copy_turn (tx r) t
                in r\<lparr>tx := d,
                     first := (case (first r, cstatus d) of
                                 (None, Ended e) \<Rightarrow> Some (wrap_end ''from client to backend: '' e)
                               | (f, _) \<Rightarrow> f)\<rparr>))"

definition relay_run :: "relay \<Rightarrow> (direction \<times> turn) list \<Rightarrow> relay" where
  "relay_run r ts = foldl relay_turn r ts"

definition copy_start :: "uint64 \<Rightarrow> copy_dir" where
  "copy_start n = \<lparr>ctr = n, delivered = [], cstatus = Copying\<rparr>"

definition relay_start :: "conn \<Rightarrow> relay" where
  "relay_start c = \<lparr>rx = copy_start (rxBytes c), tx = copy_start (txBytes c), first = None\<rparr>"

text \<open>\<^verbatim>\<open>Server.dial\<close>: the server's \<^verbatim>\<open>Dialer\<close> if it has one, the standard one (\<open>std\<close>) otherwise.\<close>

definition server_dial ::
  "(string \<Rightarrow> string \<Rightarrow> 'c result) option \<Rightarrow> (string \<Rightarrow> string \<Rightarrow> 'c result) \<Rightarrow> string \<Rightarrow> string \<Rightarrow> 'c result" where
  "server_dial dialer std network address =
     (case dialer of None \<Rightarrow> std network address | Some dial \<Rightarrow> dial network address)"

section \<open>Conn.Run\<close>

text \<open>What the network answers during one connection, and the turns of its relay.\<close>

record net_env =
  ne_dial :: "string \<Rightarrow> string \<Rightarrow> string result"   \<comment> \<open>network, address: local address\<close>
  ne_local :: string                        \<comment> \<open>clientConn.LocalAddr()\<close>
  ne_listen :: "string \<Rightarrow> string result"       \<comment> \<open>ListenPacket: local address\<close>
  ne_turns :: "(direction \<times> turn) list"
  ne_assoc :: "gerror option option"        \<comment> \<open>how the associated TCP stream ends, if it did\<close>

datatype action =
    Write "byte list"
  | Dial string string
  | ListenPacket string
  | Relay
  | Associate

text \<open>\<open>o_ret\<close> is \<open>None\<close> while the connection is still relaying, else the error returned.\<close>

record outcome =
  o_ret :: "gerror option option"
  o_conn :: conn
  o_actions :: "action list"

definition prefix_actions :: "action list \<Rightarrow> outcome \<Rightarrow> outcome" where
  "prefix_actions as out = out\<lparr>o_actions := as @ o_actions out\<rparr>"

definition blocked :: "gerror option option \<Rightarrow> conn \<Rightarrow> action list \<Rightarrow> outcome" where
  "blocked r c as = \<lparr>o_ret = r, o_conn = c, o_actions = as\<rparr>"

definition stop :: "gerror option \<Rightarrow> conn \<Rightarrow> action list \<Rightarrow> outcome" where
  "stop e c as = \<lparr>o_ret = Some e, o_conn = c, o_actions = as\<rparr>"

text \<open>\<^verbatim>\<open>buf, _ := res.marshal()\<close> for an error reply; a nil slice is written as nothing.\<close>

definition error_reply :: "byte \<Rightarrow> byte list" where
  "error_reply rc = (case response_marshal (errorResponse rc) of Inr b \<Rightarrow> b | Inl _ \<Rightarrow> [])"

text \<open>The success reply with the local address, or the general failure if it cannot be written.\<close>

definition success_reply :: "string \<Rightarrow> port \<Rightarrow> byte list" where
  "success_reply host p =
     (case response_marshal
             \<lparr>reply = success, bindAddr = \<lparr>addrType = getAddrType host, addr = host, port = p\<rparr>\<rparr> of
        Inr b \<Rightarrow> b
      | Inl _ \<Rightarrow> error_reply generalFailure)"

definition handleTCP :: "net_env \<Rightarrow> conn \<Rightarrow> request \<Rightarrow> outcome" where
  "handleTCP E c0 req =
     (let d = hostPort (destination req);
          c = c0\<lparr>dest := d, conn_method := ''tcp''\<rparr>
      in case ne_dial E ''tcp'' d of
           Inl e \<Rightarrow> stop (Some e) c [Dial ''tcp'' d, Write (error_reply generalFailure)]
         | Inr localAddr \<Rightarrow>
             (case splitHostPort localAddr of
                Inl e \<Rightarrow> stop (Some e) c [Dial ''tcp'' d]
              | Inr (serverAddr, serverPort) \<Rightarrow>
                  (let r = relay_run (relay_start c) (ne_turns E)
                   in blocked (first r)
                        (c\<lparr>rxBytes := ctr (rx r), txBytes := ctr (tx r)\<rparr>)
                        [Dial ''tcp'' d, Write (success_reply serverAddr serverPort), Relay])))"

definition handleUDP :: "net_env \<Rightarrow> conn \<Rightarrow> request \<Rightarrow> outcome" where
  "handleUDP E c0 req =
     (let c = c0\<lparr>dest := hostPort (destination req), conn_method := ''udp''\<rparr>
      in case split_host_port (ne_local E) of
           Inl e \<Rightarrow> stop (Some e) c []
         | Inr (host, _) \<Rightarrow>
             (let la = join_host_port host ''0''
              in case ne_listen E la of
                   Inl e \<Rightarrow> stop (Some e) c [ListenPacket la, Write (error_reply generalFailure)]
                 | Inr udpAddr \<Rightarrow>
                     (case splitHostPort udpAddr of
                        Inl e \<Rightarrow> stop (Some e) c [ListenPacket la]
                      | Inr (bindHost, bindPort) \<Rightarrow>
                          blocked (map_option (wrap_end ''udp associated tcp conn: '') (ne_assoc E)) c
                            [ListenPacket la, Write (success_reply bindHost bindPort), Associate])))"

definition handleRequest :: "net_env \<Rightarrow> conn \<Rightarrow> byte list \<Rightarrow> outcome" where
  "handleRequest E c bs =
     (case parseClientRequest bs of
        (Inl e, _) \<Rightarrow> stop (Some e) c [Write (error_reply generalFailure)]
      | (Inr req, _) \<Rightarrow>
          if command req = connect then handleTCP E c req
          else if command req = udpAssociate then handleUDP E c req
          else stop (Some (ErrMsg (''unsupported command '' @ itoa (int (unat (command req)))))) c
                 [Write (error_reply commandNotSupported)])"

definition needAuth :: "server \<Rightarrow> bool" where
  "needAuth s \<longleftrightarrow> srv_username s \<noteq> [] \<or> srv_password s \<noteq> []"

definition conn_Run :: "server \<Rightarrow> net_env \<Rightarrow> conn \<Rightarrow> byte list \<Rightarrow> outcome" where
  "conn_Run s E c bs =
     (let authMethod = (if needAuth s then passwordAuth else noAuthRequired)
      in case parseClientGreeting authMethod bs of
           (Inl e, _) \<Rightarrow> stop (Some e) c [Write [socks5Version, noAcceptableAuth]]
         | (Inr _, bs1) \<Rightarrow>
             prefix_actions [Write [socks5Version, authMethod]]
               (if \<not> needAuth s then handleRequest E c bs1
                else (case parseClientAuth bs1 of
                    (Inl e, _) \<Rightarrow> stop (Some e) c [Write [1, 1]]
                  | (Inr (user, pwd), bs2) \<Rightarrow>
                      if user \<noteq> srv_username s \<or> pwd \<noteq> srv_password s
                      then stop None c [Write [1, 1]]
                      else prefix_actions [Write [1, 0]] (handleRequest E c bs2))))"

section \<open>Serve: one goroutine per accepted connection\<close>

text \<open>
  A connection's goroutine creates the \<^verbatim>\<open>Conn\<close>, registers it, runs it and unregisters it on
  the way out; goroutines interleave freely. While one runs, its state holds what the client sends
  up to the relay and what the network answers, the turns of the relay so far included: the fields
  of the connection are those \<open>conn_Run\<close> has given them by then. It ends when \<open>conn_Run\<close> returns.
\<close>

datatype goroutine = Spawned | Running net_env "byte list" | Finished

fun running :: "goroutine option \<Rightarrow> bool" where
  "running (Some (Running E bs)) = True"
| "running _ = False"

lemma running_iff: "running g \<longleftrightarrow> (\<exists>E bs. g = Some (Running E bs))"
  by (cases g rule: running.cases) simp_all

record serve_state =
  sv :: server
  gos :: "conn_id \<Rightarrow> goroutine option"

definition new_conn :: "string \<Rightarrow> int \<Rightarrow> conn" where
  "new_conn p t =
     \<lparr>peer = p, dest = [], conn_method = [], startMs = t, rxBytes = 0, txBytes = 0\<rparr>"

inductive serve_step :: "serve_state \<Rightarrow> serve_state \<Rightarrow> bool" where
  accept: "gos S i = None \<Longrightarrow>
     serve_step S (S\<lparr>sv := (sv S)\<lparr>conns := (conns (sv S))(i \<mapsto> new_conn p t)\<rparr>,
                    gos := (gos S)(i \<mapsto> Spawned)\<rparr>)"
| begin_run: "gos S i = Some Spawned \<Longrightarrow> ne_turns E = [] \<Longrightarrow>
     serve_step S (S\<lparr>sv := register (sv S) i, gos := (gos S)(i \<mapsto> Running E bs)\<rparr>)"
| progress: "gos S i = Some (Running E bs) \<Longrightarrow> conns (sv S) i = Some c \<Longrightarrow>
     E' = E\<lparr>ne_turns := ne_turns E @ ts\<rparr> \<Longrightarrow>
     c' = o_conn (conn_Run (sv S) E' (new_conn (peer c) (startMs c)) bs) \<Longrightarrow>
     serve_step S (S\<lparr>sv := (sv S)\<lparr>conns := (conns (sv S))(i \<mapsto> c')\<rparr>,
                    gos := (gos S)(i \<mapsto> Running E' bs)\<rparr>)"
| end_run: "gos S i = Some (Running E bs) \<Longrightarrow> conns (sv S) i = Some c \<Longrightarrow>
     o_ret (conn_Run (sv S) E (new_conn (peer c) (startMs c)) bs) = Some err \<Longrightarrow>
     serve_step S (S\<lparr>sv := unregister (sv S) i, gos := (gos S)(i \<mapsto> Finished)\<rparr>)"

definition serve_init :: "string \<Rightarrow> string \<Rightarrow> serve_state" where
  "serve_init u p =
     \<lparr>sv = \<lparr>srv_username = u, srv_password = p, activeConns = None, conns = Map.empty\<rparr>,
      gos = Map.empty\<rparr>"

inductive serve_reach :: "string \<Rightarrow> string \<Rightarrow> serve_state \<Rightarrow> bool" for u p where
  start: "serve_reach u p (serve_init u p)"
| step: "serve_reach u p S \<Longrightarrow> serve_step S T \<Longrightarrow> serve_reach u p T"

lemma prefix_actions_simps [simp]:
  "o_actions (prefix_actions as out) = as @ o_actions out"
  "o_ret (prefix_actions as out) = o_ret out" "o_conn (prefix_actions as out) = o_conn out"
  by (simp_all add: prefix_actions_def)

lemma stop_simps [simp]:
  "o_actions (stop e c as) = as" "o_ret (stop e c as) = Some e" "o_conn (stop e c as) = c"
  "o_actions (blocked r c as) = as" "o_ret (blocked r c as) = r" "o_conn (blocked r c as) = c"
  by (simp_all add: stop_def blocked_def)

text \<open>\<open>conn_Run\<close> reads only the credentials of the server, and keeps who the client is.\<close>

lemma conn_Run_creds:
  "srv_username s = srv_username s' \<Longrightarrow> srv_password s = srv_password s' \<Longrightarrow>
     conn_Run s E c bs = conn_Run s' E c bs"
  by (simp only: conn_Run_def needAuth_def)

lemma handleRequest_keeps:
  "peer (o_conn (handleRequest E c bs)) = peer c \<and> startMs (o_conn (handleRequest E c bs)) = startMs c"
  by (auto simp: handleRequest_def handleTCP_def handleUDP_def Let_def split: prod.splits sum.splits)

lemma conn_Run_keeps [simp]:
  "peer (o_conn (conn_Run s E c bs)) = peer c" "startMs (o_conn (conn_Run s E c bs)) = startMs c"
  using handleRequest_keeps by (auto simp: conn_Run_def Let_def split: prod.splits sum.splits)

lemma new_conn_fields [simp]: "peer (new_conn p t) = p" "startMs (new_conn p t) = t" "conn_method (new_conn p t) = []"
  by (simp_all add: new_conn_def)

definition conn_ok :: "server \<Rightarrow> goroutine \<Rightarrow> conn \<Rightarrow> bool" where
  "conn_ok s g c \<longleftrightarrow>
     c = new_conn (peer c) (startMs c) \<or>
     (case g of
        Running E bs \<Rightarrow> c = o_conn (conn_Run s E (new_conn (peer c) (startMs c)) bs)
      | Spawned \<Rightarrow> False
      | Finished \<Rightarrow> True)"

lemma conn_ok_creds:
  "conn_ok s g c \<Longrightarrow> srv_username s = srv_username s' \<Longrightarrow> srv_password s = srv_password s' \<Longrightarrow> conn_ok s' g c"
  using conn_Run_creds [of s s'] by (auto simp: conn_ok_def split: goroutine.splits)

definition serve_inv :: "string \<Rightarrow> string \<Rightarrow> serve_state \<Rightarrow> bool" where
  "serve_inv u p S \<longleftrightarrow>
     active (sv S) = {i. running (gos S i)} \<and> dom (conns (sv S)) = dom (gos S) \<and>
     finite (dom (gos S)) \<and> srv_username (sv S) = u \<and> srv_password (sv S) = p \<and>
     (\<forall>i g c. gos S i = Some g \<longrightarrow> conns (sv S) i = Some c \<longrightarrow> conn_ok (sv S) g c)"

lemma register_creds [simp]:
  "srv_username (register s i) = srv_username s" "srv_password (register s i) = srv_password s"
  "srv_username (unregister s i) = srv_username s" "srv_password (unregister s i) = srv_password s"
  by (simp_all add: register_def unregister_def Let_def)

text \<open>One goroutine and its connection change; the credentials and the other ones stay.\<close>

lemma serve_inv_update:
  assumes "serve_inv u p S" and "gos T = (gos S)(i \<mapsto> g)" and "dom (conns (sv T)) = insert i (dom (conns (sv S)))"
    and "srv_username (sv T) = srv_username (sv S)" "srv_password (sv T) = srv_password (sv S)"
    and "\<And>j. j \<noteq> i \<Longrightarrow> conns (sv T) j = conns (sv S) j"
    and "\<And>c. conns (sv T) i = Some c \<Longrightarrow> conn_ok (sv T) g c"
    and "active (sv T) = (if running (Some g) then insert i (active (sv S)) else active (sv S) - {i})"
  shows "serve_inv u p T"
proof -
  have "conn_ok (sv T) g' c" if "gos T j = Some g'" "conns (sv T) j = Some c" for j g' c
  proof (cases "j = i")
    case True
    with assms(2,7) that show ?thesis by simp
  next
    case False
    with assms(2,6) that have "gos S j = Some g'" "conns (sv S) j = Some c" by simp_all
    with assms(1) have "conn_ok (sv S) g' c" by (simp add: serve_inv_def)
    then show ?thesis using assms(4,5) by (simp add: conn_ok_creds)
  qed
  moreover have "active (sv T) = {j. running (gos T j)}"
    using assms(1,2,8) by (auto simp: serve_inv_def)
  ultimately show ?thesis using assms(1-5) by (auto simp: serve_inv_def)
qed

lemma serve_inv_step: "serve_step S T \<Longrightarrow> serve_inv u p S \<Longrightarrow> serve_inv u p T"
proof (induction rule: serve_step.induct)
  case (accept S i q t)
  then have "i \<notin> active (sv S)" by (simp add: serve_inv_def)
  then show ?case
    by (intro serve_inv_update [OF accept(2), where i = i and g = Spawned])
      (auto simp: active_def conn_ok_def split: if_splits)
next
  case (begin_run S i E bs)
  then have "i \<in> dom (conns (sv S))" by (auto simp: serve_inv_def)
  moreover have "conn_ok (register (sv S) i) (Running E bs) c" if "conns (sv S) i = Some c" for c
    using begin_run(1,3) that by (fastforce simp: serve_inv_def conn_ok_def)
  ultimately show ?case
    by (intro serve_inv_update [OF begin_run(3), where i = i and g = "Running E bs"]) (auto simp: insert_absorb)
next
  case (progress S i E bs c E' ts c')
  then have i: "i \<in> active (sv S)" by (simp add: serve_inv_def)
  have "conn_ok (sv S) (Running E' bs) c'" unfolding progress(4) conn_ok_def by simp
  then have "conn_ok ((sv S)\<lparr>conns := (conns (sv S))(i \<mapsto> c')\<rparr>) (Running E' bs) c'"
    by (rule conn_ok_creds) simp_all
  with i show ?case
    by (intro serve_inv_update [OF progress(5), where i = i and g = "Running E' bs"])
      (auto simp: active_def split: if_splits)
next
  case (end_run S i E bs c err)
  then show ?case
    by (intro serve_inv_update [OF end_run(4), where i = i and g = Finished]) (auto simp: insert_absorb conn_ok_def)
qed

interpretation serve_m: machine serve_step "serve_reach u p" "serve_init u p" for u p
  by unfold_locales (rule serve_reach.start, erule (1) serve_reach.step, erule serve_reach.induct, blast+)

lemma serve_reach_inv: "serve_reach u p S \<Longrightarrow> serve_inv u p S"
  by (erule serve_m.invariant) (simp add: serve_inv_def serve_init_def active_def, rule serve_inv_step)

section \<open>The registry as a set\<close>

text \<open>
  What \<^verbatim>\<open>Serve\<close> and the snapshots rely on: registering adds a connection, unregistering removes
  it. In any order of such calls a connection is live exactly when its last call registered it.
\<close>

datatype reg_event = Reg nat | Unreg nat

fun reg_id :: "reg_event \<Rightarrow> nat" where
  "reg_id (Reg i) = i"
| "reg_id (Unreg i) = i"

locale registry =
  fixes reg unreg :: "'s \<Rightarrow> nat \<Rightarrow> 's" and live :: "'s \<Rightarrow> nat set"
  assumes live_reg: "live (reg s i) = insert i (live s)"
    and live_unreg: "live (unreg s i) = live s - {i}"
begin

definition replay :: "'s \<Rightarrow> reg_event list \<Rightarrow> 's" where
  "replay s es = foldl (\<lambda>s e. case e of Reg i \<Rightarrow> reg s i | Unreg i \<Rightarrow> unreg s i) s es"

lemma live_replay:
  "i \<in> live (replay s es) \<longleftrightarrow>
     (case filter (\<lambda>e. reg_id e = i) es of [] \<Rightarrow> i \<in> live s
      | f # fs \<Rightarrow> last (f # fs) = Reg i)"
proof (induction es rule: rev_induct)
  case Nil
  then show ?case by (simp add: replay_def)
next
  case (snoc e es)
  show ?case
  proof (cases e)
    case (Reg j)
    then show ?thesis
      using snoc by (auto simp: replay_def live_reg split: list.splits)
  next
    case (Unreg j)
    then show ?thesis
      using snoc by (auto simp: replay_def live_unreg split: list.splits)
  qed
qed

lemma bracket: "i \<notin> live s \<Longrightarrow> live (unreg (reg s i) i) = live s"
  by (simp add: live_reg live_unreg)

end

interpretation srv: registry register unregister active
  by unfold_locales simp_all

section \<open>Lemmas on relaying\<close>

fun turns_of :: "direction \<Rightarrow> (direction \<times> turn) list \<Rightarrow> turn list" where
  "turns_of d [] = []"
| "turns_of d ((e, t) # ts) = (if e = d then t # turns_of d ts else turns_of d ts)"

definition stream_of :: "direction \<Rightarrow> (direction \<times> turn) list \<Rightarrow> byte list" where
  "stream_of d ts = concat (map t_data (turns_of d ts))"

text \<open>What \<^verbatim>\<open>io.Writer\<close> documents of every \<^verbatim>\<open>Write\<close>: \<open>0 \<le> n \<le> len(p)\<close>.\<close>

definition writer_ok :: "(direction \<times> turn) list \<Rightarrow> bool" where
  "writer_ok ts \<longleftrightarrow> list_all (\<lambda>(d, t). 0 \<le> t_nw t \<and> t_nw t \<le> int (length (t_data t))) ts"

definition copy_run :: "copy_dir \<Rightarrow> turn list \<Rightarrow> copy_dir" where
  "copy_run d ts = foldl (\<lambda>d t. if cstatus d \<noteq> Copying then d else copy_turn d t) d ts"

lemma relay_run_dirs:
  "rx (relay_run r ts) = copy_run (rx r) (turns_of Rx ts) \<and>
   tx (relay_run r ts) = copy_run (tx r) (turns_of Tx ts)"
proof (induction ts arbitrary: r)
  case Nil
  then show ?case by (simp add: relay_run_def copy_run_def)
next
  case (Cons dt ts)
  obtain d t where dt: "dt = (d, t)" by (cases dt)
  show ?case
    using Cons [of "relay_turn r dt"]
    by (cases d) (auto simp: dt relay_run_def copy_run_def relay_turn_def Let_def)
qed

text \<open>The channel has a value as soon as one direction has ended.\<close>

lemma relay_run_first:
  "(first r = None \<longleftrightarrow> cstatus (rx r) = Copying \<and> cstatus (tx r) = Copying) \<Longrightarrow>
   first (relay_run r ts) = None \<longleftrightarrow>
     cstatus (rx (relay_run r ts)) = Copying \<and> cstatus (tx (relay_run r ts)) = Copying"
proof (induction ts arbitrary: r)
  case Nil
  then show ?case by (simp add: relay_run_def)
next
  case (Cons dt ts)
  have "first (relay_turn r dt) = None \<longleftrightarrow>
      cstatus (rx (relay_turn r dt)) = Copying \<and> cstatus (tx (relay_turn r dt)) = Copying"
    using Cons.prems
    by (auto simp: relay_turn_def Let_def split: prod.splits direction.splits option.splits copy_result.splits)
  from Cons.IH [OF this] show ?case by (simp add: relay_run_def)
qed

lemma copy_run_stopped: "cstatus d \<noteq> Copying \<Longrightarrow> copy_run d ts = d"
  by (induction ts) (auto simp: copy_run_def)

lemma copy_run_Cons:
  "copy_run d (t # ts) = (if cstatus d \<noteq> Copying then d else copy_run (copy_turn d t) ts)"
  using copy_run_stopped [of d ts] by (auto simp: copy_run_def)

lemma copy_turn_counts:
  assumes "0 \<le> t_nw t" "t_nw t \<le> int (length (t_data t))"
  shows "\<exists>n. delivered (copy_turn d t) = delivered d @ take n (t_data t) \<and>
    ctr (copy_turn d t) = ctr d + word_of_nat (length (take n (t_data t))) \<and>
    (cstatus (copy_turn d t) = Copying \<or> cstatus (copy_turn d t) = Ended None \<longrightarrow>
       take n (t_data t) = t_data t)"
proof (cases "t_data t = []")
  case True
  then show ?thesis by (intro exI [of _ 0]) (simp add: copy_turn_def Let_def)
next
  case False
  have m: "min (length (t_data t)) (nat (t_nw t)) = nat (t_nw t)"
    using assms by linarith
  have full: "take (nat (t_nw t)) (t_data t) = t_data t" if "t_nw t = int (length (t_data t))"
    using that by simp
  show ?thesis
    using False assms
    by (intro exI [of _ "nat (t_nw t)"])
      (auto simp: copy_turn_def Let_def countWriter_Write_def m full)
qed

lemma copy_run_counts:
  assumes "list_all (\<lambda>t. 0 \<le> t_nw t \<and> t_nw t \<le> int (length (t_data t))) ts"
    and "cstatus d = Copying"
  shows "\<exists>out. delivered (copy_run d ts) = delivered d @ out \<and>
    ctr (copy_run d ts) = ctr d + word_of_nat (length out) \<and>
    prefix out (concat (map t_data ts)) \<and>
    (cstatus (copy_run d ts) = Copying \<longrightarrow> out = concat (map t_data ts))"
  using assms
proof (induction ts arbitrary: d)
  case Nil
  then show ?case by (simp add: copy_run_def)
next
  case (Cons t ts)
  let ?d = "copy_turn d t"
  obtain n where n: "delivered ?d = delivered d @ take n (t_data t)"
    "ctr ?d = ctr d + word_of_nat (length (take n (t_data t)))"
    "cstatus ?d = Copying \<or> cstatus ?d = Ended None \<longrightarrow> take n (t_data t) = t_data t"
    using copy_turn_counts [of t d] Cons.prems(1) by auto
  show ?case
  proof (cases "cstatus ?d = Copying")
    case True
    obtain out where out: "delivered (copy_run ?d ts) = delivered ?d @ out"
      "ctr (copy_run ?d ts) = ctr ?d + word_of_nat (length out)"
      "prefix out (concat (map t_data ts))"
      "cstatus (copy_run ?d ts) = Copying \<longrightarrow> out = concat (map t_data ts)"
      using Cons.IH [OF _ True] Cons.prems(1) by auto
    with n True Cons.prems(2) show ?thesis
      by (intro exI [of _ "t_data t @ out"]) (auto simp: copy_run_Cons)
  next
    case False
    have "prefix (take n (t_data t)) (t_data t @ concat (map t_data ts))"
      by (metis append_take_drop_id append.assoc prefixI)
    with n False Cons.prems(2) show ?thesis
      by (intro exI [of _ "take n (t_data t)"]) (auto simp: copy_run_Cons copy_run_stopped)
  qed
qed

lemma writer_ok_turns:
  "writer_ok ts \<Longrightarrow> list_all (\<lambda>t. 0 \<le> t_nw t \<and> t_nw t \<le> int (length (t_data t))) (turns_of d ts)"
  unfolding writer_ok_def by (induction d ts rule: turns_of.induct) auto

section \<open>Lemmas on the replies\<close>

lemma error_reply_bytes [simp]: "error_reply c = [5, c, 0, 1, 0, 0, 0, 0, 0, 0]"
  by (simp add: error_reply_def response_marshal_error)

lemma success_reply_ok:
  assumes "parse_ip h \<noteq> None \<or> length h \<le> 255"
  shows "\<exists>a. success_reply h p = [5, 0, 0] @ a \<and>
    socksAddr_marshal \<lparr>addrType = getAddrType h, addr = h, port = p\<rparr> = Inr a"
proof -
  obtain a where "socksAddr_marshal \<lparr>addrType = getAddrType h, addr = h, port = p\<rparr> = Inr a"
    using assms getAddrType_marshal_iff by (metis is_okE)
  then show ?thesis
    by (simp add: success_reply_def response_marshal_def socks_consts)
qed

fun outbound :: "action \<Rightarrow> bool" where
  "outbound (Write _) = False"
| "outbound _ = True"

section \<open>A request that is well formed\<close>

text \<open>What a client sends and gets up to its request: a greeting that offers the method the server
  wants, and the credentials when there are any, which then have at most 255 bytes each.\<close>

definition opens_with :: "string \<Rightarrow> string \<Rightarrow> byte list \<Rightarrow> byte list \<Rightarrow> bool" where
  "opens_with u p bs rest \<longleftrightarrow> (\<exists>methods. length methods < 256 \<and>
     (if u = [] \<and> p = [] then
        noAuthRequired \<in> set methods \<and> bs = [5, word_of_nat (length methods)] @ methods @ rest
      else
        passwordAuth \<in> set methods \<and> length u < 256 \<and> length p < 256 \<and>
        bs = [5, word_of_nat (length methods)] @ methods @
             [1, word_of_nat (length u)] @ bytes_of_string u @
             [word_of_nat (length p)] @ bytes_of_string p @ rest))"

definition hello_replies :: "string \<Rightarrow> string \<Rightarrow> action list" where
  "hello_replies u p = (if u = [] \<and> p = [] then [Write [5, 0]] else [Write [5, 2], Write [1, 0]])"

lemma conn_Run_opens:
  assumes "opens_with (srv_username s) (srv_password s) bs rest"
  shows "conn_Run s E c bs =
    prefix_actions (hello_replies (srv_username s) (srv_password s)) (handleRequest E c rest)"
proof (cases "needAuth s")
  case False
  then have "parseClientGreeting noAuthRequired bs = (Inr (), rest)"
    using assms unfolding greeting_iff by (auto simp: opens_with_def needAuth_def)
  with False show ?thesis
    by (simp add: conn_Run_def hello_replies_def needAuth_def socks5Version_def noAuthRequired_def Let_def)
next
  case True
  let ?auth = "[1, word_of_nat (length (srv_username s))] @ bytes_of_string (srv_username s) @
      [word_of_nat (length (srv_password s))] @ bytes_of_string (srv_password s) @ rest"
  have g: "parseClientGreeting passwordAuth bs = (Inr (), ?auth)"
    using assms True unfolding greeting_iff by (auto simp: opens_with_def needAuth_def)
  have a: "parseClientAuth ?auth = (Inr (srv_username s, srv_password s), rest)"
    unfolding auth_iff using assms True by (auto simp: opens_with_def needAuth_def)
  have b: "hello_replies (srv_username s) (srv_password s) = [Write [5, 2], Write [1, 0]]"
    using True by (simp add: hello_replies_def needAuth_def)
  show ?thesis
    unfolding b conn_Run_def using True
    by (simp only: Let_def if_True g a prod.case sum.case simp_thms if_False)
      (simp add: prefix_actions_def socks5Version_def passwordAuth_def)
qed

lemma handle_connect:
  assumes "socksAddr_marshal a = Inr raw" and "canon_addr a = a"
  shows "handleRequest E c ([ver, 1, rsv] @ raw @ rest) = handleTCP E c \<lparr>command = 1, destination = a\<rparr>"
proof -
  have "parseClientRequest ([ver, 1, rsv] @ raw @ rest) = (Inr \<lparr>command = 1, destination = a\<rparr>, rest)"
    unfolding parseClientRequest_accepts using assms by simp
  then show ?thesis by (simp add: handleRequest_def connect_def del: append.simps)
qed

section \<open>Credentials\<close>

text \<open>The bytes of a client that authenticates: a greeting that offers password authentication and
  an RFC 1929 packet with these credentials.\<close>

definition presented :: "string \<Rightarrow> string \<Rightarrow> byte list \<Rightarrow> bool" where
  "presented u p bs \<longleftrightarrow> (\<exists>methods rest. length methods < 256 \<and> passwordAuth \<in> set methods \<and>
     bs = [5, word_of_nat (length methods)] @ methods @
          [1, word_of_nat (length u)] @ bytes_of_string u @
          [word_of_nat (length p)] @ bytes_of_string p @ rest)"

lemma handled_after_auth:
  assumes "needAuth s" and "o_conn (conn_Run s E c bs) \<noteq> c \<or> (\<exists>a \<in> set (o_actions (conn_Run s E c bs)). outbound a)"
  shows "presented (srv_username s) (srv_password s) bs"
proof -
  obtain bs1 where g: "parseClientGreeting passwordAuth bs = (Inr (), bs1)"
    using assms by (auto simp: conn_Run_def Let_def split: prod.splits sum.splits)
  obtain u p bs2 where a: "parseClientAuth bs1 = (Inr (u, p), bs2)"
    using assms g by (auto simp: conn_Run_def Let_def split: prod.splits sum.splits)
  have "u = srv_username s \<and> p = srv_password s"
    using assms g a by (auto simp: conn_Run_def Let_def split: if_splits)
  with g a show ?thesis unfolding presented_def greeting_iff auth_iff by auto
qed

lemma conn_ok_Running:
  "conn_ok s (Running E bs) c \<Longrightarrow>
     c = new_conn (peer c) (startMs c) \<or> c = o_conn (conn_Run s E (new_conn (peer c) (startMs c)) bs)"
  by (simp add: conn_ok_def)

lemma conn_ok_method:
  assumes "conn_ok s (Running E bs) c" and "conn_method c \<noteq> []" and "srv_username s \<noteq> [] \<or> srv_password s \<noteq> []"
  shows "presented (srv_username s) (srv_password s) bs"
proof -
  have "conn_method (new_conn (peer c) (startMs c)) = []" by simp
  then have "c \<noteq> new_conn (peer c) (startMs c)" using assms(2) by metis
  then have "o_conn (conn_Run s E (new_conn (peer c) (startMs c)) bs) \<noteq> new_conn (peer c) (startMs c)"
    using conn_ok_Running [OF assms(1)] by metis
  then show ?thesis using assms(3) by (intro handled_after_auth) (auto simp: needAuth_def)
qed

lemma serve_running:
  assumes "serve_inv u p S" and "running (gos S i)"
  shows "\<exists>c E bs. gos S i = Some (Running E bs) \<and> conns (sv S) i = Some c \<and> conn_ok (sv S) (Running E bs) c"
proof -
  obtain E bs where g: "gos S i = Some (Running E bs)" using assms(2) running_iff by blast
  have "i \<in> dom (conns (sv S))" using assms(1) g unfolding serve_inv_def by (metis domI)
  then obtain c where c: "conns (sv S) i = Some c" by blast
  have "\<forall>i g c. gos S i = Some g \<longrightarrow> conns (sv S) i = Some c \<longrightarrow> conn_ok (sv S) g c"
    using assms(1) by (simp add: serve_inv_def)
  with g c have "conn_ok (sv S) (Running E bs) c" by blast
  with g c show ?thesis by blast
qed

section \<open>Properties of the server\<close>

text \<open>C2: With a username or a password configured, nothing leaves the machine on behalf of a
  client (no dial, no UDP socket, no relaying) unless its bytes were a greeting that offers
  password authentication followed by an RFC 1929 packet with exactly these credentials.\<close>

theorem outbound_requires_credentials:
  assumes "needAuth s" and "a \<in> set (o_actions (conn_Run s E c bs))" and "outbound a"
  shows "\<exists>methods rest. length methods < 256 \<and> passwordAuth \<in> set methods \<and>
    bs = [5, word_of_nat (length methods)] @ methods @
         [1, word_of_nat (length (srv_username s))] @ bytes_of_string (srv_username s) @
         [word_of_nat (length (srv_password s))] @ bytes_of_string (srv_password s) @ rest"
  using handled_after_auth [OF assms(1), of E c bs] assms(2,3) unfolding presented_def by blast

definition demo_server :: server where
  "demo_server = \<lparr>srv_username = ''u'', srv_password = ''p'', activeConns = None, conns = Map.empty\<rparr>"

definition open_server :: server where
  "open_server = \<lparr>srv_username = [], srv_password = [], activeConns = None, conns = Map.empty\<rparr>"

definition down_env :: net_env where
  "down_env = \<lparr>ne_dial = (\<lambda>_ _. Inl ErrTunnelDown), ne_local = ''127.0.0.1:9091'',
     ne_listen = (\<lambda>_. Inl ErrTunnelDown), ne_turns = [], ne_assoc = None\<rparr>"

definition up_env :: "(direction \<times> turn) list \<Rightarrow> net_env" where
  "up_env ts = \<lparr>ne_dial = (\<lambda>_ _. Inr ''10.0.0.2:4000''), ne_local = ''127.0.0.1:9091'',
     ne_listen = (\<lambda>_. Inr ''127.0.0.1:5000''), ne_turns = ts, ne_assoc = None\<rparr>"

definition fresh_conn :: conn where
  "fresh_conn = new_conn ''127.0.0.1:50000'' 0"

lemma parse_greeting_eval [parse_simps]:
  "parseClientGreeting m (5 # 1 # m' # rest) =
     (if m = m' then (Inr (), rest) else (Inl (ErrMsg ''no acceptable auth methods''), rest))"
  by (simp add: parseClientGreeting_def parse_simps socks5Version_def)

lemma parse_request_ipv4:
  "length ip = 4 \<Longrightarrow> parseClientRequest (v # cmd # rsv # 1 # ip @ x # y # rest) =
     (Inr \<lparr>command = cmd, destination = \<lparr>addrType = ipv4, addr = ip_string ip, port = be_uint16 x y\<rparr>\<rparr>, rest)"
  using parseSocksAddr_ipv4 [of ip "x # y # rest"]
  by (simp add: parseClientRequest_def parse_simps parsePort_bytes ipv4_def)

lemma parse_auth_up [parse_simps]:
  "parseClientAuth (1 # 1 # 117 # 1 # 112 # rest) = (Inr (''u'', ''p''), rest)"
  unfolding auth_iff by (simp add: bytes_of_string_def)

theorem outbound_requires_credentials_witness:
  "\<exists>methods rest. length methods < 256 \<and> passwordAuth \<in> set methods \<and>
    [5, 1, 2, 1, 1, 117, 1, 112, 5, 1, 0, 1, 10, 0, 0, 1, 0, 80] =
      [5, word_of_nat (length methods)] @ methods @
      [1, word_of_nat (length (srv_username demo_server))] @ bytes_of_string (srv_username demo_server) @
      [word_of_nat (length (srv_password demo_server))] @ bytes_of_string (srv_password demo_server) @ rest"
proof -
  let ?bs = "[5, 1, 2, 1, 1, 117, 1, 112, 5, 1, 0, 1, 10, 0, 0, 1, 0, 80] :: byte list"
  let ?a = "Dial ''tcp'' (hostPort \<lparr>addrType = ipv4, addr = ip_string [10, 0, 0, 1], port = be_uint16 0 80\<rparr>)"
  have auth: "needAuth demo_server" by (simp add: needAuth_def demo_server_def)
  have "?a \<in> set (o_actions (conn_Run demo_server down_env fresh_conn ?bs))"
    using auth parse_request_ipv4 [of "[10, 0, 0, 1]" 5 1 0 0 80 "[]"]
    by (simp add: conn_Run_def parse_simps handleRequest_def handleTCP_def demo_server_def down_env_def
        passwordAuth_def connect_def Let_def)
  from outbound_requires_credentials [OF auth this] show ?thesis by simp
qed

text \<open>C39: A client with a well-formed but wrong RFC 1929 packet is told so (status 1) and
  disconnected, and \<^verbatim>\<open>Run\<close> returns no error: \<^verbatim>\<open>Serve\<close> logs nothing about the failed login.\<close>

theorem wrong_credentials:
  assumes "needAuth s" and "passwordAuth \<in> set methods" and "length methods < 256"
    and "length u < 256" and "length p < 256" and "u \<noteq> srv_username s \<or> p \<noteq> srv_password s"
  shows "conn_Run s E c ([5, word_of_nat (length methods)] @ methods @
      [1, word_of_nat (length u)] @ bytes_of_string u @
      [word_of_nat (length p)] @ bytes_of_string p @ rest) =
    \<lparr>o_ret = Some None, o_conn = c, o_actions = [Write [5, 2], Write [1, 1]]\<rparr>"
proof -
  let ?tl = "[1, word_of_nat (length u)] @ bytes_of_string u @
      [word_of_nat (length p)] @ bytes_of_string p @ rest"
  let ?bs = "[5, word_of_nat (length methods)] @ methods @ ?tl"
  have g: "parseClientGreeting passwordAuth ?bs = (Inr (), ?tl)"
    unfolding greeting_iff using assms(2,3) by blast
  have a: "parseClientAuth ?tl = (Inr (u, p), rest)"
    unfolding auth_iff using assms(4,5) by simp
  have "conn_Run s E c ?bs = prefix_actions [Write [5, 2]] (stop None c [Write [1, 1]])"
    using assms(1,6) g a unfolding conn_Run_def Let_def
    by (simp del: append_Cons add: socks5Version_def passwordAuth_def)
  then show ?thesis by (simp add: prefix_actions_def stop_def)
qed

theorem wrong_credentials_witness:
  "conn_Run demo_server down_env fresh_conn ([5, word_of_nat (length [2 :: byte])] @ [2] @
      [1, word_of_nat (length ''u'')] @ bytes_of_string ''u'' @
      [word_of_nat (length ''q'')] @ bytes_of_string ''q'' @ []) =
    \<lparr>o_ret = Some None, o_conn = fresh_conn, o_actions = [Write [5, 2], Write [1, 1]]\<rparr>"
  by (rule wrong_credentials) (simp_all add: needAuth_def demo_server_def passwordAuth_def)

text \<open>C15: Bytes are relayed only after the requested address was dialled successfully and a
  success reply carrying the local end of that connection was the last thing written, provided
  the local end is an IP address or a name of at most 255 bytes.\<close>

theorem relay_after_success_reply:
  assumes "Relay \<in> set (o_actions (conn_Run s E c bs))"
    and "\<And>a la h p. ne_dial E ''tcp'' a = Inr la \<Longrightarrow> splitHostPort la = Inr (h, p) \<Longrightarrow>
           parse_ip h \<noteq> None \<or> length h \<le> 255"
  shows "\<exists>as d la h p ab. ne_dial E ''tcp'' d = Inr la \<and> splitHostPort la = Inr (h, p) \<and>
    socksAddr_marshal \<lparr>addrType = getAddrType h, addr = h, port = p\<rparr> = Inr ab \<and>
    dest (o_conn (conn_Run s E c bs)) = d \<and>
    o_actions (conn_Run s E c bs) = as @ [Dial ''tcp'' d, Write ([5, 0, 0] @ ab), Relay]"
proof -
  have tcp: "\<exists>d la h p. ne_dial E ''tcp'' d = Inr la \<and> splitHostPort la = Inr (h, p) \<and>
      dest (o_conn (handleRequest E c b)) = d \<and>
      o_actions (handleRequest E c b) = [Dial ''tcp'' d, Write (success_reply h p), Relay]"
    if "Relay \<in> set (o_actions (handleRequest E c b))" for b
    using that
    by (auto simp: handleRequest_def handleTCP_def handleUDP_def Let_def
        split: prod.splits sum.splits if_splits)
  obtain as b where run: "Relay \<in> set (o_actions (handleRequest E c b))"
    "o_actions (conn_Run s E c bs) = as @ o_actions (handleRequest E c b)"
    "o_conn (conn_Run s E c bs) = o_conn (handleRequest E c b)"
    using assms(1)
    by (auto simp: conn_Run_def Let_def split: prod.splits sum.splits if_splits)
  from tcp [OF run(1)] obtain d la h p where d: "ne_dial E ''tcp'' d = Inr la"
    "splitHostPort la = Inr (h, p)" "dest (o_conn (handleRequest E c b)) = d"
    "o_actions (handleRequest E c b) = [Dial ''tcp'' d, Write (success_reply h p), Relay]" by blast
  obtain ab where "success_reply h p = [5, 0, 0] @ ab"
    "socksAddr_marshal \<lparr>addrType = getAddrType h, addr = h, port = p\<rparr> = Inr ab"
    using success_reply_ok [of h p] assms(2) [OF d(1,2)] by blast
  with d run show ?thesis
    by (intro exI [of _ as] exI [of _ d] exI [of _ la] exI [of _ h] exI [of _ p] exI [of _ ab]) simp
qed

lemma split_up_local: "splitHostPort ''10.0.0.2:4000'' = Inr (''10.0.0.2'', 4000)"
  by code_simp

theorem relay_after_success_reply_witness:
  "\<exists>as d la h p ab. ne_dial (up_env []) ''tcp'' d = Inr la \<and> splitHostPort la = Inr (h, p) \<and>
    socksAddr_marshal \<lparr>addrType = getAddrType h, addr = h, port = p\<rparr> = Inr ab \<and>
    dest (o_conn (conn_Run open_server (up_env []) fresh_conn [5, 1, 0, 5, 1, 0, 1, 10, 0, 0, 1, 0, 80])) = d \<and>
    o_actions (conn_Run open_server (up_env []) fresh_conn [5, 1, 0, 5, 1, 0, 1, 10, 0, 0, 1, 0, 80]) =
      as @ [Dial ''tcp'' d, Write ([5, 0, 0] @ ab), Relay]"
proof (rule relay_after_success_reply)
  show "Relay \<in> set (o_actions (conn_Run open_server (up_env []) fresh_conn
      [5, 1, 0, 5, 1, 0, 1, 10, 0, 0, 1, 0, 80]))"
    using parse_request_ipv4 [of "[10, 0, 0, 1]" 5 1 0 0 80 "[]"]
    by (simp add: conn_Run_def needAuth_def open_server_def parse_simps noAuthRequired_def
        handleRequest_def handleTCP_def up_env_def connect_def split_up_local Let_def)
  show "parse_ip h \<noteq> None \<or> length h \<le> 255"
    if "ne_dial (up_env []) ''tcp'' a = Inr la" "splitHostPort la = Inr (h, p)" for a la h p
    using that by (auto simp: up_env_def split_up_local)
qed

text \<open>A request for any command other than CONNECT and UDP ASSOCIATE (BIND among them) is
  answered with the command-not-supported reply and an error, and opens nothing.\<close>

lemma unsupported_command:
  assumes "parseClientRequest bs = (Inr req, rest)" and "command req \<noteq> 1" and "command req \<noteq> 3"
  shows "o_actions (handleRequest E c bs) = [Write [5, 7, 0, 1, 0, 0, 0, 0, 0, 0]] \<and>
    (\<exists>e. o_ret (handleRequest E c bs) = Some (Some e)) \<and> o_conn (handleRequest E c bs) = c"
  using assms by (simp add: handleRequest_def socks_consts)

text \<open>C14: However the two copy loops interleave, each counter grows by exactly the number of
  bytes handed to its receiver (modulo \<open>2 ^ 64\<close>), what a receiver has is a prefix of what the
  other side sent, and while a direction is still copying nothing that was read is missing. The
  relay is over, for both directions, as soon as either has ended: a client that closes its sending
  side after a request does not get the rest of the answer.\<close>

theorem relay_counts_bytes:
  assumes "writer_ok ts"
  shows "ctr (rx (relay_run (relay_start c) ts)) =
      rxBytes c + word_of_nat (length (delivered (rx (relay_run (relay_start c) ts)))) \<and>
    ctr (tx (relay_run (relay_start c) ts)) =
      txBytes c + word_of_nat (length (delivered (tx (relay_run (relay_start c) ts)))) \<and>
    prefix (delivered (rx (relay_run (relay_start c) ts))) (stream_of Rx ts) \<and>
    prefix (delivered (tx (relay_run (relay_start c) ts))) (stream_of Tx ts) \<and>
    (cstatus (rx (relay_run (relay_start c) ts)) = Copying \<longrightarrow>
       delivered (rx (relay_run (relay_start c) ts)) = stream_of Rx ts) \<and>
    (cstatus (tx (relay_run (relay_start c) ts)) = Copying \<longrightarrow>
       delivered (tx (relay_run (relay_start c) ts)) = stream_of Tx ts) \<and>
    (first (relay_run (relay_start c) ts) = None \<longleftrightarrow>
       cstatus (rx (relay_run (relay_start c) ts)) = Copying \<and> cstatus (tx (relay_run (relay_start c) ts)) = Copying)"
  using relay_run_first [of "relay_start c" ts] copy_run_counts [OF writer_ok_turns [OF assms, of Rx], of "copy_start (rxBytes c)"]
    copy_run_counts [OF writer_ok_turns [OF assms, of Tx], of "copy_start (txBytes c)"]
  by (auto simp: relay_run_dirs relay_start_def copy_start_def stream_of_def)

theorem relay_counts_bytes_witness:
  "let ts = [(Rx, \<lparr>t_data = [1, 2, 3], t_end = Go_on, t_nw = 3, t_ew = None\<rparr>),
             (Tx, \<lparr>t_data = [9], t_end = Eof, t_nw = 1, t_ew = None\<rparr>)]
   in ctr (rx (relay_run (relay_start fresh_conn) ts)) =
        rxBytes fresh_conn + word_of_nat (length (delivered (rx (relay_run (relay_start fresh_conn) ts)))) \<and>
      delivered (rx (relay_run (relay_start fresh_conn) ts)) = [1, 2, 3]"
  unfolding Let_def
proof
  let ?ts = "[(Rx, \<lparr>t_data = [1, 2, 3], t_end = Go_on, t_nw = 3, t_ew = None\<rparr>),
             (Tx, \<lparr>t_data = [9], t_end = Eof, t_nw = 1, t_ew = None\<rparr>)]"
  have "writer_ok ?ts" by (simp add: writer_ok_def)
  from relay_counts_bytes [OF this]
  show "ctr (rx (relay_run (relay_start fresh_conn) ?ts)) =
    rxBytes fresh_conn + word_of_nat (length (delivered (rx (relay_run (relay_start fresh_conn) ?ts))))"
    by blast
  show "delivered (rx (relay_run (relay_start fresh_conn) ?ts)) = [1, 2, 3]"
    by (simp add: relay_run_def relay_turn_def copy_turn_def relay_start_def copy_start_def)
qed

text \<open>C26: In every interleaving of connection goroutines the registry holds exactly the
  connections whose goroutine is between registering and returning; so a snapshot lists each of
  them once, and nothing else. A row is what \<^verbatim>\<open>Run\<close> has made of a new connection with the answers
  it has so far: it names a method only once the request was read, which with credentials
  configured means that the client has presented them.\<close>

theorem snapshot_lists_running:
  assumes "serve_reach u p S" and "range_order (sv S) ord"
  shows "set ord = {i. running (gos S i)} \<and>
    length (server_Snapshot (sv S) ord) = card {i. running (gos S i)} \<and>
    (\<forall>k < length ord. \<exists>c E bs. gos S (ord ! k) = Some (Running E bs) \<and>
       server_Snapshot (sv S) ord ! k = conn_info c \<and>
       (c = new_conn (peer c) (startMs c) \<or> c = o_conn (conn_Run (sv S) E (new_conn (peer c) (startMs c)) bs)) \<and>
       (ci_method (server_Snapshot (sv S) ord ! k) \<noteq> [] \<longrightarrow> u \<noteq> [] \<or> p \<noteq> [] \<longrightarrow> presented u p bs))"
proof -
  have inv: "serve_inv u p S" using assms(1) by (rule serve_reach_inv)
  then have set: "set ord = {i. running (gos S i)}" and creds: "srv_username (sv S) = u" "srv_password (sv S) = p"
    using assms(2) by (simp_all add: serve_inv_def range_order_def)
  have len: "length ord = card (set ord)"
    using assms(2) distinct_card range_order_def by metis
  have row: "\<exists>c E bs. gos S (ord ! k) = Some (Running E bs) \<and>
       server_Snapshot (sv S) ord ! k = conn_info c \<and>
       (c = new_conn (peer c) (startMs c) \<or> c = o_conn (conn_Run (sv S) E (new_conn (peer c) (startMs c)) bs)) \<and>
       (ci_method (server_Snapshot (sv S) ord ! k) \<noteq> [] \<longrightarrow> u \<noteq> [] \<or> p \<noteq> [] \<longrightarrow> presented u p bs)"
    if k: "k < length ord" for k
  proof -
    have "running (gos S (ord ! k))" using set nth_mem [OF k] by simp
    from serve_running [OF inv this] obtain c E bs where c: "gos S (ord ! k) = Some (Running E bs)"
      "conns (sv S) (ord ! k) = Some c" "conn_ok (sv S) (Running E bs) c" by blast
    moreover have "server_Snapshot (sv S) ord ! k = conn_info c" using k c(2) by (simp add: server_Snapshot_def)
    moreover have "ci_method (conn_info c) = conn_method c" by (simp add: conn_info_def)
    ultimately show ?thesis using conn_ok_method [OF c(3)] creds conn_ok_Running [OF c(3)] by metis
  qed
  have "length (server_Snapshot (sv S) ord) = card {i. running (gos S i)}"
    using len set by (simp add: server_Snapshot_def)
  with set row show ?thesis by blast
qed

theorem snapshot_lists_running_witness:
  "\<exists>S. serve_reach [] [] S \<and> length (server_Snapshot (sv S) [7]) = card {i. running (gos S i)} \<and>
     running (gos S 7)"
proof -
  let ?S0 = "serve_init [] []"
  let ?S1 = "?S0\<lparr>sv := (sv ?S0)\<lparr>conns := (conns (sv ?S0))(7 \<mapsto> new_conn ''a'' 0)\<rparr>, gos := (gos ?S0)(7 \<mapsto> Spawned)\<rparr>"
  let ?S2 = "?S1\<lparr>sv := register (sv ?S1) 7, gos := (gos ?S1)(7 \<mapsto> Running (up_env []) [5, 1, 0])\<rparr>"
  have "serve_step ?S0 ?S1" by (rule serve_step.accept) (simp add: serve_init_def)
  then have "serve_reach [] [] ?S1" by (rule serve_reach.step [OF serve_reach.start])
  moreover have "serve_step ?S1 ?S2" by (rule serve_step.begin_run) (simp_all add: up_env_def)
  ultimately have r: "serve_reach [] [] ?S2" by (rule serve_reach.step)
  moreover have "range_order (sv ?S2) [7]"
  proof -
    have "active (sv ?S1) = {}" by (simp add: active_def serve_init_def)
    moreover have "sv ?S2 = register (sv ?S1) 7" by simp
    ultimately show ?thesis unfolding range_order_def by (simp only: active_register) simp
  qed
  ultimately show ?thesis using snapshot_lists_running [OF r, of "[7]"]
    by (intro exI [of _ ?S2]) simp
qed

end
