(* ===== verification/SocksListener.thy ===== *)
theory SocksListener
  imports Tunnel SocksServer
begin

text \<open>
  The SOCKS5 listener of src/socks_listener.go: its record, \<^verbatim>\<open>Start\<close>, \<^verbatim>\<open>Stop\<close>, \<^verbatim>\<open>Addr\<close>,
  \<^verbatim>\<open>Snapshot\<close> and \<^verbatim>\<open>ActiveConnCount\<close>, the dialer it hands to the server with the DNS override,
  and the interleaving of the calls with the two goroutines of each \<^verbatim>\<open>Start\<close> (the one that
  closes the socket when its context ends, and the accept loop). What the dialer needs of the
  tunnel is the locale \<open>outbound\<close>. Listening sockets are numbers; log output is left out.
\<close>

section \<open>The dialer\<close>

record socksOpts =
  so_Username :: string
  so_Password :: string
  so_DNSResolverIP :: "byte list option"

text \<open>
  \<^verbatim>\<open>buildDNSOverride\<close>: a resolver is the dial function it sends its queries through; the
  address the resolver wants to ask is ignored.
\<close>

type_synonym 'c dial_fun = "string \<Rightarrow> string \<Rightarrow> 'c result"

definition buildDNSOverride :: "'c dial_fun \<Rightarrow> socksOpts \<Rightarrow> 'c dial_fun option" where
  "buildDNSOverride tdial opts =
     map_option (\<lambda>ip network _. tdial network (join_host_port (ip_string ip) ''53'')) (so_DNSResolverIP opts)"

text \<open>
  The \<^verbatim>\<open>Dialer\<close> of the server. \<open>resolve\<close> is \<^verbatim>\<open>Resolver.LookupIP\<close>: resolver, kind of address,
  host.
\<close>

definition Dialer ::
  "'c dial_fun \<Rightarrow> ('c dial_fun \<Rightarrow> string \<Rightarrow> string \<Rightarrow> byte list list result) \<Rightarrow> 'c dial_fun option \<Rightarrow> 'c dial_fun" where
  "Dialer tdial resolve dnsOverride network address =
     (case dnsOverride of
        None \<Rightarrow> tdial network address
      | Some resolver \<Rightarrow>
          (case split_host_port address of
             Inl _ \<Rightarrow> tdial network address
           | Inr (host, prt) \<Rightarrow>
               if parse_ip host \<noteq> None then tdial network address
               else (case resolve resolver ''ip4'' host of
                   Inl e \<Rightarrow> Inl (ErrWrap (''dns lookup '' @ host @ '' via override: '') e [])
                 | Inr [] \<Rightarrow> Inl (ErrMsg (''dns lookup '' @ host @ '' via override: no A records''))
                 | Inr (ip # ips) \<Rightarrow> tdial network (join_host_port (ip_string ip) prt))))"

text \<open>What a listener relies on: a tunnel that is not up refuses every dial as down.\<close>

locale outbound =
  fixes up :: "'t \<Rightarrow> bool" and dial :: "'t \<Rightarrow> 'c dial_fun"
  assumes dial_down: "\<not> up t \<Longrightarrow> dial t network a = Inl ErrTunnelDown"
begin

lemma dialer_down: "\<not> up t \<Longrightarrow> \<exists>e. Dialer (dial t) resolve ovr network a = Inl e"
  by (auto simp: Dialer_def dial_down split: option.splits sum.splits list.splits prod.splits)

lemma dialer_down_plain: "\<not> up t \<Longrightarrow> Dialer (dial t) resolve None network a = Inl ErrTunnelDown"
  by (simp add: Dialer_def dial_down)

lemma override_down:
  "\<not> up t \<Longrightarrow> buildDNSOverride (dial t) opts = Some r \<Longrightarrow> r network x = Inl ErrTunnelDown"
  by (auto simp: buildDNSOverride_def dial_down)

end

interpretation tn: outbound "\<lambda>t. netNet t \<noteq> None" "Tunnel_Dial netdial" for netdial
  by unfold_locales (simp add: Tunnel_Dial_def)

section \<open>The listener\<close>

type_synonym sock_id = nat

record socksListener =
  l_addr :: string
  l_opts :: socksOpts
  l_listener :: "(sock_id \<times> string) option"   \<comment> \<open>the socket and the address it is bound to\<close>
  l_server :: "serve_state option"
  l_started :: bool
  l_startErr :: "gerror option"

definition NewSocksListener :: "string \<Rightarrow> socksOpts \<Rightarrow> socksListener" where
  "NewSocksListener a opts =
     \<lparr>l_addr = a, l_opts = opts, l_listener = None, l_server = None, l_started = False,
      l_startErr = None\<rparr>"

definition Addr :: "socksListener \<Rightarrow> string" where
  "Addr l = (case l_listener l of Some (_, a) \<Rightarrow> a | None \<Rightarrow> l_addr l)"

text \<open>
  The listener and what its goroutines share: the open sockets, the running accept loops, the
  listener contexts ended by \<^verbatim>\<open>cancel\<close>, the context each \<^verbatim>\<open>Start\<close> was given and the contexts
  that are done.
\<close>

record listener_world =
  lst :: socksListener
  socks_open :: "sock_id set"
  accepting :: "sock_id set"
  own_done :: "sock_id set"
  parent_ctx :: "sock_id \<Rightarrow> nat"
  ctx_done :: "nat set"

definition Start ::
  "nat \<Rightarrow> (string \<Rightarrow> (sock_id \<times> string) env_result) \<Rightarrow> listener_world \<Rightarrow> gerror option \<times> listener_world" where
  "Start ctx listen w =
     (let l = lst w
      in if l_started l then (None, w)
         else (case listen (l_addr l) of
             Inl e \<Rightarrow>
               (Some (ErrWrap (''listen on '' @ l_addr l @ '': '') (ErrEnv e) []),
                w\<lparr>lst := l\<lparr>l_startErr := Some (ErrEnv e)\<rparr>\<rparr>)
           | Inr (s, bound) \<Rightarrow>
               (None,
                w\<lparr>lst := l\<lparr>l_listener := Some (s, bound),
                           l_server := Some (serve_init (so_Username (l_opts l)) (so_Password (l_opts l))),
                           l_started := True, l_startErr := None\<rparr>,
                  socks_open := insert s (socks_open w), accepting := insert s (accepting w),
                  parent_ctx := (parent_ctx w)(s := ctx)\<rparr>)))"

text \<open>\<^verbatim>\<open>Stop\<close> up to its wait; it then waits until the accept loop of the socket has ended.\<close>

definition Stop :: "listener_world \<Rightarrow> listener_world" where
  "Stop w =
     (let l = lst w
      in if \<not> l_started l then w
         else w\<lparr>lst := l\<lparr>l_started := False, l_listener := None, l_server := None\<rparr>,
                own_done := (case l_listener l of Some (s, _) \<Rightarrow> insert s (own_done w) | None \<Rightarrow> own_done w)\<rparr>)"

definition Stop_returns :: "listener_world \<Rightarrow> sock_id option \<Rightarrow> bool" where
  "Stop_returns w s \<longleftrightarrow> (case s of None \<Rightarrow> True | Some i \<Rightarrow> i \<notin> accepting w)"

section \<open>Snapshots\<close>

record listenerStatus =
  ls_Bound :: bool
  ls_Addr :: string
  ls_LastError :: string
  ls_Conns :: "connInfo list option"     \<comment> \<open>\<open>None\<close> is the nil slice\<close>

definition Listener_Snapshot :: "conn_id list \<Rightarrow> socksListener \<Rightarrow> listenerStatus" where
  "Listener_Snapshot ord l =
     \<lparr>ls_Bound = l_started l,
      ls_Addr = (case l_listener l of Some (_, a) \<Rightarrow> a | None \<Rightarrow> l_addr l),
      ls_LastError = (case l_startErr l of None \<Rightarrow> [] | Some e \<Rightarrow> error_text e),
      ls_Conns = map_option (\<lambda>S. server_Snapshot (sv S) ord) (l_server l)\<rparr>"

definition ActiveConnCount :: "socksListener \<Rightarrow> nat" where
  "ActiveConnCount l = (case l_server l of None \<Rightarrow> 0 | Some S \<Rightarrow> card (active (sv S)))"

section \<open>Interleaving\<close>

text \<open>
  What the goroutines do by themselves: the closing one, the accept loop ending after its socket
  was closed or on an error of its own (\<^verbatim>\<open>Serve\<close> then closes the socket), and a step of the
  server.
\<close>

inductive listener_bg :: "listener_world \<Rightarrow> listener_world \<Rightarrow> bool" where
  closer: "s \<in> own_done w \<or> parent_ctx w s \<in> ctx_done w \<Longrightarrow>
     listener_bg w (w\<lparr>socks_open := socks_open w - {s}\<rparr>)"
| accept_closed: "s \<notin> socks_open w \<Longrightarrow>
     listener_bg w (w\<lparr>accepting := accepting w - {s}\<rparr>)"
| accept_error:
     "listener_bg w (w\<lparr>accepting := accepting w - {s}, socks_open := socks_open w - {s}\<rparr>)"
| serve: "l_server (lst w) = Some S \<Longrightarrow> serve_step S T \<Longrightarrow>
     listener_bg w (w\<lparr>lst := (lst w)\<lparr>l_server := Some T\<rparr>\<rparr>)"

text \<open>A new socket has a number not used before.\<close>

definition fresh_socket :: "(string \<Rightarrow> (sock_id \<times> string) env_result) \<Rightarrow> listener_world \<Rightarrow> bool" where
  "fresh_socket listen w \<longleftrightarrow>
     (\<forall>a s b. listen a = Inr (s, b) \<longrightarrow> s \<notin> socks_open w \<union> accepting w \<union> own_done w)"

inductive listener_step :: "listener_world \<Rightarrow> listener_world \<Rightarrow> bool" where
  start: "Start ctx listen w = (err, w') \<Longrightarrow> fresh_socket listen w \<Longrightarrow> listener_step w w'"
| stop: "listener_step w (Stop w)"
| ctx_end: "listener_step w (w\<lparr>ctx_done := insert k (ctx_done w)\<rparr>)"
| background: "listener_bg w w' \<Longrightarrow> listener_step w w'"

definition listener_init :: "string \<Rightarrow> socksOpts \<Rightarrow> listener_world" where
  "listener_init a opts =
     \<lparr>lst = NewSocksListener a opts, socks_open = {}, accepting = {}, own_done = {},
      parent_ctx = (\<lambda>_. 0), ctx_done = {}\<rparr>"

inductive listener_reach :: "string \<Rightarrow> socksOpts \<Rightarrow> listener_world \<Rightarrow> bool" for a opts where
  init: "listener_reach a opts (listener_init a opts)"
| step: "listener_reach a opts w \<Longrightarrow> listener_step w w' \<Longrightarrow> listener_reach a opts w'"

section \<open>The invariant\<close>

definition current :: "listener_world \<Rightarrow> sock_id set" where
  "current w = (case l_listener (lst w) of None \<Rightarrow> {} | Some (s, _) \<Rightarrow> {s})"

definition listener_inv :: "string \<Rightarrow> socksOpts \<Rightarrow> listener_world \<Rightarrow> bool" where
  "listener_inv a opts w \<longleftrightarrow>
     l_addr (lst w) = a \<and> l_opts (lst w) = opts \<and>
     (case l_server (lst w) of
        None \<Rightarrow> \<not> l_started (lst w) \<and> l_listener (lst w) = None
      | Some S \<Rightarrow> l_started (lst w) \<and> l_listener (lst w) \<noteq> None \<and> l_startErr (lst w) = None \<and>
          serve_reach (so_Username opts) (so_Password opts) S) \<and>
     socks_open w \<subseteq> accepting w \<and> accepting w \<subseteq> current w \<union> own_done w \<and>
     current w \<inter> own_done w = {}"

lemma listener_inv_init: "listener_inv a opts (listener_init a opts)"
  by (simp add: listener_inv_def listener_init_def NewSocksListener_def)

lemma listener_inv_start:
  assumes "Start ctx listen w = (err, w')" and "listener_inv a opts w"
    and "fresh_socket listen w"
  shows "listener_inv a opts w'"
proof (cases "l_started (lst w)")
  case True
  with assms show ?thesis by (simp add: Start_def)
next
  case False
  then have off: "l_server (lst w) = None" "l_listener (lst w) = None"
    using assms(2) by (auto simp: listener_inv_def split: option.splits)
  show ?thesis
  proof (cases "listen (l_addr (lst w))")
    case (Inl e)
    with False assms off show ?thesis by (auto simp: Start_def listener_inv_def current_def)
  next
    case (Inr sb)
    obtain s b where sb: "sb = (s, b)" by (cases sb)
    with assms(3) Inr have "s \<notin> own_done w" by (auto simp: fresh_socket_def)
    with False assms(1,2) off Inr sb show ?thesis
      by (auto simp: Start_def listener_inv_def current_def intro: serve_reach.start)
  qed
qed

lemma listener_inv_stop: "listener_inv a opts w \<Longrightarrow> listener_inv a opts (Stop w)"
  by (auto simp: Stop_def listener_inv_def current_def Let_def split: option.splits)

lemma listener_inv_bg: "listener_bg w w' \<Longrightarrow> listener_inv a opts w \<Longrightarrow> listener_inv a opts w'"
proof (induction rule: listener_bg.induct)
  case (serve w S T)
  then have "serve_reach (so_Username opts) (so_Password opts) T"
    by (auto simp: listener_inv_def intro: serve_reach.step)
  with serve show ?case by (simp add: listener_inv_def current_def)
qed (auto simp: listener_inv_def current_def split: option.splits)

lemma listener_inv_step: "listener_step w w' \<Longrightarrow> listener_inv a opts w \<Longrightarrow> listener_inv a opts w'"
proof (induction rule: listener_step.induct)
  case (start ctx listen w err w')
  then show ?case by (blast intro: listener_inv_start)
next
  case (stop w)
  then show ?case by (rule listener_inv_stop)
next
  case (ctx_end w k)
  then show ?case by (simp add: listener_inv_def current_def split: option.splits)
next
  case (background w w')
  then show ?case by (rule listener_inv_bg)
qed

interpretation listener_m: machine listener_step "listener_reach a opts" "listener_init a opts" for a opts
  by unfold_locales (rule listener_reach.init, erule (1) listener_reach.step, erule listener_reach.induct, blast+)

lemma listener_reach_inv: "listener_reach a opts w \<Longrightarrow> listener_inv a opts w"
  by (erule listener_m.invariant) (rule listener_inv_init, rule listener_inv_step)

lemma Stop_Stop [simp]: "Stop (Stop w) = Stop w"
  by (simp add: Stop_def Let_def)

lemma listener_started:
  assumes "listener_inv a opts w" and "l_started (lst w)"
  obtains s b S where "l_listener (lst w) = Some (s, b)" "l_server (lst w) = Some S"
    "serve_reach (so_Username opts) (so_Password opts) S" "l_startErr (lst w) = None"
  using assms by (auto simp: listener_inv_def split: option.splits)

lemma listener_stopped:
  "listener_inv a opts w \<Longrightarrow> \<not> l_started (lst w) \<Longrightarrow> l_listener (lst w) = None \<and> l_server (lst w) = None"
  by (auto simp: listener_inv_def split: option.splits)

text \<open>Starting a fresh listener on a free socket.\<close>

definition demo_opts :: socksOpts where
  "demo_opts = \<lparr>so_Username = [], so_Password = [], so_DNSResolverIP = Some [9, 9, 9, 9]\<rparr>"

definition demo_started :: listener_world where
  "demo_started = snd (Start 1 (\<lambda>a. Inr (0, a)) (listener_init ''127.0.0.1:1081'' demo_opts))"

lemma demo_started_reach: "listener_reach ''127.0.0.1:1081'' demo_opts demo_started"
proof (rule listener_reach.step [OF listener_reach.init])
  show "listener_step (listener_init ''127.0.0.1:1081'' demo_opts) demo_started"
    unfolding demo_started_def
    by (rule listener_step.start [of 1 "\<lambda>a. Inr (0, a)" _ "fst (Start 1 (\<lambda>a. Inr (0, a)) (listener_init ''127.0.0.1:1081'' demo_opts))"])
      (simp_all add: listener_init_def fresh_socket_def)
qed

lemma demo_started_fields:
  "l_started (lst demo_started)" "l_listener (lst demo_started) = Some (0, ''127.0.0.1:1081'')"
  "socks_open demo_started = {0}" "accepting demo_started = {0}" "parent_ctx demo_started 0 = 1"
  "l_addr (lst demo_started) = ''127.0.0.1:1081''"
  by (simp_all add: demo_started_def Start_def listener_init_def NewSocksListener_def)

section \<open>Properties\<close>

text \<open>C18: In every interleaving: the listener reports itself bound iff it has a socket, and iff it
  has a server; then the address it reports is the bound one, there is no error, and the server has
  the configured credentials and is in a state that its accept loop and connections can reach; when
  it is not bound it reports the configured address and no connections; every other socket that is still open
  belongs to a stopped start, whose context is done; a socket is open only while its accept loop
  runs, so when \<^verbatim>\<open>Stop\<close> has returned from every start nothing listens; the count of active
  connections is the number the snapshot lists.\<close>

theorem listener_sockets:
  assumes "listener_reach a opts w"
  shows "(ls_Bound (Listener_Snapshot ord (lst w)) \<longleftrightarrow> l_listener (lst w) \<noteq> None) \<and>
    (ls_Bound (Listener_Snapshot ord (lst w)) \<longleftrightarrow> l_server (lst w) \<noteq> None) \<and>
    (ls_Bound (Listener_Snapshot ord (lst w)) \<longrightarrow>
       (\<exists>s. l_listener (lst w) = Some (s, ls_Addr (Listener_Snapshot ord (lst w))) \<and>
            (\<forall>s' \<in> socks_open w - {s}. s' \<in> own_done w)) \<and>
       (\<exists>S. l_server (lst w) = Some S \<and> serve_reach (so_Username opts) (so_Password opts) S \<and>
            srv_username (sv S) = so_Username opts \<and> srv_password (sv S) = so_Password opts) \<and>
       ls_LastError (Listener_Snapshot ord (lst w)) = []) \<and>
    (\<not> ls_Bound (Listener_Snapshot ord (lst w)) \<longrightarrow>
       socks_open w \<subseteq> own_done w \<and> ls_Addr (Listener_Snapshot ord (lst w)) = a \<and>
       ls_Conns (Listener_Snapshot ord (lst w)) = None) \<and>
    (accepting w = {} \<longrightarrow> socks_open w = {}) \<and>
    (\<forall>S. l_server (lst w) = Some S \<longrightarrow> range_order (sv S) ord \<longrightarrow>
       ls_Conns (Listener_Snapshot ord (lst w)) = Some (server_Snapshot (sv S) ord) \<and>
       length (server_Snapshot (sv S) ord) = ActiveConnCount (lst w))"
proof -
  have inv: "listener_inv a opts w" using assms by (rule listener_reach_inv)
  have "distinct ord \<and> set ord = active (sv S) \<Longrightarrow> length ord = card (active (sv S))" for S
    using distinct_card by metis
  moreover have "serve_reach u p S \<Longrightarrow> srv_username (sv S) = u \<and> srv_password (sv S) = p" for u p S
    using serve_reach_inv [of u p S] by (simp add: serve_inv_def)
  ultimately show ?thesis
    using inv by (cases "l_server (lst w)")
      (auto simp: listener_inv_def Listener_Snapshot_def ActiveConnCount_def current_def
        range_order_def server_Snapshot_def split: option.splits)
qed

theorem listener_sockets_witness:
  "ls_Bound (Listener_Snapshot [] (lst demo_started)) \<and>
     ls_Addr (Listener_Snapshot [] (lst demo_started)) = ''127.0.0.1:1081'' \<and>
     ls_LastError (Listener_Snapshot [] (lst demo_started)) = [] \<and>
     l_server (lst demo_started) \<noteq> None"
  using listener_sockets [OF demo_started_reach, of "[]"] demo_started_fields by auto

text \<open>When the context given to \<^verbatim>\<open>Start\<close> ends, the listener's own goroutines alone can bring
  it to a state with its socket closed and its accept loop ended in which it still reports itself
  bound, and in which every further \<^verbatim>\<open>Start\<close> returns nil without listening.\<close>

lemma canceled_listener_stays_started:
  assumes "listener_reach a opts w" and "l_listener (lst w) = Some (s, b)"
    and "parent_ctx w s \<in> ctx_done w"
  shows "\<exists>w'. listener_step\<^sup>*\<^sup>* w w' \<and> listener_reach a opts w' \<and>
    s \<notin> socks_open w' \<and> s \<notin> accepting w' \<and>
    ls_Bound (Listener_Snapshot ord (lst w')) \<and> ls_Addr (Listener_Snapshot ord (lst w')) = b \<and>
    (\<forall>ctx listen. Start ctx listen w' = (None, w'))"
proof -
  let ?w1 = "w\<lparr>socks_open := socks_open w - {s}\<rparr>"
  let ?w2 = "?w1\<lparr>accepting := accepting ?w1 - {s}\<rparr>"
  have s1: "listener_step w ?w1" by (rule listener_step.background, rule listener_bg.closer) (simp add: assms(3))
  have s2: "listener_step ?w1 ?w2" by (rule listener_step.background, rule listener_bg.accept_closed) simp
  have "listener_step\<^sup>*\<^sup>* w ?w2" using s1 s2 by (meson r_into_rtranclp rtranclp.rtrancl_into_rtrancl)
  moreover have "listener_reach a opts ?w2"
    by (rule listener_reach.step [OF listener_reach.step [OF assms(1) s1] s2])
  moreover have "l_started (lst w)"
    using listener_reach_inv [OF assms(1)] assms(2) by (auto simp: listener_inv_def split: option.splits)
  ultimately show ?thesis
    by (intro exI [of _ ?w2]) (simp add: Listener_Snapshot_def Start_def assms(2))
qed

text \<open>C32: \<^verbatim>\<open>Start\<close> on a started listener and \<^verbatim>\<open>Stop\<close> on a stopped one do nothing. A \<^verbatim>\<open>Start\<close>
  that cannot bind leaves the listener stopped and reports why. \<^verbatim>\<open>Start\<close> after \<^verbatim>\<open>Stop\<close> binds
  the configured address again, with a server that has the configured credentials and no
  connections. But when the context given to \<^verbatim>\<open>Start\<close> has ended, the listener's own goroutines alone
  can bring it to a state with its socket closed and its accept loop ended in which it still
  reports itself bound, and in which every further \<^verbatim>\<open>Start\<close> returns nil without listening.\<close>

theorem start_stop_contract:
  assumes "listener_reach a opts w"
  shows "(l_started (lst w) \<longrightarrow> Start ctx listen w = (None, w)) \<and>
    (\<not> l_started (lst w) \<longrightarrow> Stop w = w) \<and> \<not> l_started (lst (Stop w)) \<and>
    (case listen a of
       Inl e \<Rightarrow> fst (Start ctx listen (Stop w)) = Some (ErrWrap (''listen on '' @ a @ '': '') (ErrEnv e) []) \<and>
         \<not> l_started (lst (snd (Start ctx listen (Stop w)))) \<and>
         ls_LastError (Listener_Snapshot ord (lst (snd (Start ctx listen (Stop w))))) = ee_text e
     | Inr (s, b) \<Rightarrow> fst (Start ctx listen (Stop w)) = None \<and>
         Addr (lst (snd (Start ctx listen (Stop w)))) = b \<and>
         s \<in> socks_open (snd (Start ctx listen (Stop w))) \<and>
         l_server (lst (snd (Start ctx listen (Stop w)))) = Some (serve_init (so_Username opts) (so_Password opts)) \<and>
         ActiveConnCount (lst (snd (Start ctx listen (Stop w)))) = 0) \<and>
    (\<forall>s b. l_listener (lst w) = Some (s, b) \<and> parent_ctx w s \<in> ctx_done w \<longrightarrow>
       (\<exists>w'. listener_step\<^sup>*\<^sup>* w w' \<and> s \<notin> socks_open w' \<and> s \<notin> accepting w' \<and>
          ls_Bound (Listener_Snapshot ord (lst w')) \<and> Start ctx listen w' = (None, w')))"
proof -
  have inv: "listener_inv a opts w" using assms by (rule listener_reach_inv)
  have stopped: "\<not> l_started (lst (Stop w))" by (simp add: Stop_def Let_def)
  have cfg: "l_addr (lst (Stop w)) = a" "l_opts (lst (Stop w)) = opts"
    using inv by (simp_all add: listener_inv_def Stop_def Let_def)
  have late: "\<exists>w'. listener_step\<^sup>*\<^sup>* w w' \<and> s \<notin> socks_open w' \<and> s \<notin> accepting w' \<and>
      ls_Bound (Listener_Snapshot ord (lst w')) \<and> Start ctx listen w' = (None, w')"
    if "l_listener (lst w) = Some (s, b) \<and> parent_ctx w s \<in> ctx_done w" for s b
    using canceled_listener_stays_started [OF assms, of s b ord] that by blast
  show ?thesis
  proof (intro conjI allI impI)
    show "case listen a of
       Inl e \<Rightarrow> fst (Start ctx listen (Stop w)) = Some (ErrWrap (''listen on '' @ a @ '': '') (ErrEnv e) []) \<and>
         \<not> l_started (lst (snd (Start ctx listen (Stop w)))) \<and>
         ls_LastError (Listener_Snapshot ord (lst (snd (Start ctx listen (Stop w))))) = ee_text e
     | Inr (s, b) \<Rightarrow> fst (Start ctx listen (Stop w)) = None \<and>
         Addr (lst (snd (Start ctx listen (Stop w)))) = b \<and>
         s \<in> socks_open (snd (Start ctx listen (Stop w))) \<and>
         l_server (lst (snd (Start ctx listen (Stop w)))) = Some (serve_init (so_Username opts) (so_Password opts)) \<and>
         ActiveConnCount (lst (snd (Start ctx listen (Stop w)))) = 0"
      using stopped cfg
      by (auto simp: Start_def Let_def Addr_def Listener_Snapshot_def ActiveConnCount_def serve_init_def
          active_def split: sum.split)
  qed (use stopped late in \<open>auto simp: Start_def Stop_def Let_def\<close>)
qed

theorem start_stop_contract_witness:
  "Start 5 (\<lambda>a. Inr (1, a)) demo_started = (None, demo_started) \<and>
     Addr (lst (snd (Start 5 (\<lambda>a. Inr (1, a)) (Stop demo_started)))) = ''127.0.0.1:1081'' \<and>
     (let w = demo_started\<lparr>ctx_done := insert 1 (ctx_done demo_started)\<rparr>
      in \<exists>w'. listener_step\<^sup>*\<^sup>* w w' \<and> 0 \<notin> socks_open w' \<and> ls_Bound (Listener_Snapshot [] (lst w')))"
proof -
  let ?w = "demo_started\<lparr>ctx_done := insert 1 (ctx_done demo_started)\<rparr>"
  have r: "listener_reach ''127.0.0.1:1081'' demo_opts ?w"
    by (rule listener_reach.step [OF demo_started_reach]) (rule listener_step.ctx_end)
  have "l_listener (lst ?w) = Some (0, ''127.0.0.1:1081'') \<and> parent_ctx ?w 0 \<in> ctx_done ?w"
    using demo_started_fields by simp
  with start_stop_contract [OF r, of 5 "\<lambda>a. Inr (1, a)" "[]"]
  have "\<exists>w'. listener_step\<^sup>*\<^sup>* ?w w' \<and> 0 \<notin> socks_open w' \<and> ls_Bound (Listener_Snapshot [] (lst w'))" by blast
  with start_stop_contract [OF demo_started_reach, of 5 "\<lambda>a. Inr (1, a)"] demo_started_fields show ?thesis
    by (simp add: Let_def)
qed

text \<open>What the dialer does with the address of a request, override or not.\<close>

lemma Dialer_no_override:
  "so_DNSResolverIP opts = None \<Longrightarrow>
    Dialer f resolve (buildDNSOverride f opts) network address = f network address"
  by (simp add: Dialer_def buildDNSOverride_def)

lemma Dialer_override:
  assumes "so_DNSResolverIP opts = Some dns"
  shows "Dialer f resolve (buildDNSOverride f opts) network (hostPort d) =
    (case target_host (addr d) of
       None \<Rightarrow> f network (hostPort d)
     | Some h \<Rightarrow>
         if parse_ip h \<noteq> None then f network (hostPort d)
         else case resolve (\<lambda>nw _. f nw (join_host_port (ip_string dns) ''53'')) ''ip4'' h of
             Inl e \<Rightarrow> Inl (ErrWrap (''dns lookup '' @ h @ '' via override: '') e [])
           | Inr [] \<Rightarrow> Inl (ErrMsg (''dns lookup '' @ h @ '' via override: no A records''))
           | Inr (ip # ips) \<Rightarrow> f network (join_host_port (ip_string ip) (itoa (int (unat (port d))))))"
proof -
  have split: "case target_host (addr d) of
      Some h \<Rightarrow> split_host_port (hostPort d) = Inr (h, itoa (int (unat (port d))))
    | None \<Rightarrow> \<not> is_ok (split_host_port (hostPort d))"
    unfolding hostPort_def by (rule split_target_host) (simp_all add: itoa_no_punct)
  then show ?thesis
    by (auto simp: Dialer_def buildDNSOverride_def assms split: option.splits sum.splits list.splits)
qed

text \<open>C19: What a listener with a DNS override does with the address of a request, whatever it is. A
  request for an IP literal is dialled as it is; a request for a name is dialled at the first address
  the resolver answers, with the port unchanged, and is refused if there is none, and the name
  itself is never given to the tunnel: two tunnels that agree on addresses made of IP literals are
  used alike. The one exception is an address with a bracket in it that is not merely a name or IPv4
  literal put in brackets (\<open>target_host\<close> is \<open>None\<close>): \<^verbatim>\<open>SplitHostPort\<close> fails on it,
  its error is ignored, and the address goes to the tunnel unresolved.\<close>

theorem override_dials_literals:
  assumes "so_DNSResolverIP opts = Some dns"
  shows "case target_host (addr d) of
      None \<Rightarrow> Dialer tdial resolve (buildDNSOverride tdial opts) network (hostPort d) = tdial network (hostPort d)
    | Some h \<Rightarrow>
        (parse_ip h \<noteq> None \<longrightarrow>
          Dialer tdial resolve (buildDNSOverride tdial opts) network (hostPort d) = tdial network (hostPort d)) \<and>
        (parse_ip h = None \<longrightarrow>
          (case resolve (\<lambda>nw _. tdial nw (join_host_port (ip_string dns) ''53'')) ''ip4'' h of
             Inr (ip # _) \<Rightarrow> Dialer tdial resolve (buildDNSOverride tdial opts) network (hostPort d) =
               tdial network (join_host_port (ip_string ip) (itoa (int (unat (port d)))))
           | _ \<Rightarrow> \<not> is_ok (Dialer tdial resolve (buildDNSOverride tdial opts) network (hostPort d))) \<and>
          ((\<forall>nw ip p. tdial nw (join_host_port (ip_string ip) p) = tdial' nw (join_host_port (ip_string ip) p)) \<longrightarrow>
            Dialer tdial resolve (buildDNSOverride tdial opts) network (hostPort d) =
            Dialer tdial' resolve (buildDNSOverride tdial' opts) network (hostPort d)))"
  unfolding Dialer_override [OF assms] by (auto split: option.split sum.split list.split)

theorem override_dials_literals_witness:
  "Dialer (\<lambda>nw a. Inr a) (\<lambda>_ _ _. Inr [[10, 1, 2, 3]]) (buildDNSOverride (\<lambda>nw a. Inr a) demo_opts) ''tcp''
      (hostPort \<lparr>addrType = domainName, addr = ''example.org'', port = 443\<rparr>) =
     Inr (join_host_port (ip_string [10, 1, 2, 3]) (itoa 443)) \<and>
   Dialer (\<lambda>nw a. Inr a) (\<lambda>_ _ _. Inr [[10, 1, 2, 3]]) (buildDNSOverride (\<lambda>nw a. Inr a) demo_opts) ''tcp''
      (hostPort \<lparr>addrType = domainName, addr = ''a[b'', port = 443\<rparr>) = Inr ''a[b:443''"
proof -
  have dns: "so_DNSResolverIP demo_opts = Some [9, 9, 9, 9]" by (simp add: demo_opts_def)
  have "target_host ''example.org'' = Some ''example.org''" "parse_ip ''example.org'' = None"
    "target_host ''a[b'' = None" "hostPort \<lparr>addrType = domainName, addr = ''a[b'', port = 443\<rparr> = ''a[b:443''"
    by code_simp+
  then show ?thesis
    using override_dials_literals [OF dns, where d = "\<lparr>addrType = domainName, addr = ''example.org'', port = 443\<rparr>"
        and tdial = "\<lambda>nw a. Inr a" and resolve = "\<lambda>_ _ _. Inr [[10, 1, 2, 3]]" and network = "''tcp''"]
      override_dials_literals [OF dns, where d = "\<lparr>addrType = domainName, addr = ''a[b'', port = 443\<rparr>"
        and tdial = "\<lambda>nw a. Inr a" and resolve = "\<lambda>_ _ _. Inr [[10, 1, 2, 3]]" and network = "''tcp''"]
    by simp
qed

end
