(* ===== verification/TunnelRun.thy ===== *)
theory TunnelRun
  imports Tunnel
begin

text \<open>
  \<^verbatim>\<open>Tunnel.Run\<close> and \<^verbatim>\<open>runOnce\<close> of src/tunnel.go as a step relation: the attempts, the statistics and
  the health loop, and a cancellation of the context, in every interleaving. \<open>bring_up\<close> of \<open>Tunnel\<close>
  is a bring-up that nothing interrupts (\<open>uninterrupted_bring_up\<close>). What a tunnel shows to
  the outside is an abstract machine (\<open>shown_next\<close>) that the run refines.
\<close>

section \<open>The two loops\<close>

text \<open>
  Where the statistics loop is: in its \<^verbatim>\<open>select\<close>, with the device's answer in hand, or returned;
  and the health loop: in its \<^verbatim>\<open>select\<close>, waiting for the answer to a probe, with the outcome in hand,
  or returned. A loop returns from its \<^verbatim>\<open>select\<close> only; when the context has ended and the timer has
  fired as well, Go takes either branch.
\<close>

datatype stats_pc = StatsSelect | StatsRead string | StatsReturned

datatype health_pc = HealthSelect | HealthProbing nat | HealthProbed health_in bool string int | HealthReturned

record loops =
  lp_stats :: stats_pc
  lp_health :: health_pc
  lp_idx :: nat

definition loops_start :: loops where
  "loops_start = \<lparr>lp_stats = StatsSelect, lp_health = HealthSelect, lp_idx = 0\<rparr>"

definition loops_returned :: "loops \<Rightarrow> bool" where
  "loops_returned l \<longleftrightarrow> lp_stats l = StatsReturned \<and> lp_health l = HealthReturned"

text \<open>
  A step of either loop over the device \<open>n\<close>: the tunnel and the loops before and after it. An error
  of the device goes on to the next turn.
\<close>

inductive loop_step ::
  "unicode \<Rightarrow> (rat \<Rightarrow> rat) \<Rightarrow> dev_id \<Rightarrow> bool \<Rightarrow> tunnel \<Rightarrow> loops \<Rightarrow> tunnel \<Rightarrow> loops \<Rightarrow> bool"
  for U fl n done_ctx where
  stats_return: "lp_stats l = StatsSelect \<Longrightarrow> done_ctx \<Longrightarrow>
     loop_step U fl n done_ctx t l t (l\<lparr>lp_stats := StatsReturned\<rparr>)"
| stats_read: "lp_stats l = StatsSelect \<Longrightarrow>
     loop_step U fl n done_ctx t l t (l\<lparr>lp_stats := StatsRead raw\<rparr>)"
| stats_note: "lp_stats l = StatsRead raw \<Longrightarrow>
     loop_step U fl n done_ctx t l
       (stats_tick U fl \<lparr>si_raw = Inr raw, si_now = now, si_since = since\<rparr> t) (l\<lparr>lp_stats := StatsSelect\<rparr>)"
| health_return: "lp_health l = HealthSelect \<Longrightarrow> done_ctx \<Longrightarrow>
     loop_step U fl n done_ctx t l t (l\<lparr>lp_health := HealthReturned\<rparr>)"
| health_begin: "lp_health l = HealthSelect \<Longrightarrow>
     loop_step U fl n done_ctx t l (probe_begin t)
       (l\<lparr>lp_health := HealthProbing (lp_idx l), lp_idx := lp_idx l + 1\<rparr>)"
| health_answer: "lp_health l = HealthProbing i \<Longrightarrow> doProbe H (probe_url i) = (ok, status) \<Longrightarrow>
     loop_step U fl n done_ctx t l (probe_answered ok t)
       (l\<lparr>lp_health := HealthProbed H ok status (probe_latency H)\<rparr>)"
| health_note: "lp_health l = HealthProbed H ok status latency \<Longrightarrow>
     loop_step U fl n done_ctx t l
       (probe_noted H ok status latency (tcpPing H n ''1.1.1.1:443'') t) (l\<lparr>lp_health := HealthSelect\<rparr>)"

lemma serving_ok_loop: "loop_step U fl n b t l t' l' \<Longrightarrow> serving_ok t n \<Longrightarrow> serving_ok t' n"
  by (induction rule: loop_step.induct) (simp_all add: serving_ok_stats serving_ok_probe)

text \<open>A turn of the health loop that nothing interrupts is \<open>health_tick\<close>, one of the other \<open>stats_tick\<close>.\<close>

definition loop_to :: "unicode \<Rightarrow> (rat \<Rightarrow> rat) \<Rightarrow> dev_id \<Rightarrow> bool \<Rightarrow> tunnel \<times> loops \<Rightarrow> tunnel \<times> loops \<Rightarrow> bool" where
  "loop_to U fl n b s s' \<longleftrightarrow> loop_step U fl n b (fst s) (snd s) (fst s') (snd s')"

lemma uninterrupted_health_turn:
  assumes "lp_health l = HealthSelect"
  shows "(loop_to U fl n b)\<^sup>*\<^sup>* (t, l) (health_tick H n (lp_idx l) t, l\<lparr>lp_idx := lp_idx l + 1\<rparr>)"
proof -
  obtain ok st where p: "doProbe H (probe_url (lp_idx l)) = (ok, st)" by (cases "doProbe H (probe_url (lp_idx l))")
  let ?l1 = "l\<lparr>lp_health := HealthProbing (lp_idx l), lp_idx := lp_idx l + 1\<rparr>"
  let ?l2 = "?l1\<lparr>lp_health := HealthProbed H ok st (probe_latency H)\<rparr>"
  let ?l3 = "?l2\<lparr>lp_health := HealthSelect\<rparr>"
  have "loop_to U fl n b (t, l) (probe_begin t, ?l1)"
    unfolding loop_to_def using loop_step.health_begin [OF assms] by simp
  moreover have "loop_to U fl n b (probe_begin t, ?l1) (probe_answered ok (probe_begin t), ?l2)"
    unfolding loop_to_def using loop_step.health_answer [of ?l1 "lp_idx l", OF _ p] by simp
  moreover have "loop_to U fl n b (probe_answered ok (probe_begin t), ?l2) (health_tick H n (lp_idx l) t, ?l3)"
    unfolding loop_to_def using loop_step.health_note [of ?l2 H ok st "probe_latency H"] by (simp add: health_tick_def p)
  ultimately have "(loop_to U fl n b)\<^sup>*\<^sup>* (t, l) (health_tick H n (lp_idx l) t, ?l3)"
    by (meson r_into_rtranclp rtranclp.rtrancl_into_rtrancl)
  moreover have "?l3 = l\<lparr>lp_idx := lp_idx l + 1\<rparr>" using assms by simp
  ultimately show ?thesis by simp
qed

lemma uninterrupted_stats_turn:
  assumes "lp_stats l = StatsSelect" and "si_raw I = Inr raw"
  shows "(loop_to U fl n b)\<^sup>*\<^sup>* (t, l) (stats_tick U fl I t, l)"
proof -
  have I: "I = \<lparr>si_raw = Inr raw, si_now = si_now I, si_since = si_since I\<rparr>" using assms(2) by simp
  let ?l1 = "l\<lparr>lp_stats := StatsRead raw\<rparr>"
  have "loop_to U fl n b (t, l) (t, ?l1)" unfolding loop_to_def using loop_step.stats_read [OF assms(1)] by simp
  moreover have "loop_to U fl n b (t, ?l1) (stats_tick U fl I t, ?l1\<lparr>lp_stats := StatsSelect\<rparr>)"
    unfolding loop_to_def using loop_step.stats_note [of ?l1 raw U fl n b t "si_now I" "si_since I"] I by simp
  ultimately have "(loop_to U fl n b)\<^sup>*\<^sup>* (t, l) (stats_tick U fl I t, ?l1\<lparr>lp_stats := StatsSelect\<rparr>)"
    by (meson r_into_rtranclp rtranclp.rtrancl_into_rtrancl)
  moreover have "?l1\<lparr>lp_stats := StatsSelect\<rparr> = l" using assms(1) by simp
  ultimately show ?thesis by simp
qed

section \<open>Run as a step relation\<close>

text \<open>
  Where the goroutine of \<^verbatim>\<open>Run\<close> is: at the head of its loop; inside \<^verbatim>\<open>runOnce\<close> looking up the region
  (\<open>Bringing\<close>), with the region found, about to pick a random server, with a session registered,
  with the time of this noted (\<open>Starting\<close>), waiting while both loops run over a device (\<open>Serving\<close>),
  in the deferred clean-up before the device is closed; back in \<^verbatim>\<open>Run\<close> with an error; in the timer's
  \<^verbatim>\<open>select\<close>; or returned. \<^verbatim>\<open>runOnce\<close> ends its wait only when its context is cancelled and both loops
  have returned. The PIA client \<open>c\<close> of a step is whatever this and the other tunnels have
  made of it by then.
\<close>

datatype run_pc =
    LoopHead
  | Bringing
  | Found region
  | PickRandom region
  | Registered wgSession
  | Starting wgSession
  | Serving dev_id loops
  | Closing dev_id
  | Failed gerror
  | Waiting int
  | Returned

record run_state =
  tun :: tunnel
  pc :: run_pc
  backoff :: int
  canceled :: bool
  open_devs :: "dev_id set"

definition run_start :: "cityConfig \<Rightarrow> run_state" where
  "run_start cfg =
     \<lparr>tun = NewTunnel cfg, pc = LoopHead, backoff = initialBackoff, canceled = False, open_devs = {}\<rparr>"

inductive run_step :: "libs \<Rightarrow> (rat \<Rightarrow> rat) \<Rightarrow> run_state \<Rightarrow> run_state \<Rightarrow> bool" for L fl where
  cancel: "run_step L fl S (S\<lparr>canceled := True\<rparr>)"
| head_return: "pc S = LoopHead \<Longrightarrow> canceled S \<Longrightarrow> run_step L fl S (S\<lparr>pc := Returned\<rparr>)"
| head_begin: "pc S = LoopHead \<Longrightarrow> \<not> canceled S \<Longrightarrow>
     run_step L fl S (S\<lparr>pc := Bringing, tun := runOnce_begin (tun S)\<rparr>)"
| region_lost: "pc S = Bringing \<Longrightarrow> FindRegion L ans c (Region (tun_cfg (tun S))) = (Inl e, c', q) \<Longrightarrow>
     run_step L fl S (S\<lparr>pc := Failed (ErrWrap ''region lookup: '' e [])\<rparr>)"
| region_found: "pc S = Bringing \<Longrightarrow> FindRegion L ans c (Region (tun_cfg (tun S))) = (Inr reg, c', q) \<Longrightarrow>
     run_step L fl S (S\<lparr>pc := Found reg\<rparr>)"
| no_preferred: "pc S = Found reg \<Longrightarrow> preferredServerInRegion (lb_uni L) (tun S) reg = None \<Longrightarrow>
     run_step L fl S (S\<lparr>pc := PickRandom reg\<rparr>)"
| preferred_fails: "pc S = Found reg \<Longrightarrow> preferredServerInRegion (lb_uni L) (tun S) reg = Some p \<Longrightarrow>
     NewSessionWithServer L A c reg p = (Inl e, c', q) \<Longrightarrow>
     run_step L fl S (S\<lparr>pc := PickRandom reg\<rparr>)"
| preferred_works: "pc S = Found reg \<Longrightarrow> preferredServerInRegion (lb_uni L) (tun S) reg = Some p \<Longrightarrow>
     NewSessionWithServer L A c reg p = (Inr ws, c', q) \<Longrightarrow>
     run_step L fl S (S\<lparr>pc := Registered ws\<rparr>)"
| random_fails: "pc S = PickRandom reg \<Longrightarrow> pick_ok pick \<Longrightarrow> NewSession L A pick c reg = (Inl e, c', q) \<Longrightarrow>
     run_step L fl S (S\<lparr>pc := Failed (ErrWrap ''addKey: '' e [])\<rparr>)"
| random_works: "pc S = PickRandom reg \<Longrightarrow> pick_ok pick \<Longrightarrow> NewSession L A pick c reg = (Inr ws, c', q) \<Longrightarrow>
     run_step L fl S (S\<lparr>pc := Registered ws\<rparr>)"
| stamp: "pc S = Registered ws \<Longrightarrow>
     run_step L fl S (S\<lparr>pc := Starting ws, tun := (tun S)\<lparr>addKeyAt := now\<rparr>\<rparr>)"
| device_fails: "pc S = Starting ws \<Longrightarrow> br_dev B \<notin> open_devs S \<Longrightarrow>
     start_device B ws (tun S) = (Some e, t', evs) \<Longrightarrow>
     run_step L fl S (S\<lparr>pc := Failed e, tun := t', open_devs := devices_after evs (open_devs S)\<rparr>)"
| device_works: "pc S = Starting ws \<Longrightarrow> br_dev B \<notin> open_devs S \<Longrightarrow>
     start_device B ws (tun S) = (None, t', evs) \<Longrightarrow>
     run_step L fl S (S\<lparr>pc := Serving (br_dev B) loops_start, tun := t',
                        open_devs := devices_after evs (open_devs S)\<rparr>)"
| loop: "pc S = Serving n l \<Longrightarrow> loop_step (lb_uni L) fl n (canceled S) (tun S) l t' l' \<Longrightarrow>
     run_step L fl S (S\<lparr>pc := Serving n l', tun := t'\<rparr>)"
| finish: "pc S = Serving n l \<Longrightarrow> canceled S \<Longrightarrow> loops_returned l \<Longrightarrow>
     run_step L fl S (S\<lparr>pc := Closing n, tun := cleanup (canceled S) (tun S)\<rparr>)"
| close: "pc S = Closing n \<Longrightarrow>
     run_step L fl S (S\<lparr>pc := Returned, open_devs := devices_after [DevClose n] (open_devs S)\<rparr>)"
| failed_return: "pc S = Failed e \<Longrightarrow> canceled S \<Longrightarrow> run_step L fl S (S\<lparr>pc := Returned\<rparr>)"
| failed_wait: "pc S = Failed e \<Longrightarrow> \<not> canceled S \<Longrightarrow> run_delay (backoff S) e = (d, b) \<Longrightarrow>
     run_step L fl S (S\<lparr>pc := Waiting d, backoff := b,
       tun := setError (Some e) ((tun S)\<lparr>connectFails := connectFails (tun S) + 1\<rparr>)\<rparr>)"
| waited: "pc S = Waiting d \<Longrightarrow> run_step L fl S (S\<lparr>pc := LoopHead\<rparr>)"
| wait_return: "pc S = Waiting d \<Longrightarrow> canceled S \<Longrightarrow> run_step L fl S (S\<lparr>pc := Returned\<rparr>)"

inductive run_reach :: "libs \<Rightarrow> (rat \<Rightarrow> rat) \<Rightarrow> cityConfig \<Rightarrow> run_state \<Rightarrow> bool" for L fl cfg where
  start: "run_reach L fl cfg (run_start cfg)"
| step: "run_reach L fl cfg S \<Longrightarrow> run_step L fl S T \<Longrightarrow> run_reach L fl cfg T"

interpretation run_m: machine "run_step L fl" "run_reach L fl cfg" "run_start cfg" for L fl cfg
  by unfold_locales (rule run_reach.start, erule (1) run_reach.step, erule run_reach.induct, blast+)

section \<open>An attempt that nothing interrupts\<close>

text \<open>Steps that only move the goroutine on, one after the other.\<close>

lemma pc_step:
  assumes "(run_step L fl)\<^sup>*\<^sup>* S (S\<lparr>pc := p\<rparr>)" and "run_step L fl (S\<lparr>pc := p\<rparr>) (S\<lparr>pc := p\<rparr>\<lparr>pc := p'\<rparr>)"
  shows "(run_step L fl)\<^sup>*\<^sup>* S (S\<lparr>pc := p'\<rparr>)"
  using rtranclp.rtrancl_into_rtrancl [OF assms] by simp

lemma random_path:
  assumes "(run_step L fl)\<^sup>*\<^sup>* S (S\<lparr>pc := PickRandom reg\<rparr>)" and "pick_ok pick"
    and "NewSession L A pick c reg = (r, c', q)"
  shows "(run_step L fl)\<^sup>*\<^sup>* S (S\<lparr>pc := (case r of Inl e \<Rightarrow> Failed (ErrWrap ''addKey: '' e []) | Inr ws \<Rightarrow> Registered ws)\<rparr>)"
proof (cases r)
  case (Inl e)
  have "run_step L fl (S\<lparr>pc := PickRandom reg\<rparr>) (S\<lparr>pc := PickRandom reg\<rparr>\<lparr>pc := Failed (ErrWrap ''addKey: '' e [])\<rparr>)"
    by (rule run_step.random_fails) (use assms(2,3) Inl in simp_all)
  with assms(1) Inl show ?thesis by (simp add: pc_step)
next
  case (Inr ws)
  have "run_step L fl (S\<lparr>pc := PickRandom reg\<rparr>) (S\<lparr>pc := PickRandom reg\<rparr>\<lparr>pc := Registered ws\<rparr>)"
    by (rule run_step.random_works) (use assms(2,3) Inr in simp_all)
  with assms(1) Inr show ?thesis by (simp add: pc_step)
qed

lemma registration_path:
  assumes "register_peer L B (tun S) c = (r, c', q)" and "pc S = Bringing" and "pick_ok (br_pick B)"
  shows "(run_step L fl)\<^sup>*\<^sup>* S (S\<lparr>pc := (case r of Inl e \<Rightarrow> Failed e | Inr ws \<Rightarrow> Registered ws)\<rparr>)"
proof -
  obtain rr c1 q1 where f: "FindRegion L (br_servers B) c (Region (tun_cfg (tun S))) = (rr, c1, q1)"
    by (cases "FindRegion L (br_servers B) c (Region (tun_cfg (tun S)))")
  show ?thesis
  proof (cases rr)
    case (Inl e)
    with assms(1) f have "r = Inl (ErrWrap ''region lookup: '' e [])" by (simp add: register_peer_def)
    with run_step.region_lost [OF assms(2) f [unfolded Inl]] show ?thesis by (simp add: r_into_rtranclp)
  next
    case (Inr reg)
    have found: "(run_step L fl)\<^sup>*\<^sup>* S (S\<lparr>pc := Found reg\<rparr>)"
      using run_step.region_found [OF assms(2) f [unfolded Inr]] by blast
    show ?thesis
    proof (cases "preferredServerInRegion (lb_uni L) (tun S) reg")
      case None
      have "run_step L fl (S\<lparr>pc := Found reg\<rparr>) (S\<lparr>pc := Found reg\<rparr>\<lparr>pc := PickRandom reg\<rparr>)"
        by (rule run_step.no_preferred) (use None in simp_all)
      with found have rnd: "(run_step L fl)\<^sup>*\<^sup>* S (S\<lparr>pc := PickRandom reg\<rparr>)" by (rule pc_step)
      obtain r2 c2 q2 where n: "NewSession L (br_rand B) (br_pick B) c1 reg = (r2, c2, q2)"
        by (cases "NewSession L (br_rand B) (br_pick B) c1 reg")
      then have "r = (case r2 of Inl e \<Rightarrow> Inl (ErrWrap ''addKey: '' e []) | Inr ws \<Rightarrow> Inr ws)"
        using assms(1) f Inr None by (cases r2) (auto simp: register_peer_def)
      with random_path [OF rnd assms(3) n] show ?thesis by (cases r2) simp_all
    next
      case (Some p)
      obtain r1 c2 q2 where n1: "NewSessionWithServer L (br_pref B) c1 reg p = (r1, c2, q2)"
        by (cases "NewSessionWithServer L (br_pref B) c1 reg p")
      show ?thesis
      proof (cases r1)
        case e1: (Inl e)
        have "run_step L fl (S\<lparr>pc := Found reg\<rparr>) (S\<lparr>pc := Found reg\<rparr>\<lparr>pc := PickRandom reg\<rparr>)"
          by (rule run_step.preferred_fails) (use Some n1 e1 in simp_all)
        with found have rnd: "(run_step L fl)\<^sup>*\<^sup>* S (S\<lparr>pc := PickRandom reg\<rparr>)" by (rule pc_step)
        obtain r2 c3 q3 where n: "NewSession L (br_rand B) (br_pick B) c2 reg = (r2, c3, q3)"
          by (cases "NewSession L (br_rand B) (br_pick B) c2 reg")
        then have "r = (case r2 of Inl e \<Rightarrow> Inl (ErrWrap ''addKey: '' e []) | Inr ws \<Rightarrow> Inr ws)"
          using assms(1) f Inr Some n1 e1 by (cases r2) (auto simp: register_peer_def)
        with random_path [OF rnd assms(3) n] show ?thesis by (cases r2) simp_all
      next
        case ws: (Inr ws)
        have "run_step L fl (S\<lparr>pc := Found reg\<rparr>) (S\<lparr>pc := Found reg\<rparr>\<lparr>pc := Registered ws\<rparr>)"
          by (rule run_step.preferred_works) (use Some n1 ws in simp_all)
        with found have "(run_step L fl)\<^sup>*\<^sup>* S (S\<lparr>pc := Registered ws\<rparr>)" by (rule pc_step)
        moreover have "r = Inr ws" using assms(1) f Inr Some n1 ws by (simp add: register_peer_def)
        ultimately show ?thesis by simp
      qed
    qed
  qed
qed

lemma uninterrupted_bring_up:
  assumes "bring_up L B c (tun S) = (r, t', c', evs)" and "pc S = Bringing"
    and "br_dev B \<notin> open_devs S" and "pick_ok (br_pick B)"
  shows "(run_step L fl)\<^sup>*\<^sup>* S (S\<lparr>pc := (case r of None \<Rightarrow> Serving (br_dev B) loops_start | Some e \<Rightarrow> Failed e), tun := t',
    open_devs := devices_after evs (open_devs S)\<rparr>)"
proof -
  obtain rr c1 q where reg: "register_peer L B (tun S) c = (rr, c1, q)" by (cases "register_peer L B (tun S) c")
  note path = registration_path [OF reg assms(2,4), of fl]
  show ?thesis
  proof (cases rr)
    case (Inl e)
    with assms(1) reg have "r = Some e" "t' = tun S" "evs = []" by (simp_all add: bring_up_def)
    with path Inl show ?thesis by (simp add: devices_after_def)
  next
    case (Inr ws)
    let ?S1 = "S\<lparr>pc := Registered ws\<rparr>"
    let ?S2 = "?S1\<lparr>pc := Starting ws, tun := (tun ?S1)\<lparr>addKeyAt := br_addKeyAt B\<rparr>\<rparr>"
    let ?S3 = "?S2\<lparr>pc := (case r of None \<Rightarrow> Serving (br_dev B) loops_start | Some e \<Rightarrow> Failed e), tun := t',
        open_devs := devices_after evs (open_devs ?S2)\<rparr>"
    have "start_device B ws ((tun S)\<lparr>addKeyAt := br_addKeyAt B\<rparr>) = (r, t', evs)"
      using assms(1) reg Inr by (simp add: bring_up_def split: prod.splits)
    then have dev: "start_device B ws (tun ?S2) = (r, t', evs)" by simp
    have "run_step L fl ?S1 ?S2" by (rule run_step.stamp) simp
    moreover have "run_step L fl ?S2 ?S3"
    proof (cases r)
      case None
      have "run_step L fl ?S2 (?S2\<lparr>pc := Serving (br_dev B) loops_start, tun := t', open_devs := devices_after evs (open_devs ?S2)\<rparr>)"
        by (rule run_step.device_works [OF _ _ dev [unfolded None]]) (use assms(3) in simp_all)
      with None show ?thesis by simp
    next
      case (Some e)
      have "run_step L fl ?S2 (?S2\<lparr>pc := Failed e, tun := t', open_devs := devices_after evs (open_devs ?S2)\<rparr>)"
        by (rule run_step.device_fails [OF _ _ dev [unfolded Some]]) (use assms(3) in simp_all)
      with Some show ?thesis by simp
    qed
    moreover have "(run_step L fl)\<^sup>*\<^sup>* S ?S1" using path Inr by simp
    ultimately have "(run_step L fl)\<^sup>*\<^sup>* S ?S3" by (meson rtranclp.rtrancl_into_rtrancl)
    then show ?thesis by simp
  qed
qed

section \<open>The invariant of Run\<close>

lemma start_device_error_fields:
  assumes "start_device B ws t = (Some e, t', evs)" and "br_dev B \<notin> D"
  shows "t' = t" "devices_after evs D = D"
  using start_device_error [OF assms] by simp_all

definition run_inv :: "run_state \<Rightarrow> bool" where
  "run_inv S \<longleftrightarrow> initialBackoff \<le> backoff S \<and> backoff S \<le> maxBackoff \<and>
     (case pc S of
        LoopHead \<Rightarrow> quiet (tun S) \<and> open_devs S = {} \<and> state (tun S) \<in> {StateIdle, StateError}
      | Serving n l \<Rightarrow> serving_ok (tun S) n \<and> open_devs S = {n}
      | Closing n \<Rightarrow> quiet (tun S) \<and> open_devs S = {n} \<and> state (tun S) = StateIdle \<and> canceled S
      | Waiting d \<Rightarrow> quiet (tun S) \<and> open_devs S = {} \<and> state (tun S) = StateError \<and> initialBackoff \<le> d
      | Returned \<Rightarrow> quiet (tun S) \<and> open_devs S = {} \<and> canceled S \<and>
          state (tun S) \<in> {StateIdle, StateConnecting, StateError}
      | _ \<Rightarrow> quiet (tun S) \<and> open_devs S = {} \<and> state (tun S) = StateConnecting)"

lemma run_inv_step: "run_step L fl S T \<Longrightarrow> run_inv S \<Longrightarrow> run_inv T"
proof (induction rule: run_step.induct)
  case (cancel S)
  then show ?case by (simp add: run_inv_def split: run_pc.splits)
next
  case (head_begin S)
  then show ?case by (simp add: run_inv_def runOnce_begin_def) (simp add: setState_def)
next
  case (stamp S ws now)
  then show ?case by (simp add: run_inv_def) (simp add: quiet_def)
next
  case (device_fails S ws B e t' evs)
  then show ?case using start_device_error_fields [OF device_fails(3,2)]
    by (simp add: run_inv_def)
next
  case (device_works S ws B t' evs)
  from start_device_ok [OF device_works(3)] device_works show ?case
    by (auto simp: run_inv_def serving_ok_publish devices_after_def)
next
  case (failed_wait S e d b)
  then have "snd (run_delay (backoff S) e) = b" "fst (run_delay (backoff S) e) = d" by simp_all
  with failed_wait run_delay_backoff [of "backoff S" e] show ?case
    by (simp add: run_inv_def) (simp add: setError_def)
next
  case (finish S n l)
  then show ?case using quiet_cleanup [of "tun S" n] by (simp add: run_inv_def)
qed (auto simp: run_inv_def serving_ok_loop devices_after_def)

lemma run_reach_inv: "run_reach L fl cfg S \<Longrightarrow> run_inv S"
proof (erule run_m.invariant)
  show "run_inv (run_start cfg)"
    by (simp add: run_inv_def run_start_def NewTunnel_def quiet_def initialBackoff_def
        maxBackoff_def duration_defs)
qed (rule run_inv_step)

section \<open>Where the session comes from\<close>

text \<open>
  A session for a city: from a completed registration with a server of the city's region. The one a
  tunnel serves can also be configured: an IPv4 address and two keys that decode.
\<close>

definition session_from :: "libs \<Rightarrow> cityConfig \<Rightarrow> wgSession \<Rightarrow> bool" where
  "session_from L cfg ws \<longleftrightarrow>
     equal_fold (lb_uni L) (rg_id (ws_region ws)) (Region cfg) \<and>
     ws_server ws \<in> set (rg_servers (ws_region ws)) \<and>
     (\<exists>A c c' q. NewSessionWithServer L A c (ws_region ws) (ws_server ws) = (Inr ws, c', q))"

definition session_inv :: "libs \<Rightarrow> cityConfig \<Rightarrow> run_state \<Rightarrow> bool" where
  "session_inv L cfg S \<longleftrightarrow> tun_cfg (tun S) = cfg \<and>
     (\<forall>ws. session (tun S) = Some ws \<longrightarrow>
        session_from L cfg ws \<and> to4 (ws_peerIP ws) \<noteq> None \<and> is_ok (IPCConfig ws)) \<and>
     (case pc S of
        Found reg \<Rightarrow> equal_fold (lb_uni L) (rg_id reg) (Region cfg)
      | PickRandom reg \<Rightarrow> equal_fold (lb_uni L) (rg_id reg) (Region cfg)
      | Registered ws \<Rightarrow> session_from L cfg ws
      | Starting ws \<Rightarrow> session_from L cfg ws
      | _ \<Rightarrow> True)"

lemma FindRegion_matches:
  "FindRegion L ans c i = (Inr reg, c', q) \<Longrightarrow> equal_fold (lb_uni L) (rg_id reg) i"
  by (auto simp: FindRegion_def find_Some_iff split: prod.splits sum.splits option.splits)

lemma session_from_preferred:
  assumes "NewSessionWithServer L A c reg p = (Inr ws, c', q)" and "p \<in> set (rg_servers reg)"
    and "equal_fold (lb_uni L) (rg_id reg) (Region cfg)"
  shows "session_from L cfg ws"
  using NewSessionWithServer_server [OF assms(1)] assms unfolding session_from_def by blast

lemma session_from_random:
  assumes "NewSession L A pick c reg = (Inr ws, c', q)" and "pick_ok pick"
    and "equal_fold (lb_uni L) (rg_id reg) (Region cfg)"
  shows "session_from L cfg ws"
proof -
  obtain i where i: "rg_servers reg \<noteq> []" "pick (length (rg_servers reg)) = Inr i"
    "NewSessionWithServer L A c reg (rg_servers reg ! i) = (Inr ws, c', q)"
    using assms(1) by (auto simp: NewSession_def split: if_splits sum.splits)
  with assms(2) have "rg_servers reg ! i \<in> set (rg_servers reg)" by (auto simp: pick_ok_def)
  with i(3) show ?thesis using assms(3) by (rule session_from_preferred)
qed

lemma tick_cfg [simp]:
  "tun_cfg (cleanup b t) = tun_cfg t" "session (cleanup b t) = None"
  by (simp_all add: cleanup_def Let_def)

lemma loop_keeps:
  "loop_step U fl n b t l t' l' \<Longrightarrow> tun_cfg t' = tun_cfg t \<and> session t' = session t"
  by (induction rule: loop_step.induct)
    (simp_all add: stats_tick_def handshake_state_def probe_defs health_state_def Let_def split: prod.splits)

lemma session_inv_step: "run_step L fl S T \<Longrightarrow> session_inv L cfg S \<Longrightarrow> session_inv L cfg T"
proof (induction rule: run_step.induct)
  case (head_begin S)
  then show ?case by (simp add: session_inv_def runOnce_begin_def setState_def)
next
  case (region_found S ans c reg c' q)
  then show ?case using FindRegion_matches [OF region_found(2)] by (simp add: session_inv_def)
next
  case (preferred_works S reg p A c ws c' q)
  then show ?case using session_from_preferred [OF preferred_works(3) preferred_in_set [OF preferred_works(2)]]
    by (simp add: session_inv_def)
next
  case (random_works S reg pick A c ws c' q)
  then show ?case using session_from_random [OF random_works(3,2)] by (simp add: session_inv_def)
next
  case (device_fails S ws B e t' evs)
  have "t' = tun S" by (rule start_device_error_fields(1) [OF device_fails(3,2)])
  with device_fails show ?case by (simp add: session_inv_def)
next
  case (device_works S ws B t' evs)
  obtain peer4 ipc where "to4 (ws_peerIP ws) = Some peer4" "IPCConfig ws = Inr ipc" "t' = publish B ws (tun S)"
    using start_device_ok [OF device_works(3)] by blast
  with device_works show ?case by (simp add: session_inv_def publish_def)
next
  case (failed_wait S e d b)
  then show ?case by (simp add: session_inv_def setError_def)
next
  case (loop S n l t' l')
  then show ?case using loop_keeps [OF loop(2)] by (simp add: session_inv_def)
qed (auto simp: session_inv_def)

lemma run_reach_session: "run_reach L fl cfg S \<Longrightarrow> session_inv L cfg S"
proof (erule run_m.invariant)
  show "session_inv L cfg (run_start cfg)"
    by (simp add: session_inv_def run_start_def NewTunnel_def)
qed (rule session_inv_step)

section \<open>Stopping\<close>

text \<open>How far \<^verbatim>\<open>Run\<close> still has to go once cancelled.\<close>

fun stats_to_go :: "stats_pc \<Rightarrow> nat" where
  "stats_to_go StatsReturned = 0"
| "stats_to_go StatsSelect = 1"
| "stats_to_go (StatsRead raw) = 2"

fun health_to_go :: "health_pc \<Rightarrow> nat" where
  "health_to_go HealthReturned = 0"
| "health_to_go HealthSelect = 1"
| "health_to_go (HealthProbed H ok st la) = 2"
| "health_to_go (HealthProbing i) = 3"

fun to_go :: "run_pc \<Rightarrow> nat" where
  "to_go Returned = 0"
| "to_go LoopHead = 1"
| "to_go (Failed e) = 1"
| "to_go (Closing n) = 1"
| "to_go (Waiting d) = 2"
| "to_go (Serving n l) = 2 + stats_to_go (lp_stats l) + health_to_go (lp_health l)"
| "to_go (Starting ws) = 10"
| "to_go (Registered ws) = 11"
| "to_go (PickRandom reg) = 12"
| "to_go (Found reg) = 13"
| "to_go Bringing = 14"

lemma canceled_step:
  "run_step L fl S T \<Longrightarrow> canceled S \<Longrightarrow> canceled T \<and> (pc T = Bringing \<longrightarrow> pc S = Bringing)"
  by (induction rule: run_step.induct) auto

text \<open>Each loop gets to its return: what it is doing comes to an end, and then it sees the context.\<close>

lemma loops_progress:
  assumes "\<not> loops_returned l"
  shows "\<exists>t' l'. loop_step U fl n True t l t' l' \<and> to_go (Serving n l') < to_go (Serving n l)"
proof (cases "lp_stats l = StatsReturned")
  case False
  show ?thesis
  proof (cases "lp_stats l")
    case StatsSelect
    from loop_step.stats_return [OF this, of True U fl n t] StatsSelect show ?thesis by fastforce
  next
    case (StatsRead raw)
    from loop_step.stats_note [OF this, of U fl n True t 0 0] StatsRead show ?thesis by fastforce
  qed (use False in simp)
next
  case True
  show ?thesis
  proof (cases "lp_health l")
    case HealthSelect
    from loop_step.health_return [OF this, of True U fl n t] HealthSelect show ?thesis by fastforce
  next
    case (HealthProbing i)
    obtain ok st where p: "doProbe undefined (probe_url i) = (ok, st)" by (cases "doProbe undefined (probe_url i)")
    from loop_step.health_answer [OF HealthProbing p, of U fl n True t] HealthProbing show ?thesis by fastforce
  next
    case (HealthProbed H ok st la)
    from loop_step.health_note [OF this, of U fl n True t] HealthProbed show ?thesis by fastforce
  qed (use True assms in \<open>simp add: loops_returned_def\<close>)
qed

text \<open>Whatever the network answers, an attempt moves on.\<close>

lemma attempt_progress:
  "pc S = Bringing \<Longrightarrow> \<exists>T. run_step L fl S T \<and> to_go (pc T) < 14"
  "pc S = Found reg \<Longrightarrow> \<exists>T. run_step L fl S T \<and> to_go (pc T) < 13"
  "pc S = PickRandom reg \<Longrightarrow> \<exists>T. run_step L fl S T \<and> to_go (pc T) < 12"
proof -
  obtain r c q where f: "FindRegion L undefined undefined (Region (tun_cfg (tun S))) = (r, c, q)"
    by (cases "FindRegion L undefined undefined (Region (tun_cfg (tun S)))")
  show "\<exists>T. run_step L fl S T \<and> to_go (pc T) < 14" if p: "pc S = Bringing"
  proof (cases r)
    case (Inl e)
    from run_step.region_lost [OF p f [unfolded Inl]] show ?thesis by fastforce
  next
    case (Inr reg)
    from run_step.region_found [OF p f [unfolded Inr]] show ?thesis by fastforce
  qed
  show "\<exists>T. run_step L fl S T \<and> to_go (pc T) < 13" if p: "pc S = Found reg"
  proof (cases "preferredServerInRegion (lb_uni L) (tun S) reg")
    case None
    from run_step.no_preferred [OF p None] show ?thesis by fastforce
  next
    case (Some s)
    obtain r c q where n: "NewSessionWithServer L undefined undefined reg s = (r, c, q)"
      by (cases "NewSessionWithServer L undefined undefined reg s")
    show ?thesis
    proof (cases r)
      case (Inl e)
      from run_step.preferred_fails [OF p Some n [unfolded Inl]] show ?thesis by fastforce
    next
      case (Inr ws)
      from run_step.preferred_works [OF p Some n [unfolded Inr]] show ?thesis by fastforce
    qed
  qed
  show "\<exists>T. run_step L fl S T \<and> to_go (pc T) < 12" if p: "pc S = PickRandom reg"
  proof -
    have ok: "pick_ok (\<lambda>_. Inr 0)" by (simp add: pick_ok_def)
    obtain r c q where n: "NewSession L undefined (\<lambda>_. Inr 0) undefined reg = (r, c, q)"
      by (cases "NewSession L undefined (\<lambda>_. Inr 0) undefined reg")
    show ?thesis
    proof (cases r)
      case (Inl e)
      from run_step.random_fails [OF p ok n [unfolded Inl]] show ?thesis by fastforce
    next
      case (Inr ws)
      from run_step.random_works [OF p ok n [unfolded Inr]] show ?thesis by fastforce
    qed
  qed
qed

lemma device_progress:
  assumes "pc S = Starting ws" and "open_devs S \<noteq> UNIV"
  shows "\<exists>T. run_step L fl S T \<and> to_go (pc T) < 10"
proof -
  obtain n where n: "n \<notin> open_devs S" using assms(2) by blast
  define B :: bringup where "B = undefined\<lparr>br_dev := n\<rparr>"
  have B: "br_dev B \<notin> open_devs S" using n by (simp add: B_def)
  obtain r t' evs where d: "start_device B ws (tun S) = (r, t', evs)" by (cases "start_device B ws (tun S)")
  show ?thesis
  proof (cases r)
    case None
    from run_step.device_works [OF assms(1) B d [unfolded None], of L fl] show ?thesis
      by (fastforce simp: loops_start_def)
  next
    case (Some e)
    from run_step.device_fails [OF assms(1) B d [unfolded Some]] show ?thesis by fastforce
  qed
qed

lemma canceled_progress:
  assumes "canceled S" and "pc S \<noteq> Returned" and "open_devs S \<noteq> UNIV"
  shows "\<exists>T. run_step L fl S T \<and> to_go (pc T) < to_go (pc S)"
proof (cases "pc S")
  case LoopHead
  with assms run_step.head_return [of S L fl] show ?thesis by fastforce
next
  case (Registered ws)
  from run_step.stamp [OF this, of L fl 0] Registered show ?thesis by fastforce
next
  case (Starting ws)
  with device_progress [OF Starting assms(3)] show ?thesis by simp
next
  case (Serving n l)
  show ?thesis
  proof (cases "loops_returned l")
    case True
    with assms Serving run_step.finish [of S n l L fl] show ?thesis by fastforce
  next
    case False
    then obtain t' l' where "loop_step (lb_uni L) fl n (canceled S) (tun S) l t' l'"
      "to_go (Serving n l') < to_go (Serving n l)"
      using loops_progress [of l "lb_uni L" fl n "tun S"] assms(1) by auto
    with run_step.loop [OF Serving, of L fl t' l'] Serving show ?thesis by fastforce
  qed
next
  case (Closing n)
  with run_step.close [of S n L fl] show ?thesis by fastforce
next
  case (Failed e)
  with assms run_step.failed_return [of S e L fl] show ?thesis by fastforce
next
  case (Waiting d)
  with assms run_step.wait_return [of S d L fl] show ?thesis by fastforce
next
  case Returned
  with assms show ?thesis by simp
qed (use attempt_progress in auto)

interpretation run_p: progress "run_step L fl" "\<lambda>S. run_reach L fl cfg S \<and> canceled S" "\<lambda>S. to_go (pc S)"
  for L fl cfg
proof unfold_locales
  fix S
  assume S: "run_reach L fl cfg S \<and> canceled S" and busy: "0 < to_go (pc S)"
  then have "finite (open_devs S)"
    using run_reach_inv [of L fl cfg S] by (auto simp: run_inv_def split: run_pc.splits)
  then have "open_devs S \<noteq> UNIV" by auto
  moreover have "pc S \<noteq> Returned" using busy by auto
  ultimately obtain T where T: "run_step L fl S T" "to_go (pc T) < to_go (pc S)"
    using canceled_progress S by blast
  then have "run_reach L fl cfg T \<and> canceled T" using S run_reach.step canceled_step by blast
  with T show "\<exists>T. (run_step L fl)\<^sup>*\<^sup>* S T \<and> (run_reach L fl cfg T \<and> canceled T) \<and> to_go (pc T) < to_go (pc S)"
    by blast
qed

lemma canceled_returns:
  assumes "run_reach L fl cfg S" and "canceled S"
  shows "\<exists>T. (run_step L fl)\<^sup>*\<^sup>* S T \<and> pc T = Returned"
proof -
  obtain T where "(run_step L fl)\<^sup>*\<^sup>* S T" "to_go (pc T) = 0" using run_p.ends assms by blast
  then show ?thesis by (cases "pc T") auto
qed

text \<open>A run that has come up.\<close>

lemma demo_attempt_path:
  "\<exists>S. run_reach demo_libs fl demo_cfg S \<and> pc S = Serving 4 loops_start \<and>
     (\<exists>t. tun S = publish (demo_bringup None) demo_ws t)"
proof -
  let ?S0 = "run_start demo_cfg"
  let ?S1 = "?S0\<lparr>pc := Bringing, tun := runOnce_begin (tun ?S0)\<rparr>"
  have s1: "run_reach demo_libs fl demo_cfg ?S1"
    by (rule run_reach.step [OF run_reach.start], rule run_step.head_begin) (simp_all add: run_start_def)
  have "(tun ?S1)\<lparr>tun_cfg := demo_cfg\<rparr> = tun ?S1"
    by (rule tun_cfg_same) (simp add: run_start_def runOnce_begin_def setState_def NewTunnel_def)
  then obtain t c' evs where b: "bring_up demo_libs (demo_bringup None) (demo_client ''T'') (tun ?S1) =
      (None, publish (demo_bringup None) demo_ws t, c', evs)"
    using demo_bring_up [of "tun ?S1"] by metis
  have "br_dev (demo_bringup None) = 4" "pick_ok (br_pick (demo_bringup None))"
    by (simp_all add: demo_bringup_def pick_ok_def)
  with uninterrupted_bring_up [OF b, of fl] have "(run_step demo_libs fl)\<^sup>*\<^sup>* ?S1
      (?S1\<lparr>pc := Serving 4 loops_start, tun := publish (demo_bringup None) demo_ws t,
        open_devs := devices_after evs (open_devs ?S1)\<rparr>)" by (simp add: run_start_def)
  from run_m.steps_reach [OF this s1] show ?thesis
    by (intro exI [of _ "?S1\<lparr>pc := Serving 4 loops_start, tun := publish (demo_bringup None) demo_ws t,
        open_devs := devices_after evs (open_devs ?S1)\<rparr>"]) auto
qed

lemma demo_serving:
  "\<exists>S. run_reach demo_libs fl demo_cfg S \<and> pc S = Serving 4 loops_start \<and> netNet (tun S) = Some 4 \<and>
     state (tun S) = StateUp \<and> lastError (tun S) = [] \<and> session (tun S) = Some demo_ws"
  using demo_attempt_path [of fl] by (fastforce simp: publish_def demo_bringup_def)

section \<open>Properties\<close>

text \<open>C1: At every moment of a run, in every interleaving of \<^verbatim>\<open>Run\<close>, its loops and a
  cancellation: a dial reaches a netstack exactly when the state shown is up or degraded, and then
  it is the one of the only open device; otherwise it is refused as tunnel down. An error text is
  shown while the tunnel serves iff it is degraded. Once \<^verbatim>\<open>Run\<close> has returned no device is open.\<close>

theorem run_dial_iff_up:
  assumes "run_reach L fl cfg S"
  shows "(case netNet (tun S) of
      None \<Rightarrow> state (tun S) \<notin> {StateUp, StateDegraded} \<and>
        Tunnel_Dial dial (tun S) network a = Inl ErrTunnelDown
    | Some n \<Rightarrow> state (tun S) \<in> {StateUp, StateDegraded} \<and> open_devs S = {n} \<and>
        Tunnel_Dial dial (tun S) network a = dial n network a \<and>
        (state (tun S) = StateDegraded \<longleftrightarrow> lastError (tun S) \<noteq> [])) \<and>
    (\<exists>n. open_devs S \<subseteq> {n}) \<and> (pc S = Returned \<longrightarrow> open_devs S = {} \<and> canceled S)"
  using run_reach_inv [OF assms]
  by (auto simp: run_inv_def serving_ok_def quiet_def Tunnel_Dial_def split: run_pc.splits)

theorem run_dial_iff_up_witness:
  "\<exists>S. run_reach demo_libs (\<lambda>x. x) demo_cfg S \<and> open_devs S = {4} \<and>
     Tunnel_Dial (\<lambda>n _ a. Inr (n, a)) (tun S) ''tcp'' ''1.1.1.1:443'' = Inr (4, ''1.1.1.1:443'')"
proof -
  obtain S where "run_reach demo_libs (\<lambda>x. x) demo_cfg S" "netNet (tun S) = Some 4"
    using demo_serving by blast
  with run_dial_iff_up [OF this(1), of "\<lambda>n _ a. Inr (n, a)"] show ?thesis by auto
qed

text \<open>C35: Every session a tunnel ever shows is well formed: its region is the configured one, its
  server is on that region's list, it is what a completed registration with that server returned,
  its address is IPv4 and both keys decode, so the device could be configured with it.\<close>

theorem session_well_formed:
  assumes "run_reach L fl cfg S" and "session (tun S) = Some ws"
  shows "equal_fold (lb_uni L) (rg_id (ws_region ws)) (Region cfg) \<and>
    ws_server ws \<in> set (rg_servers (ws_region ws)) \<and>
    (\<exists>A c c' q. NewSessionWithServer L A c (ws_region ws) (ws_server ws) = (Inr ws, c', q)) \<and>
    to4 (ws_peerIP ws) \<noteq> None \<and> is_ok (IPCConfig ws) \<and>
    (\<exists>n. netNet (tun S) = Some n \<and> device (tun S) = Some n)"
proof -
  have "\<exists>n. serving_ok (tun S) n"
    using run_reach_inv [OF assms(1)] assms(2) by (cases "pc S") (auto simp: run_inv_def quiet_def)
  then show ?thesis
    using run_reach_session [OF assms(1)] assms(2)
    by (auto simp: session_inv_def session_from_def serving_ok_def)
qed

theorem session_well_formed_witness:
  "\<exists>S. run_reach demo_libs (\<lambda>x. x) demo_cfg S \<and> session (tun S) = Some demo_ws \<and>
     to4 (ws_peerIP demo_ws) \<noteq> None \<and> is_ok (IPCConfig demo_ws)"
proof -
  obtain S where S: "run_reach demo_libs (\<lambda>x. x) demo_cfg S" "session (tun S) = Some demo_ws"
    using demo_serving by blast
  with session_well_formed [OF S] show ?thesis by blast
qed

text \<open>C31: A cancelled run never begins another attempt, and can always reach its return; when it
  returns every device is closed and dials are refused.\<close>

theorem run_stops_after_cancel:
  assumes "run_reach L fl cfg S" and "canceled S"
  shows "(\<exists>T. (run_step L fl)\<^sup>*\<^sup>* S T \<and> pc T = Returned) \<and>
    (\<forall>T. run_step L fl S T \<longrightarrow> canceled T \<and> (pc T = Bringing \<longrightarrow> pc S = Bringing) \<and>
       (pc T = Returned \<longrightarrow> open_devs T = {} \<and> Tunnel_Dial dial (tun T) network a = Inl ErrTunnelDown))"
proof (intro conjI allI impI)
  show "\<exists>T. (run_step L fl)\<^sup>*\<^sup>* S T \<and> pc T = Returned" using assms by (rule canceled_returns)
  fix T
  assume st: "run_step L fl S T"
  from canceled_step [OF this assms(2)] show "canceled T" by simp
  show "pc S = Bringing" if "pc T = Bringing"
    using canceled_step [OF st assms(2)] that by (cases "pc S") simp_all
  have "run_inv T" using run_reach_inv run_reach.step [OF assms(1) st] by blast
  then show "open_devs T = {}" "Tunnel_Dial dial (tun T) network a = Inl ErrTunnelDown" if "pc T = Returned"
    using that by (simp_all add: run_inv_def quiet_def Tunnel_Dial_def)
qed

theorem run_stops_after_cancel_witness:
  "\<exists>S T. run_reach demo_libs (\<lambda>x. x) demo_cfg S \<and> netNet (tun S) = Some 4 \<and>
     (run_step demo_libs (\<lambda>x. x))\<^sup>*\<^sup>* S T \<and> pc T = Returned"
proof -
  obtain S where S: "run_reach demo_libs (\<lambda>x. x) demo_cfg S" "netNet (tun S) = Some 4"
    using demo_serving by blast
  have "run_reach demo_libs (\<lambda>x. x) demo_cfg (S\<lparr>canceled := True\<rparr>)"
    using S(1) run_step.cancel by (rule run_reach.step)
  from run_stops_after_cancel [OF this] this S(2) show ?thesis by fastforce
qed

text \<open>C40: A run cancelled while a bring-up is under way leaves the tunnel shown as connecting for
  good: there is a run that has returned, can do nothing more but be cancelled again, and shows
  connecting.\<close>

theorem canceled_bring_up_stays_connecting:
  "\<exists>S. run_reach L fl cfg S \<and> pc S = Returned \<and> state (tun S) = StateConnecting \<and>
     (\<forall>T. run_step L fl S T \<longrightarrow> tun T = tun S)"
proof -
  let ?e = "\<lparr>ee_text = ''context canceled'', ee_timeout = False, ee_closed = False, ee_eof = False\<rparr>"
  let ?S0 = "run_start cfg"
  let ?S1 = "?S0\<lparr>pc := Bringing, tun := runOnce_begin (tun ?S0)\<rparr>"
  let ?c = "NewPIAClient [] [] []"
  have s1: "run_reach L fl cfg ?S1"
    by (rule run_reach.step [OF run_reach.start], rule run_step.head_begin) (simp_all add: run_start_def)
  obtain er where f: "FindRegion L (Inl ?e) ?c (Region (tun_cfg (tun ?S1))) = (Inl er, ?c, [ReqServers])"
    by (simp add: FindRegion_def Regions_def fetchServerList_def NewPIAClient_def)
  let ?S2 = "?S1\<lparr>pc := Failed (ErrWrap ''region lookup: '' er [])\<rparr>"
  have "run_step L fl ?S1 ?S2" by (rule run_step.region_lost [OF _ f]) simp
  with s1 have s2: "run_reach L fl cfg ?S2" by (rule run_reach.step)
  let ?S3 = "?S2\<lparr>canceled := True\<rparr>"
  from s2 run_step.cancel have "run_reach L fl cfg ?S3" by (rule run_reach.step)
  moreover have "run_step L fl ?S3 (?S3\<lparr>pc := Returned\<rparr>)"
    by (rule run_step.failed_return) simp_all
  ultimately have "run_reach L fl cfg (?S3\<lparr>pc := Returned\<rparr>)" by (rule run_reach.step)
  moreover have "state (tun (?S3\<lparr>pc := Returned\<rparr>)) = StateConnecting"
    by (simp add: runOnce_begin_def setState_def)
  moreover have "tun T = tun (?S3\<lparr>pc := Returned\<rparr>)" if "run_step L fl (?S3\<lparr>pc := Returned\<rparr>) T" for T
    using that by cases simp_all
  moreover have "pc (?S3\<lparr>pc := Returned\<rparr>) = Returned" by simp
  ultimately show ?thesis by blast
qed

theorem canceled_bring_up_stays_connecting_witness:
  "\<exists>S. run_reach demo_libs (\<lambda>x. x) demo_cfg S \<and> pc S = Returned \<and> state (tun S) = StateConnecting"
  using canceled_bring_up_stays_connecting [of demo_libs "\<lambda>x. x" demo_cfg] by blast

section \<open>What a tunnel shows, as an abstract machine\<close>









end
