(* ===== verification/Proxy.thy ===== *)
theory Proxy
  imports SocksListener TunnelRun
begin

text \<open>
  The wrapper of src/proxy.go: \<^verbatim>\<open>NewProxy\<close>, \<^verbatim>\<open>Netstack\<close>, \<^verbatim>\<open>Snapshot\<close> and \<^verbatim>\<open>Run\<close> with
  \<^verbatim>\<open>waitForTunnelStart\<close>. \<^verbatim>\<open>Run\<close> is a step relation over the tunnel's (\<open>run_step\<close>) and the
  listener's (\<open>listener_bg\<close>) own steps: the goroutine of the tunnel, those of the listener and the
  caller's own goroutine interleave freely under one context.
\<close>

section \<open>Data\<close>

record proxy =
  p_cfg :: cityConfig
  p_Username :: string
  p_Password :: string
  p_DNSResolverIP :: "byte list option"
  p_set :: bool             \<comment> \<open>whether the tunnel and listener pointers are set\<close>

definition NewProxy :: "cityConfig \<Rightarrow> proxy" where
  "NewProxy cfg =
     \<lparr>p_cfg = cfg, p_Username = [], p_Password = [], p_DNSResolverIP = None, p_set = False\<rparr>"

definition Proxy_Cfg :: "proxy \<Rightarrow> cityConfig" where "Proxy_Cfg p = p_cfg p"

definition proxy_opts :: "proxy \<Rightarrow> socksOpts" where
  "proxy_opts p =
     \<lparr>so_Username = p_Username p, so_Password = p_Password p, so_DNSResolverIP = p_DNSResolverIP p\<rparr>"

text \<open>Where \<^verbatim>\<open>Run\<close> is. In \<open>PJoin\<close> it waits for the tunnel; the flag says whether it then clears
  the pointers.\<close>

datatype proxy_pc =
    PInit
  | PWaitStart
  | PStart
  | PWaitCtx
  | PStopping "sock_id option"
  | PJoin bool
  | PDone

record proxy_world =
  px :: proxy
  px_pc :: proxy_pc
  px_run :: run_state
  px_lw :: listener_world

definition Proxy_Netstack :: "proxy_world \<Rightarrow> dev_id option" where
  "Proxy_Netstack W = (if p_set (px W) then Netstack (tun (px_run W)) else None)"

section \<open>Snapshot\<close>

record status =
  st_City :: string
  st_Region :: string
  st_Listen :: string
  st_State :: State
  st_LastError :: string
  st_ServerCN :: string
  st_ServerIP :: string
  st_ServerPort :: int
  st_PeerIP :: string
  st_ConnectedAtMS :: int
  st_AddKeyAtMS :: int
  st_UptimeSec :: int
  st_HandshakeAgoS :: int
  st_RxBytes :: uint64
  st_TxBytes :: uint64
  st_RxRate :: rat
  st_TxRate :: rat
  st_ProbeAtMS :: int
  st_ProbeOK :: bool
  st_ProbeStatus :: string
  st_ProbeLatencyMs :: int
  st_PingLatencyMs :: int
  st_ProbeCount :: uint64
  st_ProbeFails :: uint64
  st_ConnectTries :: uint64
  st_ConnectFails :: uint64
  st_AuthToken :: string
  st_AuthTokenAcquiredAtMS :: int
  st_Conns :: "connInfo list"

definition idle_status :: "cityConfig \<Rightarrow> status" where
  "idle_status cfg =
     \<lparr>st_City = City cfg, st_Region = Region cfg, st_Listen = Listen cfg, st_State = StateIdle,
      st_LastError = [], st_ServerCN = [], st_ServerIP = [], st_ServerPort = 0, st_PeerIP = [],
      st_ConnectedAtMS = 0, st_AddKeyAtMS = 0, st_UptimeSec = 0, st_HandshakeAgoS = -1,
      st_RxBytes = 0, st_TxBytes = 0, st_RxRate = 0, st_TxRate = 0, st_ProbeAtMS = 0,
      st_ProbeOK = False, st_ProbeStatus = [], st_ProbeLatencyMs = 0, st_PingLatencyMs = 0,
      st_ProbeCount = 0, st_ProbeFails = 0, st_ConnectTries = 0, st_ConnectFails = 0,
      st_AuthToken = [], st_AuthTokenAcquiredAtMS = 0, st_Conns = []\<rparr>"

definition merge_tunnel :: "tunnelStatus \<Rightarrow> status \<Rightarrow> status" where
  "merge_tunnel ts s =
     s\<lparr>st_State := ts_State ts, st_LastError := ts_LastError ts, st_ServerCN := ts_ServerCN ts,
       st_ServerIP := ts_ServerIP ts, st_ServerPort := ts_ServerPort ts, st_PeerIP := ts_PeerIP ts,
       st_ConnectedAtMS := ts_ConnectedAtMS ts, st_AddKeyAtMS := ts_AddKeyAtMS ts,
       st_UptimeSec := ts_UptimeSec ts, st_HandshakeAgoS := ts_HandshakeAgoS ts,
       st_RxBytes := ts_RxBytes ts, st_TxBytes := ts_TxBytes ts, st_RxRate := ts_RxRate ts,
       st_TxRate := ts_TxRate ts, st_ProbeAtMS := ts_ProbeAtMS ts, st_ProbeOK := ts_ProbeOK ts,
       st_ProbeStatus := ts_ProbeStatus ts, st_ProbeLatencyMs := ts_ProbeLatencyMs ts,
       st_PingLatencyMs := ts_PingLatencyMs ts, st_ProbeCount := ts_ProbeCount ts,
       st_ProbeFails := ts_ProbeFails ts, st_ConnectTries := ts_ConnectTries ts,
       st_ConnectFails := ts_ConnectFails ts, st_AuthToken := ts_AuthToken ts,
       st_AuthTokenAcquiredAtMS := ts_AuthTokenAcquiredAtMS ts\<rparr>"

definition merge_listener :: "listenerStatus \<Rightarrow> status \<Rightarrow> status" where
  "merge_listener ls s =
     s\<lparr>st_Conns := (case ls_Conns ls of None \<Rightarrow> [] | Some cs \<Rightarrow> cs),
       st_Listen := (if ls_Bound ls \<and> ls_Addr ls \<noteq> [] then ls_Addr ls else st_Listen s)\<rparr>"

text \<open>The pointers are read under the lock (state \<open>W\<close>); the tunnel and the listener are asked one after
  the other, each under its own lock (states \<open>Wt\<close> and \<open>Wl\<close>): steps of others may lie between.\<close>

definition Proxy_Snapshot ::
  "(rat \<Rightarrow> rat) \<Rightarrow> gotime \<Rightarrow> gotime \<Rightarrow> piaClient option \<Rightarrow> conn_id list \<Rightarrow>
   proxy_world \<Rightarrow> proxy_world \<Rightarrow> proxy_world \<Rightarrow> status" where
  "Proxy_Snapshot fl now1 now2 pia ord W Wt Wl =
     (let s = idle_status (p_cfg (px W))
      in if p_set (px W)
         then merge_listener (Listener_Snapshot ord (lst (px_lw Wl)))
                (merge_tunnel (Tunnel_Snapshot fl now1 now2 pia (tun (px_run Wt))) s)
         else s)"

section \<open>Run\<close>

text \<open>The context of \<^verbatim>\<open>Run\<close> is context 0 of the listener, and the one of the tunnel.\<close>

definition cancel_ctx :: "proxy_world \<Rightarrow> proxy_world" where
  "cancel_ctx W =
     W\<lparr>px_run := (px_run W)\<lparr>canceled := True\<rparr>,
       px_lw := (px_lw W)\<lparr>ctx_done := insert 0 (ctx_done (px_lw W))\<rparr>\<rparr>"

definition proxy_start :: "proxy \<Rightarrow> proxy_world" where
  "proxy_start p =
     \<lparr>px = p\<lparr>p_set := False\<rparr>, px_pc = PInit, px_run = run_start (p_cfg p),
      px_lw = listener_init (Listen (p_cfg p)) (proxy_opts p)\<rparr>"

inductive proxy_step :: "libs \<Rightarrow> (rat \<Rightarrow> rat) \<Rightarrow> proxy_world \<Rightarrow> proxy_world \<Rightarrow> bool" for L fl where
  ctx_cancel: "proxy_step L fl W (cancel_ctx W)"
| begin_run: "px_pc W = PInit \<Longrightarrow>
     proxy_step L fl W (W\<lparr>px := (px W)\<lparr>p_set := True\<rparr>, px_pc := PWaitStart\<rparr>)"
| tunnel_moves: "px_pc W \<noteq> PInit \<Longrightarrow> run_step L fl (px_run W) R \<Longrightarrow> canceled R = canceled (px_run W) \<Longrightarrow>
     proxy_step L fl W (W\<lparr>px_run := R\<rparr>)"
| listener_moves: "listener_bg (px_lw W) w \<Longrightarrow> proxy_step L fl W (W\<lparr>px_lw := w\<rparr>)"
| tunnel_started: "px_pc W = PWaitStart \<Longrightarrow> state (tun (px_run W)) \<noteq> StateIdle \<Longrightarrow>
     proxy_step L fl W (W\<lparr>px_pc := PStart\<rparr>)"
| not_started: "px_pc W = PWaitStart \<Longrightarrow> canceled (px_run W) \<Longrightarrow>
     proxy_step L fl W (W\<lparr>px_pc := PJoin False\<rparr>)"
| start_listener: "px_pc W = PStart \<Longrightarrow> fresh_socket listen (px_lw W) \<Longrightarrow>
     Start 0 listen (px_lw W) = (err, w) \<Longrightarrow>
     proxy_step L fl W (W\<lparr>px_pc := PWaitCtx, px_lw := w\<rparr>)"
| stop_listener: "px_pc W = PWaitCtx \<Longrightarrow> canceled (px_run W) \<Longrightarrow>
     proxy_step L fl W (W\<lparr>px_pc := PStopping (map_option fst (l_listener (lst (px_lw W)))),
                          px_lw := Stop (px_lw W)\<rparr>)"
| stopped: "px_pc W = PStopping s \<Longrightarrow> Stop_returns (px_lw W) s \<Longrightarrow>
     proxy_step L fl W (W\<lparr>px_pc := PJoin True\<rparr>)"
| join: "px_pc W = PJoin b \<Longrightarrow> pc (px_run W) = Returned \<Longrightarrow>
     proxy_step L fl W (W\<lparr>px_pc := PDone, px := (px W)\<lparr>p_set := p_set (px W) \<and> \<not> b\<rparr>\<rparr>)"

inductive proxy_reach :: "libs \<Rightarrow> (rat \<Rightarrow> rat) \<Rightarrow> proxy \<Rightarrow> proxy_world \<Rightarrow> bool" for L fl p where
  start: "proxy_reach L fl p (proxy_start p)"
| step: "proxy_reach L fl p W \<Longrightarrow> proxy_step L fl W W' \<Longrightarrow> proxy_reach L fl p W'"

section \<open>The invariant\<close>

definition left_idle :: "run_state \<Rightarrow> bool" where
  "left_idle R \<longleftrightarrow> pc R \<noteq> LoopHead \<or> state (tun R) \<noteq> StateIdle"

lemma left_idle_step: "run_step L fl R R' \<Longrightarrow> run_inv R \<Longrightarrow> left_idle R \<Longrightarrow> left_idle R'"
  by (induction rule: run_step.induct) (auto simp: left_idle_def run_inv_def)

definition phase_inv :: "proxy_world \<Rightarrow> bool" where
  "phase_inv W \<longleftrightarrow>
     (case px_pc W of
        PInit \<Rightarrow> own_done (px_lw W) = {} \<and> \<not> l_started (lst (px_lw W)) \<and> \<not> p_set (px W)
      | PWaitStart \<Rightarrow> own_done (px_lw W) = {} \<and> \<not> l_started (lst (px_lw W)) \<and> p_set (px W)
      | PStart \<Rightarrow> own_done (px_lw W) = {} \<and> \<not> l_started (lst (px_lw W)) \<and> p_set (px W) \<and>
          left_idle (px_run W)
      | PWaitCtx \<Rightarrow> own_done (px_lw W) = {} \<and> p_set (px W) \<and> left_idle (px_run W)
      | PStopping s \<Rightarrow> own_done (px_lw W) = set_option s \<and> \<not> l_started (lst (px_lw W)) \<and>
          p_set (px W) \<and> left_idle (px_run W) \<and> canceled (px_run W)
      | PJoin b \<Rightarrow> accepting (px_lw W) = {} \<and> \<not> l_started (lst (px_lw W)) \<and> p_set (px W) \<and>
          canceled (px_run W)
      | PDone \<Rightarrow> accepting (px_lw W) = {} \<and> \<not> l_started (lst (px_lw W)) \<and>
          pc (px_run W) = Returned \<and> canceled (px_run W))"

definition proxy_inv :: "libs \<Rightarrow> (rat \<Rightarrow> rat) \<Rightarrow> proxy \<Rightarrow> proxy_world \<Rightarrow> bool" where
  "proxy_inv L fl p W \<longleftrightarrow>
     run_reach L fl (p_cfg p) (px_run W) \<and> listener_reach (Listen (p_cfg p)) (proxy_opts p) (px_lw W) \<and>
     (px W)\<lparr>p_set := False\<rparr> = p\<lparr>p_set := False\<rparr> \<and> phase_inv W"

lemma bg_keeps:
  "listener_bg w w' \<Longrightarrow> own_done w' = own_done w \<and> l_started (lst w') = l_started (lst w) \<and>
     l_listener (lst w') = l_listener (lst w) \<and> accepting w' \<subseteq> accepting w"
  by (induction rule: listener_bg.induct) auto

lemma accepting_own_done:
  "listener_inv a opts w \<Longrightarrow> \<not> l_started (lst w) \<Longrightarrow> accepting w \<subseteq> own_done w"
  by (frule (1) listener_stopped) (simp add: listener_inv_def current_def)

lemma returned_step: "run_step L fl R R' \<Longrightarrow> pc R = Returned \<Longrightarrow> pc R' = Returned"
  by (induction rule: run_step.induct) auto

lemma left_idle_canceled [simp]: "left_idle (R\<lparr>canceled := b\<rparr>) = left_idle R"
  by (simp add: left_idle_def)

lemma Start_own_done: "Start ctx listen w = (err, w') \<Longrightarrow> own_done w' = own_done w"
  by (auto simp: Start_def Let_def split: if_splits sum.splits)

lemma phase_inv_step:
  assumes "proxy_step L fl W W'" and "phase_inv W" and "run_inv (px_run W)"
    and "listener_inv a opts (px_lw W)"
  shows "phase_inv W'"
  using assms
proof (induction rule: proxy_step.induct)
  case (ctx_cancel W)
  then show ?case by (cases "px_pc W") (simp_all add: phase_inv_def cancel_ctx_def)
next
  case (begin_run W)
  then show ?case by (simp add: phase_inv_def)
next
  case (tunnel_moves W R)
  then show ?case using left_idle_step [OF tunnel_moves(2)] returned_step [OF tunnel_moves(2)]
    by (cases "px_pc W") (simp_all add: phase_inv_def)
next
  case (listener_moves W w)
  then show ?case using bg_keeps [OF listener_moves(1)]
    by (cases "px_pc W") (auto simp: phase_inv_def)
next
  case (tunnel_started W)
  then show ?case by (simp add: phase_inv_def left_idle_def)
next
  case (not_started W)
  then show ?case using accepting_own_done [of a opts "px_lw W"] by (simp add: phase_inv_def)
next
  case (start_listener W listen err w)
  then show ?case using Start_own_done [OF start_listener(3)] by (simp add: phase_inv_def)
next
  case (stop_listener W)
  then show ?case using listener_stopped [of a opts "px_lw W"]
    by (auto simp: phase_inv_def Stop_def Let_def split: option.splits)
next
  case (stopped W s)
  then show ?case using accepting_own_done [of a opts "px_lw W"]
    by (auto simp: phase_inv_def Stop_returns_def split: option.splits)
next
  case (join W b)
  then show ?case by (simp add: phase_inv_def)
qed

interpretation proxy_m: machine "proxy_step L fl" "proxy_reach L fl p" "proxy_start p" for L fl p
  by unfold_locales (rule proxy_reach.start, erule (1) proxy_reach.step, erule proxy_reach.induct, blast+)

text \<open>Seen through its tunnel a proxy is a tunnel, and through its listener a listener.\<close>

lemma proxy_step_run: "proxy_step L fl W W' \<Longrightarrow> px_run W' = px_run W \<or> run_step L fl (px_run W) (px_run W')"
  by (cases rule: proxy_step.cases) (auto simp: cancel_ctx_def intro: run_step.cancel)

interpretation proxy_t: refinement "proxy_step L fl" "proxy_reach L fl p" "proxy_start p" px_run "run_step L fl"
  for L fl p
  by unfold_locales (rule proxy_step_run)

interpretation proxy_l: refinement "proxy_step L fl" "proxy_reach L fl p" "proxy_start p" px_lw listener_step
  for L fl p
proof unfold_locales
  show "px_lw W' = px_lw W \<or> listener_step (px_lw W) (px_lw W')" if "proxy_step L fl W W'" for W W'
    using that by cases (auto simp: cancel_ctx_def intro: listener_step.ctx_end listener_step.background
        listener_step.start listener_step.stop)
qed

lemma proxy_reach_run: "proxy_reach L fl p W \<Longrightarrow> run_reach L fl (p_cfg p) (px_run W)"
  using run_m.steps_reach [OF proxy_t.abs_reached, of L fl p W] run_reach.start by (simp add: proxy_start_def)

lemma proxy_reach_listener: "proxy_reach L fl p W \<Longrightarrow> listener_reach (Listen (p_cfg p)) (proxy_opts p) (px_lw W)"
  using listener_m.steps_reach [OF proxy_l.abs_reached, of L fl p W] listener_reach.init
  by (simp add: proxy_start_def)

lemma proxy_reach_inv: "proxy_reach L fl p W \<Longrightarrow> proxy_inv L fl p W"
proof (erule proxy_m.reach_induct)
  show "proxy_inv L fl p (proxy_start p)"
    by (simp add: proxy_inv_def proxy_start_def run_reach.start listener_reach.init phase_inv_def)
      (simp add: listener_init_def NewSocksListener_def)
next
  fix V V'
  assume r: "proxy_reach L fl p V" and inv: "proxy_inv L fl p V" and st: "proxy_step L fl V V'"
  have "phase_inv V'"
    using phase_inv_step [OF st _ run_reach_inv [OF proxy_reach_run [OF r]]
        listener_reach_inv [OF proxy_reach_listener [OF r]]] inv by (simp add: proxy_inv_def)
  moreover have "(px V')\<lparr>p_set := False\<rparr> = p\<lparr>p_set := False\<rparr>"
    using st inv by cases (simp_all add: cancel_ctx_def proxy_inv_def)
  moreover have "proxy_reach L fl p V'" using r st by (rule proxy_reach.step)
  ultimately show "proxy_inv L fl p V'" by (simp add: proxy_inv_def proxy_reach_run proxy_reach_listener)
qed

lemmas proxy_steps_reach = proxy_m.steps_reach [rotated]

text \<open>What a tunnel in a reachable state shows against what it has.\<close>

lemma serving_facts:
  assumes "run_inv R"
  shows "(state (tun R) \<in> {StateUp, StateDegraded} \<longleftrightarrow> netNet (tun R) \<noteq> None) \<and>
    (netNet (tun R) = None \<longrightarrow> session (tun R) = None) \<and>
    (\<forall>n. netNet (tun R) = Some n \<longrightarrow> open_devs R = {n} \<and> session (tun R) \<noteq> None)"
  using assms by (cases "pc R") (auto simp: run_inv_def serving_ok_def quiet_def)

lemma proxy_reach_parts:
  assumes "proxy_reach L fl p W"
  shows "run_inv (px_run W)" "listener_inv (Listen (p_cfg p)) (proxy_opts p) (px_lw W)"
    "phase_inv W" "p_cfg (px W) = p_cfg p"
proof -
  have inv: "proxy_inv L fl p W" using assms by (rule proxy_reach_inv)
  then show "run_inv (px_run W)" "listener_inv (Listen (p_cfg p)) (proxy_opts p) (px_lw W)" "phase_inv W"
    using run_reach_inv listener_reach_inv by (auto simp: proxy_inv_def)
  have "p_cfg ((px W)\<lparr>p_set := False\<rparr>) = p_cfg (p\<lparr>p_set := False\<rparr>)"
    using inv by (simp only: proxy_inv_def)
  then show "p_cfg (px W) = p_cfg p" by simp
qed

text \<open>Before \<^verbatim>\<open>Run\<close> is called nothing of the tunnel has run.\<close>

lemma init_not_started:
  "proxy_reach L fl p W \<Longrightarrow> px_pc W = PInit \<Longrightarrow>
     netNet (tun (px_run W)) = None \<and> pc (px_run W) = LoopHead"
proof (induction rule: proxy_reach.induct)
  case start
  then show ?case by (simp add: proxy_start_def run_start_def NewTunnel_def)
next
  case (step W W')
  from step(2,3,4) show ?case by cases (simp_all add: cancel_ctx_def)
qed

lemma run_step_canceled: "run_step L fl S T \<Longrightarrow> canceled T = canceled S \<or> T = S\<lparr>canceled := True\<rparr>"
  by (induction rule: run_step.induct) simp_all

text \<open>Every run of the tunnel is one of the proxy.\<close>

lemma proxy_runs_tunnel:
  assumes "run_reach L fl (p_cfg p) R"
  shows "\<exists>W. proxy_reach L fl p W \<and> px_run W = R \<and> px_pc W = PWaitStart \<and> p_set (px W)"
  using assms
proof (induction rule: run_reach.induct)
  case start
  let ?W = "(proxy_start p)\<lparr>px := (px (proxy_start p))\<lparr>p_set := True\<rparr>, px_pc := PWaitStart\<rparr>"
  have "proxy_reach L fl p ?W"
    by (rule proxy_reach.step [OF proxy_reach.start], rule proxy_step.begin_run) (simp add: proxy_start_def)
  then show ?case by (rule exI [of _ ?W, OF conjI]) (simp add: proxy_start_def)
next
  case (step S T)
  then obtain W where W: "proxy_reach L fl p W" "px_run W = S" "px_pc W = PWaitStart" "p_set (px W)" by blast
  show ?case
  proof (cases "canceled T = canceled S")
    case True
    have "proxy_step L fl W (W\<lparr>px_run := T\<rparr>)"
      by (rule proxy_step.tunnel_moves) (use W step True in simp_all)
    with W(1) have "proxy_reach L fl p (W\<lparr>px_run := T\<rparr>)" by (rule proxy_reach.step)
    then show ?thesis by (intro exI [of _ "W\<lparr>px_run := T\<rparr>"]) (simp add: W)
  next
    case False
    then have T: "T = S\<lparr>canceled := True\<rparr>" using run_step_canceled [OF step(2)] by blast
    have "proxy_reach L fl p (cancel_ctx W)" by (rule proxy_reach.step [OF W(1) proxy_step.ctx_cancel])
    then show ?thesis by (intro exI [of _ "cancel_ctx W"]) (simp add: W T, simp add: cancel_ctx_def W)
  qed
qed

text \<open>What a status says of the moment its tunnel was asked.\<close>

lemma snapshot_serving:
  assumes "proxy_reach L fl p W" and "(proxy_step L fl)\<^sup>*\<^sup>* W Wt"
    and "st_State (Proxy_Snapshot fl now1 now2 pia ord W Wt Wl) \<in> {StateUp, StateDegraded}"
  shows "open_devs (px_run Wt) \<noteq> {} \<and> netNet (tun (px_run Wt)) \<noteq> None"
  using serving_facts [OF proxy_reach_parts(1) [OF proxy_steps_reach [OF assms(1,2)]]] assms(3)
  by (auto simp: Proxy_Snapshot_def merge_listener_def merge_tunnel_def Tunnel_Snapshot_def
      idle_status_def Let_def split: if_splits)

lemma snapshot_city: "st_City (Proxy_Snapshot fl now1 now2 pia ord W Wt Wl) = City (p_cfg (px W))"
  by (simp add: Proxy_Snapshot_def merge_listener_def merge_tunnel_def idle_status_def Let_def)

section \<open>Properties\<close>

text \<open>C5: The listening socket is open only after the tunnel has begun its first bring-up. When
  \<^verbatim>\<open>Run\<close> has returned, however it was cancelled, the tunnel has returned too, its device is
  closed, no socket listens and no accept loop runs.\<close>

theorem proxy_run_returns_clean:
  assumes "proxy_reach L fl p W"
  shows "(socks_open (px_lw W) \<noteq> {} \<longrightarrow> left_idle (px_run W)) \<and>
    (px_pc W = PDone \<longrightarrow> pc (px_run W) = Returned \<and> open_devs (px_run W) = {} \<and>
       Proxy_Netstack W = None \<and> socks_open (px_lw W) = {} \<and> accepting (px_lw W) = {})"
proof -
  note parts = proxy_reach_parts [OF assms]
  have "socks_open (px_lw W) \<subseteq> accepting (px_lw W)" using parts(2) by (simp add: listener_inv_def)
  moreover have "accepting (px_lw W) \<subseteq> own_done (px_lw W)" if "\<not> l_started (lst (px_lw W))"
    using parts(2) that by (rule accepting_own_done)
  ultimately have "socks_open (px_lw W) \<noteq> {} \<longrightarrow> left_idle (px_run W)"
    using parts(3) by (cases "px_pc W") (auto simp: phase_inv_def)
  moreover have "px_pc W = PDone \<Longrightarrow> pc (px_run W) = Returned \<and> open_devs (px_run W) = {} \<and>
      Proxy_Netstack W = None \<and> socks_open (px_lw W) = {} \<and> accepting (px_lw W) = {}"
    using parts(1,3) \<open>socks_open (px_lw W) \<subseteq> accepting (px_lw W)\<close>
    by (auto simp: phase_inv_def run_inv_def quiet_def Proxy_Netstack_def Netstack_def)
  ultimately show ?thesis by blast
qed

theorem proxy_run_returns_clean_witness:
  "\<exists>W. proxy_reach demo_libs (\<lambda>x. x) (NewProxy demo_cfg) W \<and> px_pc W = PDone \<and> socks_open (px_lw W) = {}"
proof -
  have c: "run_reach demo_libs (\<lambda>x. x) (p_cfg (NewProxy demo_cfg)) ((run_start demo_cfg)\<lparr>canceled := True\<rparr>)"
    by (simp add: NewProxy_def) (rule run_reach.step [OF run_reach.start run_step.cancel])
  let ?R = "(run_start demo_cfg)\<lparr>canceled := True, pc := Returned\<rparr>"
  have "run_step demo_libs (\<lambda>x. x) ((run_start demo_cfg)\<lparr>canceled := True\<rparr>)
      ((run_start demo_cfg)\<lparr>canceled := True\<rparr>\<lparr>pc := Returned\<rparr>)"
    by (rule run_step.head_return) (simp_all add: run_start_def)
  then have "run_reach demo_libs (\<lambda>x. x) (p_cfg (NewProxy demo_cfg)) ?R"
    using run_reach.step [OF c] by simp
  from proxy_runs_tunnel [OF this] obtain W where W: "proxy_reach demo_libs (\<lambda>x. x) (NewProxy demo_cfg) W"
    "px_run W = ?R" "px_pc W = PWaitStart" by blast
  let ?W1 = "W\<lparr>px_pc := PJoin False\<rparr>"
  have "proxy_step demo_libs (\<lambda>x. x) W ?W1"
    by (rule proxy_step.not_started) (simp_all add: W)
  with W(1) have r1: "proxy_reach demo_libs (\<lambda>x. x) (NewProxy demo_cfg) ?W1" by (rule proxy_reach.step)
  have "proxy_step demo_libs (\<lambda>x. x) ?W1 (?W1\<lparr>px_pc := PDone, px := (px ?W1)\<lparr>p_set := p_set (px ?W1) \<and> \<not> False\<rparr>\<rparr>)"
    by (rule proxy_step.join) (simp_all add: W)
  with r1 obtain W2 where "proxy_reach demo_libs (\<lambda>x. x) (NewProxy demo_cfg) W2" "px_pc W2 = PDone"
    using proxy_reach.step by fastforce
  with proxy_run_returns_clean [OF this(1)] show ?thesis by blast
qed

text \<open>C21: A status agrees with what the proxy does, whatever else runs while it is put together. Once
  the proxy has a tunnel it shows up or degraded exactly if there was a netstack to dial through
  when the tunnel was asked, and then names the server of the session over the only open device;
  otherwise it names no server. It lists no connections unless the listener was bound when asked.
  The cached account token is part of it. Before \<^verbatim>\<open>Run\<close> and after it the proxy is shown idle.\<close>

theorem proxy_snapshot_consistent:
  assumes "proxy_reach L fl p W" and "(proxy_step L fl)\<^sup>*\<^sup>* W Wt" and "(proxy_step L fl)\<^sup>*\<^sup>* Wt Wl"
    and "s = Proxy_Snapshot fl now1 now2 pia ord W Wt Wl"
  shows "(if p_set (px W)
     then (st_State s \<in> {StateUp, StateDegraded} \<longleftrightarrow> Netstack (tun (px_run Wt)) \<noteq> None) \<and>
       (case Netstack (tun (px_run Wt)) of
          None \<Rightarrow> st_ServerCN s = [] \<and> st_UptimeSec s = 0
        | Some n \<Rightarrow> open_devs (px_run Wt) = {n} \<and>
            (\<exists>ws. session (tun (px_run Wt)) = Some ws \<and>
               st_ServerCN s = se_cn (ws_server ws) \<and> st_ServerIP s = se_ip (ws_server ws))) \<and>
       (pia = Some c \<longrightarrow> st_AuthToken s = token c)
     else st_State s = StateIdle \<and> st_ServerCN s = [] \<and> st_AuthToken s = []) \<and>
    (\<not> l_started (lst (px_lw Wl)) \<longrightarrow> st_Conns s = [] \<and> st_Listen s = Listen (p_cfg p)) \<and>
    (Wt = W \<longrightarrow> (st_State s \<in> {StateUp, StateDegraded} \<longleftrightarrow> Proxy_Netstack W \<noteq> None))"
proof (cases "p_set (px W)")
  case False
  then show ?thesis
    by (simp add: assms(4) Proxy_Snapshot_def Proxy_Netstack_def idle_status_def proxy_reach_parts(4) [OF assms(1)])
next
  case True
  note parts = proxy_reach_parts [OF assms(1)]
  have rt: "proxy_reach L fl p Wt" using assms(1,2) by (rule proxy_steps_reach)
  have off: "l_server (lst (px_lw Wl)) = None \<and> l_listener (lst (px_lw Wl)) = None \<and> l_addr (lst (px_lw Wl)) = Listen (p_cfg p)"
    if "\<not> l_started (lst (px_lw Wl))"
    using listener_stopped [OF proxy_reach_parts(2) [OF proxy_steps_reach [OF rt assms(3)]] that]
      proxy_reach_parts(2) [OF proxy_steps_reach [OF rt assms(3)]] by (simp add: listener_inv_def)
  show ?thesis
    using serving_facts [OF proxy_reach_parts(1) [OF rt]] off True
    by (cases "netNet (tun (px_run Wt))")
      (auto simp: assms(4) Proxy_Snapshot_def Proxy_Netstack_def Netstack_def merge_listener_def merge_tunnel_def
        Tunnel_Snapshot_def Listener_Snapshot_def idle_status_def Let_def GetToken_def parts(4))
qed

theorem proxy_snapshot_consistent_witness:
  "\<exists>W. proxy_reach demo_libs (\<lambda>x. x) (NewProxy demo_cfg) W \<and> Proxy_Netstack W = Some 4 \<and>
     st_AuthToken (Proxy_Snapshot (\<lambda>x. x) 0 0 (Some (demo_client ''T'')) [] W W W) = token (demo_client ''T'') \<and>
     st_State (Proxy_Snapshot (\<lambda>x. x) 0 0 (Some (demo_client ''T'')) [] W W W) \<in> {StateUp, StateDegraded}"
proof -
  obtain R where "run_reach demo_libs (\<lambda>x. x) demo_cfg R" "netNet (tun R) = Some 4"
    using demo_serving by blast
  with proxy_runs_tunnel [of demo_libs "\<lambda>x. x" "NewProxy demo_cfg" R] obtain W where
    W: "proxy_reach demo_libs (\<lambda>x. x) (NewProxy demo_cfg) W" "px_run W = R" "p_set (px W)"
    by (auto simp: NewProxy_def)
  then have n: "Proxy_Netstack W = Some 4"
    using \<open>netNet (tun R) = Some 4\<close> by (simp add: Proxy_Netstack_def Netstack_def)
  from proxy_snapshot_consistent [OF W(1) rtranclp.rtrancl_refl rtranclp.rtrancl_refl refl,
      of 0 0 "Some (demo_client ''T'')" "[]" "demo_client ''T''"] W n
  show ?thesis by (intro exI [of _ W]) (simp add: Proxy_Netstack_def split: if_splits)
qed

end
