(* ===== verification/Daemon.thy ===== *)
theory Daemon
  imports Proxy "HOL-Library.Char_ord" "HOL-Library.List_Lexorder" "HOL-Library.Multiset"
begin

text \<open>
  The daemon of src/cmd/piaproxyd: the environment variables, the list of cities and its filter
  (main.go), the part of \<^verbatim>\<open>main\<close> up to the start of the proxies, and the status server
  (status.go). The process environment, the files and the network are parameters. Go compares
  strings byte by byte, which is the lexicographic order of the library on \<^typ>\<open>string\<close>.
\<close>

section \<open>Environment variables\<close>

type_synonym environ = "string \<Rightarrow> string"     \<comment> \<open>\<^verbatim>\<open>os.Getenv\<close>: empty when unset\<close>

definition envOr :: "environ \<Rightarrow> string \<Rightarrow> string \<Rightarrow> string" where
  "envOr getenv k d = (if getenv k \<noteq> [] then getenv k else d)"

definition envOrInt :: "environ \<Rightarrow> string \<Rightarrow> int \<Rightarrow> int" where
  "envOrInt getenv k d =
     (if getenv k \<noteq> [] then (case atoi (getenv k) of Some n \<Rightarrow> n | None \<Rightarrow> d) else d)"

section \<open>Cities\<close>

definition no_server :: serverEndpoint where
  "no_server = \<lparr>se_ip = [], se_cn = [], se_port = 0\<rparr>"

definition city :: "string \<Rightarrow> string \<Rightarrow> string \<Rightarrow> cityConfig" where
  "city name reg listen = \<lparr>City = name, Region = reg, Listen = listen, PreferredServer = no_server\<rparr>"

definition defaultCities :: "(string \<times> string) list" where
  "defaultCities =
     [(''Vancouver'', ''ca_vancouver''), (''Seattle'', ''us_seattle''), (''Portland'', ''us_oregon-pf''),
      (''San Francisco'', ''us_silicon_valley''), (''Los Angeles'', ''us_california''),
      (''Denver'', ''us_denver''), (''Dallas'', ''us_south_west''), (''Houston'', ''us_houston''),
      (''Chicago'', ''us_chicago''), (''Atlanta'', ''us_atlanta''), (''NYC'', ''us_new_york_city''),
      (''Miami'', ''us_florida''), (''London'', ''uk''), (''Paris'', ''france''), (''Mumbai'', ''in''),
      (''Seoul'', ''kr_south_korea-pf''), (''Tokyo'', ''japan''), (''Beijing'', ''china''),
      (''Singapore'', ''sg''), (''Sydney'', ''aus''), (''Melbourne'', ''aus_melbourne'')]"

text \<open>One turn of the loop over the entries of \<^verbatim>\<open>PIA_REGIONS\<close>.\<close>

definition city_entry :: "unicode \<Rightarrow> string \<Rightarrow> int \<Rightarrow> cityConfig list \<Rightarrow> string \<Rightarrow> cityConfig list" where
  "city_entry U bind base out entry0 =
     (let entry = trim_space U entry0
      in if entry = [] then out
         else (case cut entry (CHR ''='') of
             None \<Rightarrow> out
           | Some (name, rest) \<Rightarrow>
               (let auto = int64 (base + int (length out));
                    (reg, prt) = (case cut rest (CHR '':'') of
                        None \<Rightarrow> (rest, auto)
                      | Some (r, p) \<Rightarrow> (r, case atoi p of Some n \<Rightarrow> n | None \<Rightarrow> auto))
                in out @ [city (trim_space U name) (trim_space U reg) (join_host_port bind (itoa prt))])))"

definition buildCityList :: "unicode \<Rightarrow> environ \<Rightarrow> string \<Rightarrow> int \<Rightarrow> cityConfig list" where
  "buildCityList U getenv bind base =
     (if getenv ''PIA_REGIONS'' \<noteq> []
      then foldl (city_entry U bind base) [] (split_on (CHR '','') (getenv ''PIA_REGIONS''))
      else map (\<lambda>(i, (c, r)). city c r (join_host_port bind (itoa (int64 (base + int i)))))
             (zip [0..<length defaultCities] defaultCities))"

definition filterUnknownRegions :: "unicode \<Rightarrow> cityConfig list \<Rightarrow> region list \<Rightarrow> cityConfig list" where
  "filterUnknownRegions U cities regs =
     (let known = set (map (\<lambda>r. to_lower U (rg_id r)) regs)
      in filter (\<lambda>c. to_lower U (Region c) \<in> known) cities)"

section \<open>main\<close>

text \<open>
  \<^verbatim>\<open>main\<close> up to the point where it starts the proxies: it either ends with a message
  (\<^verbatim>\<open>log.Fatal\<close>) or goes on with the control address, the proxies and the warmed-up client. The
  requests made to PIA on the way are returned too. \<open>load\<close> is \<^verbatim>\<open>LoadCertFromFile\<close>; \<open>None\<close> is
  not returning.
\<close>

datatype main_end = Fatal string | Running string "proxy list" piaClient

definition cert_hint :: string where
  "cert_hint = newline # ''Download it from https://www.privateinternetaccess.com/openvpn/openvpn.zip '' @
     ''or the pia-foss/desktop repo (rsa_4096.crt).''"

definition main_setup ::
  "libs \<Rightarrow> environ \<Rightarrow> (string \<Rightarrow> string result option) \<Rightarrow> attempt \<Rightarrow> httpResponse env_result \<Rightarrow>
   (main_end \<times> api_request list) option" where
  "main_setup L getenv load A servers =
     (let user = getenv ''PIA_USER''; pass = getenv ''PIA_PWD''
      in if user = [] \<or> pass = [] then Some (Fatal ''PIA_USER and PIA_PWD must be set'', [])
         else (let certPath = envOr getenv ''PIA_CERT_FILE'' ''ca.rsa.4096.crt''
           in case load certPath of
                None \<Rightarrow> None
              | Some (Inl e) \<Rightarrow>
                  Some (Fatal (''read PIA cert ('' @ certPath @ ''): '' @ error_text e @ cert_hint), [])
              | Some (Inr cert) \<Rightarrow>
                  (let controlAddr = envOr getenv ''CONTROL_ADDR'' ''127.0.0.1:9090'';
                       bindAddr = envOr getenv ''BIND_ADDR'' ''127.0.0.1'';
                       basePort = envOrInt getenv ''BASE_PORT'' 9091;
                       cities = buildCityList (lb_uni L) getenv bindAddr basePort
                   in if cities = [] then Some (Fatal ''no cities configured'', [])
                      else (case Token L A (NewPIAClient cert user pass) of
                          (Inl e, c1, q1) \<Rightarrow> Some (Fatal (''PIA auth failed: '' @ error_text e), q1)
                        | (Inr _, c1, q1) \<Rightarrow>
                            (case Regions L servers c1 of
                               (Inl e, c2, q2) \<Rightarrow> Some (Fatal (''PIA server list: '' @ error_text e), q1 @ q2)
                             | (Inr regs, c2, q2) \<Rightarrow>
                                 (let kept = filterUnknownRegions (lb_uni L) cities regs
                                  in if kept = []
                                     then Some (Fatal ''no configured cities matched a known PIA region'', q1 @ q2)
                                     else Some (Running controlAddr (map NewProxy kept) c2, q1 @ q2)))))))"

section \<open>The status server\<close>

record apiPayload =
  ap_NowMS :: int
  ap_UptimeSec :: int
  ap_ProxyCount :: int
  ap_UpCount :: int
  ap_Proxies :: "status list"

text \<open>
  \<^verbatim>\<open>sort.Slice\<close> by city, which promises a sorted rearrangement and nothing about ties.
\<close>

definition sorts_by_city :: "(status list \<Rightarrow> status list) \<Rightarrow> bool" where
  "sorts_by_city srt \<longleftrightarrow> (\<forall>ss. mset (srt ss) = mset ss \<and> sorted (map st_City (srt ss)))"

text \<open>\<^verbatim>\<open>handleAPI\<close>: \<open>snaps\<close> are the proxies' snapshots, in the order of the proxies.\<close>

definition api_collect :: "status list \<times> int \<Rightarrow> status \<Rightarrow> status list \<times> int" where
  "api_collect a snap =
     (case a of (ss, up) \<Rightarrow> (ss @ [snap], if st_State snap = StateUp then up + 1 else up))"

definition handleAPI ::
  "(rat \<Rightarrow> rat) \<Rightarrow> (status list \<Rightarrow> status list) \<Rightarrow> gotime \<Rightarrow> gotime \<Rightarrow> gotime \<Rightarrow> status list \<Rightarrow> apiPayload" where
  "handleAPI fl srt started now1 now2 snaps =
     (let (ss, up) = foldl api_collect ([], 0) snaps; sorted_ss = srt ss
      in \<lparr>ap_NowMS = unix_milli now1, ap_UptimeSec = whole_seconds fl (time_sub now2 started),
          ap_ProxyCount = int (length sorted_ss), ap_UpCount = up, ap_Proxies = sorted_ss\<rparr>)"

datatype response = NotFound | Page string | Api

definition handleIndex :: "string \<Rightarrow> string \<Rightarrow> response" where
  "handleIndex dashboard path = (if path \<noteq> ''/'' then NotFound else Page dashboard)"

text \<open>\<^verbatim>\<open>Routes\<close>: an exact path goes before the subtree of the root.\<close>

definition route :: "string \<Rightarrow> string \<Rightarrow> response" where
  "route dashboard path = (if path = ''/api/status'' then Api else handleIndex dashboard path)"

section \<open>Lemmas\<close>

subsection \<open>The text of PIA_REGIONS\<close>

text \<open>An entry: a city, its region, and a port if one is given.\<close>

type_synonym region_entry = "string \<times> string \<times> int option"

definition entry_text :: "region_entry \<Rightarrow> string" where
  "entry_text e =
     (case e of (n, r, None) \<Rightarrow> n @ CHR ''='' # r
      | (n, r, Some p) \<Rightarrow> n @ CHR ''='' # r @ CHR '':'' # itoa p)"

fun regions_text :: "region_entry list \<Rightarrow> string" where
  "regions_text [] = []"
| "regions_text [e] = entry_text e"
| "regions_text (e # es) = entry_text e @ CHR '','' # regions_text es"

text \<open>ASCII text without white space at its ends.\<close>

definition tidy :: "string \<Rightarrow> bool" where
  "tidy s \<longleftrightarrow> list_all is_ascii s \<and> (s = [] \<or> \<not> is_space (hd s) \<and> \<not> is_space (last s))"

definition entry_ok :: "region_entry \<Rightarrow> bool" where
  "entry_ok e \<longleftrightarrow>
     (case e of (n, r, po) \<Rightarrow> tidy n \<and> tidy r \<and> CHR ''='' \<notin> set n \<and> CHR '','' \<notin> set n \<and>
        CHR '','' \<notin> set r \<and> CHR '':'' \<notin> set r \<and>
        (case po of None \<Rightarrow> True | Some p \<Rightarrow> min_int64 \<le> p \<and> p \<le> max_int64))"

definition entry_port :: "int \<Rightarrow> nat \<Rightarrow> region_entry \<Rightarrow> int" where
  "entry_port base i e = (case snd (snd e) of None \<Rightarrow> int64 (base + int i) | Some p \<Rightarrow> p)"

definition entry_city :: "string \<Rightarrow> int \<Rightarrow> nat \<Rightarrow> region_entry \<Rightarrow> cityConfig" where
  "entry_city bind base i e =
     city (fst e) (fst (snd e)) (join_host_port bind (itoa (entry_port base i e)))"

lemma itoa_chars: "c \<in> set (itoa p) \<Longrightarrow> is_digit c \<or> c = CHR ''-''"
  using nat_to_dec_digits by (auto simp: itoa_def list_all_iff split: if_splits)

lemma digit_plain: "is_digit c \<Longrightarrow> is_ascii c \<and> \<not> is_space c \<and> c \<noteq> CHR '',''"
  by (auto simp: is_digit_def is_ascii_def is_space_def)

lemma itoa_plain: "list_all is_ascii (itoa p)" "\<forall>c \<in> set (itoa p). \<not> is_space c" "CHR '','' \<notin> set (itoa p)"
proof -
  have m: "is_ascii (CHR ''-'')" "\<not> is_space (CHR ''-'')" by (simp_all add: is_ascii_def is_space_def)
  show "list_all is_ascii (itoa p)" "\<forall>c \<in> set (itoa p). \<not> is_space c"
    using itoa_chars digit_plain m by (fastforce simp: list_all_iff)+
  show "CHR '','' \<notin> set (itoa p)" using itoa_chars digit_plain by fastforce
qed

lemma itoa_nonempty [simp]: "itoa p \<noteq> []"
  by (simp add: itoa_def)

lemma tidy_trim: "tidy s \<Longrightarrow> trim_space U s = s"
  by (rule trim_space_plain) (auto simp: tidy_def)

lemma eq_plain: "is_ascii (CHR ''='')" "\<not> is_space (CHR ''='')" "is_ascii (CHR '':'')" "\<not> is_space (CHR '':'')"
  by (simp_all add: is_ascii_def is_space_def)

lemma tidy_cat: "tidy s \<Longrightarrow> tidy t \<Longrightarrow> is_ascii c \<Longrightarrow> \<not> is_space c \<Longrightarrow> tidy (s @ c # t)"
  by (auto simp: tidy_def hd_append)

lemma tidy_itoa: "tidy (itoa p)"
  using itoa_plain [of p] hd_in_set [of "itoa p"] last_in_set [of "itoa p"] by (auto simp: tidy_def)

lemma entry_text_tidy: "entry_ok e \<Longrightarrow> tidy (entry_text e)"
  by (auto simp: entry_ok_def entry_text_def tidy_cat tidy_itoa eq_plain split: option.splits)

lemma entry_text_no_comma: "entry_ok e \<Longrightarrow> CHR '','' \<notin> set (entry_text e)"
  using itoa_plain(3) by (auto simp: entry_ok_def entry_text_def split: option.splits prod.splits)

lemma entry_text_nonempty: "entry_text e \<noteq> []"
  by (auto simp: entry_text_def split: option.splits prod.splits)

lemma city_entry_text:
  assumes "entry_ok e"
  shows "city_entry U bind base out (entry_text e) = out @ [entry_city bind base (length out) e]"
proof -
  obtain n r po where e: "e = (n, r, po)" by (cases e)
  then have ok: "tidy n" "tidy r" "CHR ''='' \<notin> set n" "CHR '':'' \<notin> set r" using assms by (auto simp: entry_ok_def)
  have f: "fst e = n" "fst (snd e) = r" "snd (snd e) = po" by (simp_all add: e)
  have t: "trim_space U (entry_text e) = entry_text e" by (rule tidy_trim [OF entry_text_tidy [OF assms]])
  show ?thesis
  proof (cases po)
    case None
    then have "cut (entry_text e) (CHR ''='') = Some (n, r)"
      using cut_append [OF ok(3), of r] by (simp add: e entry_text_def)
    moreover have "cut r (CHR '':'') = None" using ok(4) by (simp add: cut_None)
    ultimately show ?thesis
      by (simp add: city_entry_def t entry_text_nonempty entry_city_def entry_port_def f None tidy_trim ok Let_def)
  next
    case (Some p)
    then have "cut (entry_text e) (CHR ''='') = Some (n, r @ CHR '':'' # itoa p)"
      using cut_append [OF ok(3), of "r @ CHR '':'' # itoa p"] by (simp add: e entry_text_def)
    moreover have "cut (r @ CHR '':'' # itoa p) (CHR '':'') = Some (r, itoa p)"
      using ok(4) by (rule cut_append)
    moreover have "atoi (itoa p) = Some p"
      using assms Some by (intro atoi_itoa) (simp_all add: entry_ok_def e)
    ultimately show ?thesis
      by (simp add: city_entry_def t entry_text_nonempty entry_city_def entry_port_def f Some tidy_trim ok Let_def)
  qed
qed

lemma split_regions_text:
  "es \<noteq> [] \<Longrightarrow> \<forall>e \<in> set es. entry_ok e \<Longrightarrow> split_on (CHR '','') (regions_text es) = map entry_text es"
  by (induction es rule: regions_text.induct)
    (simp_all add: split_on_no_sep split_on_append entry_text_no_comma)

lemma fold_entries:
  "\<forall>e \<in> set es. entry_ok e \<Longrightarrow>
     foldl (city_entry U bind base) out (map entry_text es) =
       out @ map (\<lambda>(i, e). entry_city bind base (length out + i) e) (zip [0..<length es] es)"
proof (induction es arbitrary: out)
  case Nil
  then show ?case by simp
next
  case (Cons e es)
  have "zip [0..<length (e # es)] (e # es) = (0, e) # map (\<lambda>(i, e). (Suc i, e)) (zip [0..<length es] es)"
    by (simp add: upt_conv_Cons zip_map1 map_Suc_upt [symmetric] del: upt_Suc)
  with Cons show ?case
    by (simp add: city_entry_text split_def del: upt_Suc)
qed

lemma regions_text_nonempty: "es \<noteq> [] \<Longrightarrow> regions_text es \<noteq> []"
  by (cases es rule: regions_text.cases) (simp_all add: entry_text_nonempty)

lemma buildCityList_entries:
  assumes "getenv ''PIA_REGIONS'' = regions_text es" and "es \<noteq> []" and "\<forall>e \<in> set es. entry_ok e"
  shows "buildCityList U getenv bind base =
    map (\<lambda>(i, e). entry_city bind base i e) (zip [0..<length es] es)"
  using assms fold_entries [OF assms(3), of U bind base "[]"]
  by (simp add: buildCityList_def regions_text_nonempty split_regions_text)

lemma join_host_port_inject: "join_host_port h p = join_host_port h q \<longleftrightarrow> p = q"
  by (simp add: join_host_port_def)

lemma itoa_eq_iff: "itoa i = itoa j \<longleftrightarrow> i = j"
  using itoa_inject by blast

subsection \<open>Regions\<close>

lemma to_lower_equal_fold:
  "list_all is_ascii s \<Longrightarrow> list_all is_ascii t \<Longrightarrow> to_lower U s = to_lower U t \<longleftrightarrow> equal_fold U s t"
  by (simp add: to_lower_def equal_fold_ascii)

lemma find_in: "find P xs = Some x \<Longrightarrow> x \<in> set xs \<and> P x"
  by (auto simp: find_Some_iff)

lemma FindRegion_cached:
  assumes "regions c = Some rs"
  shows "(\<exists>r q. FindRegion L a c i = (Inr r, c, q) \<and> r \<in> set rs) \<longleftrightarrow>
    (\<exists>r \<in> set rs. equal_fold (lb_uni L) (rg_id r) i)"
proof (cases "find (\<lambda>r. equal_fold (lb_uni L) (rg_id r) i) rs")
  case None
  then show ?thesis
    using None [unfolded find_None_iff] by (auto simp: FindRegion_def Regions_def assms)
next
  case (Some r)
  from find_in [OF Some] show ?thesis
    by (auto simp: FindRegion_def Regions_def assms Some)
qed

subsection \<open>The status payload\<close>

lemma api_collect_fold:
  "foldl api_collect (ss, n) snaps =
     (ss @ snaps, n + int (length (filter (\<lambda>s. st_State s = StateUp) snaps)))"
  by (induction snaps arbitrary: ss n) (simp_all add: api_collect_def)

text \<open>The status payload has every proxy's snapshot once, ordered by city name byte by byte,
  and counts as up those in state up, not the degraded ones.\<close>

lemma api_payload:
  assumes "sorts_by_city srt"
  shows "mset (ap_Proxies (handleAPI fl srt t0 t1 t2 snaps)) = mset snaps \<and>
    sorted (map st_City (ap_Proxies (handleAPI fl srt t0 t1 t2 snaps))) \<and>
    ap_ProxyCount (handleAPI fl srt t0 t1 t2 snaps) = int (length snaps) \<and>
    ap_UpCount (handleAPI fl srt t0 t1 t2 snaps) = int (card {i. i < length snaps \<and> st_State (snaps ! i) = StateUp}) \<and>
    ap_UpCount (handleAPI fl srt t0 t1 t2 snaps) \<le> ap_ProxyCount (handleAPI fl srt t0 t1 t2 snaps)"
proof -
  have m: "mset (srt snaps) = mset snaps" "sorted (map st_City (srt snaps))"
    using assms by (simp_all add: sorts_by_city_def)
  then have "length (srt snaps) = length snaps" by (metis size_mset)
  moreover have "length (filter (\<lambda>s. st_State s = StateUp) snaps) =
      card {i. i < length snaps \<and> st_State (snaps ! i) = StateUp}"
    by (rule length_filter_conv_card)
  moreover have "length (filter (\<lambda>s. st_State s = StateUp) snaps) \<le> length snaps" by (rule length_filter_le)
  ultimately show ?thesis using m by (simp add: handleAPI_def api_collect_fold)
qed

subsection \<open>The requests of main\<close>

lemma NewPIAClient_fields [simp]:
  "token (NewPIAClient cert u p) = []" "regions (NewPIAClient cert u p) = None"
  "pc_username (NewPIAClient cert u p) = u" "pc_password (NewPIAClient cert u p) = p"
  by (simp_all add: NewPIAClient_def)

lemma Token_new:
  assumes "Token L A (NewPIAClient cert u p) = (Inr t, c, q)"
  shows "t \<noteq> [] \<and> token c = t \<and> q = [ReqToken u p] \<and> regions c = None"
proof -
  have "c = (NewPIAClient cert u p)\<lparr>token := t, tokenAcquiredAt := at_now A\<rparr>" "q = [ReqToken u p]"
    using assms by (auto simp: Token_def split: sum.splits)
  with tc.get_Inr [OF assms] show ?thesis by simp
qed

lemma Regions_Inr:
  "regions c = None \<Longrightarrow> Regions L ans c = (Inr rs, c', q) \<Longrightarrow> c' = c\<lparr>regions := Some rs\<rparr> \<and> q = [ReqServers]"
  by (auto simp: Regions_def split: sum.splits)

section \<open>What main leaves\<close>

text \<open>The daemon starts proxies only with both credentials set, after PIA accepted them and
  sent a server list, and only for cities whose region is on it, at least one. On the way exactly
  one token request and one list request are made, and the first bring-ups need no other: token
  and list are cached in the client they share.\<close>

lemma main_ready:
  assumes "main_setup L getenv load A servers = Some (Running ctl ps c, reqs)"
  shows "getenv ''PIA_USER'' \<noteq> [] \<and> getenv ''PIA_PWD'' \<noteq> [] \<and>
    reqs = [ReqToken (getenv ''PIA_USER'') (getenv ''PIA_PWD''), ReqServers] \<and>
    load (envOr getenv ''PIA_CERT_FILE'' ''ca.rsa.4096.crt'') = Some (Inr (pc_cert c)) \<and>
    token c \<noteq> [] \<and> Token L B c = (Inr (token c), c, []) \<and> ps \<noteq> [] \<and>
    (\<exists>regs. fetchServerList L servers = Inr regs \<and> regions c = Some regs \<and> Regions L ans c = (Inr regs, c, []) \<and>
       (\<forall>p \<in> set ps. \<not> p_set p \<and> (\<exists>r \<in> set regs. to_lower (lb_uni L) (rg_id r) = to_lower (lb_uni L) (Region (p_cfg p)))))"
proof -
  obtain cert t c1 q1 regs q2 where
    ld: "load (envOr getenv ''PIA_CERT_FILE'' ''ca.rsa.4096.crt'') = Some (Inr cert)" and creds: "getenv ''PIA_USER'' \<noteq> []" "getenv ''PIA_PWD'' \<noteq> []"
    and t: "Token L A (NewPIAClient cert (getenv ''PIA_USER'') (getenv ''PIA_PWD'')) = (Inr t, c1, q1)"
    and r: "Regions L servers c1 = (Inr regs, c, q2)"
    and ps: "ps = map NewProxy (filterUnknownRegions (lb_uni L) (buildCityList (lb_uni L) getenv
        (envOr getenv ''BIND_ADDR'' ''127.0.0.1'') (envOrInt getenv ''BASE_PORT'' 9091)) regs)" "ps \<noteq> []"
    and q: "reqs = q1 @ q2"
    using assms by (auto simp: main_setup_def Let_def split: if_splits option.splits sum.splits prod.splits)
  have c1: "t \<noteq> []" "token c1 = t" "q1 = [ReqToken (getenv ''PIA_USER'') (getenv ''PIA_PWD'')]" "regions c1 = None"
    using Token_new [OF t] by blast+
  have ca: "pc_cert c1 = cert" using t by (auto simp: Token_def NewPIAClient_def split: sum.splits)
  have c: "c = c1\<lparr>regions := Some regs\<rparr>" "q2 = [ReqServers]" using Regions_Inr [OF c1(4) r] by blast+
  have "fetchServerList L servers = Inr regs"
    using r c1(4) by (auto simp: Regions_def split: sum.splits)
  moreover have "Token L B c = (Inr (token c), c, [])" using c1 c by (simp add: Token_def)
  moreover have "Regions L ans c = (Inr regs, c, [])" using c by (simp add: Regions_def)
  ultimately show ?thesis using ld ca creds c1 c ps q
    by (auto simp: filterUnknownRegions_def Let_def NewProxy_def)
qed

section \<open>Properties\<close>

text \<open>C34: Every entry City=region[:port] of \<^verbatim>\<open>PIA_REGIONS\<close> gives one city, in the order written,
  with its own port or else the base port plus its position. Nothing keeps an explicit port off
  the automatic ones: the listen addresses are different exactly when these ports are.\<close>

theorem city_list_of_entries:
  assumes "getenv ''PIA_REGIONS'' = regions_text es" and "es \<noteq> []" and "\<forall>e \<in> set es. entry_ok e"
  shows "length (buildCityList U getenv bind base) = length es \<and>
    (\<forall>i < length es. \<forall>n r po. es ! i = (n, r, po) \<longrightarrow>
       buildCityList U getenv bind base ! i =
         city n r (join_host_port bind (itoa (case po of Some p \<Rightarrow> p | None \<Rightarrow> int64 (base + int i))))) \<and>
    (distinct (map Listen (buildCityList U getenv bind base)) \<longleftrightarrow>
       distinct (map (\<lambda>(i, e). entry_port base i e) (zip [0..<length es] es)))"
proof -
  note eq = buildCityList_entries [of getenv es U bind base, OF assms]
  have inj: "inj (\<lambda>p. join_host_port bind (itoa p))"
    by (rule injI) (simp add: join_host_port_inject itoa_eq_iff)
  have "map Listen (buildCityList U getenv bind base) =
      map (\<lambda>p. join_host_port bind (itoa p)) (map (\<lambda>(i, e). entry_port base i e) (zip [0..<length es] es))"
    unfolding eq by (simp add: entry_city_def city_def split_def)
  then have "distinct (map Listen (buildCityList U getenv bind base)) \<longleftrightarrow>
      distinct (map (\<lambda>(i, e). entry_port base i e) (zip [0..<length es] es))"
    by (simp only: distinct_map [of "\<lambda>p. join_host_port bind (itoa p)"] inj_on_subset [OF inj subset_UNIV] simp_thms)
  then show ?thesis
    unfolding eq by (auto simp: entry_city_def entry_port_def city_def split: option.split)
qed

theorem city_list_of_entries_witness:
  "\<not> distinct (map Listen (buildCityList plain_uni (\<lambda>_. regions_text [(''A'', ''us'', None), (''B'', ''uk'', Some 9091)])
       ''127.0.0.1'' 9091))"
proof -
  let ?es = "[(''A'', ''us'', None), (''B'', ''uk'', Some 9091)] :: region_entry list"
  have ok: "\<forall>e \<in> set ?es. entry_ok e"
    by (simp add: entry_ok_def tidy_def is_ascii_def is_space_def int64_bounds)
  have "int64 9091 = 9091" by (rule int64_id) (simp_all add: int64_bounds)
  then have "\<not> distinct (map (\<lambda>(i, e). entry_port 9091 i e) (zip [0..<length ?es] ?es))"
    by (simp add: entry_port_def upt_rec)
  with city_list_of_entries [of "\<lambda>_. regions_text ?es" ?es plain_uni "''127.0.0.1''" 9091, OF _ _ ok]
  show ?thesis by blast
qed

text \<open>C33: The cities kept by the start-up filter are exactly those whose region a later lookup in
  the same list finds (for ASCII identifiers): the filter compares lower-cased names, the lookup
  folds case, and the two agree.\<close>

theorem kept_cities_are_found:
  assumes "regions cl = Some regs" and "c \<in> set cities" and "list_all is_ascii (Region c)"
    and "\<forall>r \<in> set regs. list_all is_ascii (rg_id r)"
  shows "c \<in> set (filterUnknownRegions (lb_uni L) cities regs) \<longleftrightarrow>
    (\<exists>r q. FindRegion L ans cl (Region c) = (Inr r, cl, q) \<and> r \<in> set regs)"
proof -
  have low: "to_lower (lb_uni L) (Region c) = to_lower (lb_uni L) (rg_id r) \<longleftrightarrow>
      equal_fold (lb_uni L) (rg_id r) (Region c)" if "r \<in> set regs" for r
    using to_lower_equal_fold [of "rg_id r" "Region c" "lb_uni L"] assms(3,4) that by metis
  have "c \<in> set (filterUnknownRegions (lb_uni L) cities regs) \<longleftrightarrow>
      (\<exists>r \<in> set regs. equal_fold (lb_uni L) (rg_id r) (Region c))"
    using low assms(2) by (auto simp: filterUnknownRegions_def image_iff)
  also have "\<dots> \<longleftrightarrow> (\<exists>r q. FindRegion L ans cl (Region c) = (Inr r, cl, q) \<and> r \<in> set regs)"
    by (rule FindRegion_cached [OF assms(1), symmetric])
  finally show ?thesis .
qed

theorem kept_cities_are_found_witness:
  "demo_cfg \<in> set (filterUnknownRegions plain_uni [demo_cfg] [demo_region]) \<longleftrightarrow>
     (\<exists>r q. FindRegion demo_libs (Inr (demo_response 200)) ((demo_client ''T'')\<lparr>regions := Some [demo_region]\<rparr>)
        (Region demo_cfg) = (Inr r, (demo_client ''T'')\<lparr>regions := Some [demo_region]\<rparr>, q) \<and> r \<in> set [demo_region])"
proof -
  have "list_all is_ascii (Region demo_cfg)" "list_all is_ascii (rg_id demo_region)"
    by (simp_all add: demo_cfg_def demo_region_def is_ascii_def)
  with kept_cities_are_found [of "(demo_client ''T'')\<lparr>regions := Some [demo_region]\<rparr>" "[demo_region]" demo_cfg
      "[demo_cfg]" demo_libs "Inr (demo_response 200)"]
  show ?thesis by simp
qed

definition demo_env :: environ where
  "demo_env k =
     (if k = ''PIA_USER'' then ''p1'' else if k = ''PIA_PWD'' then ''pw''
      else if k = ''PIA_REGIONS'' then regions_text [(''Home'', ''us_seattle'', None)] else [])"

lemma demo_setup:
  "\<exists>ps c reqs. main_setup demo_libs demo_env (\<lambda>_. Some (Inr ''CA'')) (demo_attempt 200)
     (Inr (demo_response 200 \<lparr>hr_body := demo_body\<rparr>)) = Some (Running ''127.0.0.1:9090'' ps c, reqs)"
proof -
  let ?es = "[(''Home'', ''us_seattle'', None)] :: region_entry list"
  have cities: "buildCityList plain_uni demo_env b p = [entry_city b p 0 (''Home'', ''us_seattle'', None)]" for b p
  proof -
    have "\<forall>e \<in> set ?es. entry_ok e" by (simp add: entry_ok_def tidy_def is_ascii_def is_space_def)
    with buildCityList_entries [of demo_env ?es plain_uni b p] show ?thesis by (simp add: demo_env_def)
  qed
  have kept: "filterUnknownRegions plain_uni [entry_city b p 0 (''Home'', ''us_seattle'', None)] [demo_region] \<noteq> []" for b p
    by (simp add: filterUnknownRegions_def entry_city_def city_def demo_region_def)
  have tok: "Token demo_libs (demo_attempt 200) (NewPIAClient ''CA'' ''p1'' ''pw'') =
      (Inr ''tok'', (NewPIAClient ''CA'' ''p1'' ''pw'')\<lparr>token := ''tok'', tokenAcquiredAt := 0\<rparr>, [ReqToken ''p1'' ''pw''])"
    by (simp add: Token_def fetchAuthToken_def demo_attempt_def status_error_def demo_response_def demo_libs_def)
  have env: "demo_env ''PIA_USER'' = ''p1''" "demo_env ''PIA_PWD'' = ''pw''" "envOr demo_env ''CONTROL_ADDR'' d = d" for d
    by (simp_all add: demo_env_def envOr_def)
  show ?thesis
    by (simp add: main_setup_def env cities tok Regions_def demo_list kept Let_def)
qed

end
