(* ===== verification/SharedClient.thy ===== *)
theory SharedClient
  imports PiaClient
begin

text \<open>
  The API client of src/pia.go under concurrent use: the daemon gives one client to all tunnels,
  and a call of \<^verbatim>\<open>NewSessionWithServer\<close> holds the mutex only inside \<^verbatim>\<open>Token\<close> and
  \<^verbatim>\<open>InvalidateToken\<close>. A call is cut at these critical sections and at the network exchange
  between them, and the pieces of different calls interleave freely. \<open>NewSessionWithServer\<close> of
  \<open>PiaClient\<close> is the call that is not interrupted (\<open>uninterrupted_call\<close>), and an interrupted one
  returns a result of it (\<open>call_inv\<close>).
\<close>

section \<open>Calls in pieces\<close>

text \<open>
  Where the call of a goroutine is, with the region and the server it is for: the goroutines that use
  the client are the \<^verbatim>\<open>Run\<close>s of the tunnels, each with at most one call under way.
\<close>

type_synonym job = "region \<times> serverEndpoint"

datatype call_pc =
    NotCalled
  | Begun job
  | Keyed job string string            \<comment> \<open>public and private key\<close>
  | Authorized job string string string   \<comment> \<open>and the token\<close>
  | RejectedCall job gerror
  | Returned_call job "wgSession result"

text \<open>
  \<open>fetched\<close> counts the tokens obtained from PIA, \<open>rejected\<close> lists the tokens of the registrations
  answered with an authorization error, \<open>dropped\<close> counts the calls of \<^verbatim>\<open>InvalidateToken\<close>.
\<close>

record shared =
  client :: piaClient
  calls :: "nat \<Rightarrow> call_pc"
  fetched :: nat
  rejected :: "string list"
  dropped :: nat

definition session_of :: "region \<Rightarrow> serverEndpoint \<Rightarrow> wireGuardConfig \<Rightarrow> string \<Rightarrow> string \<Rightarrow> wgSession" where
  "session_of reg s wg pub priv =
     \<lparr>ws_region = reg, ws_server = s, ws_peerIP = wg_peerIPv4 wg,
      ws_serverPublicKey = wg_serverPublicKey wg, ws_serverPort = wg_serverPort wg,
      ws_dnsServers = wg_dnsServers wg, ws_privateKey = priv, ws_publicKey = pub\<rparr>"

definition set_call :: "nat \<Rightarrow> call_pc \<Rightarrow> shared \<Rightarrow> shared" where
  "set_call i p S = S\<lparr>calls := (calls S)(i := p)\<rparr>"

lemma set_call_simps [simp]:
  "client (set_call i p S) = client S" "calls (set_call i p S) = (calls S)(i := p)"
  "fetched (set_call i p S) = fetched S" "rejected (set_call i p S) = rejected S"
  "dropped (set_call i p S) = dropped S"
  by (simp_all add: set_call_def)

text \<open>The pieces of a call by the goroutine \<open>i\<close>, from its keys to its return.\<close>

inductive call_step :: "libs \<Rightarrow> nat \<Rightarrow> shared \<Rightarrow> shared \<Rightarrow> bool" for L i where
  key: "calls S i = Begun j \<Longrightarrow> generateWireGuardKeyPair L rnd = Inr (pub, priv) \<Longrightarrow>
     call_step L i S (set_call i (Keyed j pub priv) S)"
| key_fails: "calls S i = Begun j \<Longrightarrow> generateWireGuardKeyPair L rnd = Inl e \<Longrightarrow>
     call_step L i S (set_call i (Returned_call j (Inl e)) S)"
| tok: "calls S i = Keyed j pub priv \<Longrightarrow> Token L A (client S) = (Inr t, c', q) \<Longrightarrow>
     call_step L i S ((set_call i (Authorized j pub priv t) S)\<lparr>client := c', fetched := fetched S + length q\<rparr>)"
| tok_fails: "calls S i = Keyed j pub priv \<Longrightarrow> Token L A (client S) = (Inl e, c', q) \<Longrightarrow>
     call_step L i S ((set_call i (Returned_call j (Inl e)) S)\<lparr>client := c'\<rparr>)"
| accepted: "calls S i = Authorized (reg, s) pub priv t \<Longrightarrow>
     registerWireGuardKey L A (pc_cert (client S)) s t pub = (Inr wg, q) \<Longrightarrow>
     call_step L i S (set_call i (Returned_call (reg, s) (Inr (session_of reg s wg pub priv))) S)"
| refused: "calls S i = Authorized (reg, s) pub priv t \<Longrightarrow>
     registerWireGuardKey L A (pc_cert (client S)) s t pub = (Inl e, q) \<Longrightarrow> \<not> IsAuthError e \<Longrightarrow>
     call_step L i S (set_call i (Returned_call (reg, s) (Inl e)) S)"
| unauthorized: "calls S i = Authorized (reg, s) pub priv t \<Longrightarrow>
     registerWireGuardKey L A (pc_cert (client S)) s t pub = (Inl e, q) \<Longrightarrow> IsAuthError e \<Longrightarrow>
     call_step L i S ((set_call i (RejectedCall (reg, s) e) S)\<lparr>rejected := t # rejected S\<rparr>)"
| invalidate: "calls S i = RejectedCall j e \<Longrightarrow>
     call_step L i S ((set_call i (Returned_call j (Inl e)) S)
       \<lparr>client := InvalidateToken (client S), dropped := dropped S + 1\<rparr>)"

text \<open>
  What a goroutine does with the client: it begins a call, moves it on, takes its result, or looks a
  region up (one critical section, the fetch of the list included).
\<close>

inductive shared_step :: "libs \<Rightarrow> shared \<Rightarrow> shared \<Rightarrow> bool" for L where
  begin_call: "calls S i = NotCalled \<Longrightarrow> shared_step L S (set_call i (Begun j) S)"
| call_moves: "call_step L i S T \<Longrightarrow> shared_step L S T"
| take_result: "calls S i = Returned_call j r \<Longrightarrow> shared_step L S (set_call i NotCalled S)"
| region_lookup: "FindRegion L ans (client S) n = (r, c', q) \<Longrightarrow> shared_step L S (S\<lparr>client := c'\<rparr>)"

definition shared_start :: "piaClient \<Rightarrow> shared" where
  "shared_start c =
     \<lparr>client = c, calls = (\<lambda>_. NotCalled), fetched = 0, rejected = [], dropped = 0\<rparr>"

text \<open>Any number of goroutines.\<close>

inductive shared_reach :: "libs \<Rightarrow> piaClient \<Rightarrow> shared \<Rightarrow> bool" for L c where
  start: "shared_reach L c (shared_start c)"
| step: "shared_reach L c S \<Longrightarrow> shared_step L S T \<Longrightarrow> shared_reach L c T"

interpretation shared_m: machine "shared_step L" "shared_reach L c" "shared_start c" for L c
  by unfold_locales (rule shared_reach.start, erule (1) shared_reach.step, erule shared_reach.induct, blast+)

section \<open>A call that nobody interrupts\<close>

text \<open>One more piece of the call that \<open>i\<close> has under way.\<close>

lemma call_then:
  "(call_step L i)\<^sup>*\<^sup>* S T \<Longrightarrow> call_step L i T U \<Longrightarrow> client U = c' \<Longrightarrow> calls U i = p \<Longrightarrow>
     \<exists>U. (call_step L i)\<^sup>*\<^sup>* S U \<and> client U = c' \<and> calls U i = p"
  by (blast intro: rtranclp.rtrancl_into_rtrancl)

lemma uninterrupted_call:
  assumes new: "NewSessionWithServer L A (client S) reg s = (r, c', q)" and begun: "calls S i = Begun (reg, s)"
  shows "\<exists>T. (call_step L i)\<^sup>*\<^sup>* S T \<and> client T = c' \<and> calls T i = Returned_call (reg, s) r"
proof (cases "generateWireGuardKeyPair L (at_random A)")
  case (Inl e)
  with new have "r = Inl e" "c' = client S" by (simp_all add: NewSessionWithServer_def)
  then show ?thesis by (intro call_then [OF rtranclp.rtrancl_refl call_step.key_fails [OF begun Inl]]) simp_all
next
  case (Inr k)
  obtain pub priv where k: "generateWireGuardKeyPair L (at_random A) = Inr (pub, priv)"
    using Inr by (cases k) simp
  let ?S1 = "set_call i (Keyed (reg, s) pub priv) S"
  have s1: "(call_step L i)\<^sup>*\<^sup>* S ?S1" using call_step.key [OF begun k] by blast
  have c1: "calls ?S1 i = Keyed (reg, s) pub priv" by simp
  obtain rt c1 q1 where t: "Token L A (client ?S1) = (rt, c1, q1)" by (cases "Token L A (client ?S1)")
  show ?thesis
  proof (cases rt)
    case (Inl e)
    with new k t have "r = Inl e" "c' = c1" by (simp_all add: NewSessionWithServer_def)
    with call_then [OF s1 call_step.tok_fails [OF c1 t [unfolded Inl]]] show ?thesis by simp
  next
    case rt: (Inr tk)
    let ?S2 = "(set_call i (Authorized (reg, s) pub priv tk) ?S1)\<lparr>client := c1, fetched := fetched ?S1 + length q1\<rparr>"
    from s1 call_step.tok [OF c1 t [unfolded rt]] have s2: "(call_step L i)\<^sup>*\<^sup>* S ?S2"
      by (rule rtranclp.rtrancl_into_rtrancl)
    have c2: "calls ?S2 i = Authorized (reg, s) pub priv tk" by simp
    obtain rr q2 where g: "registerWireGuardKey L A (pc_cert (client ?S2)) s tk pub = (rr, q2)"
      by (cases "registerWireGuardKey L A (pc_cert (client ?S2)) s tk pub")
    show ?thesis
    proof (cases rr)
      case (Inr wg)
      with new k t rt g have "r = Inr (session_of reg s wg pub priv)" "c' = c1"
        by (simp_all add: NewSessionWithServer_def session_of_def)
      with call_then [OF s2 call_step.accepted [OF c2 g [unfolded Inr]]] show ?thesis by simp
    next
      case e: (Inl e)
      have r: "r = Inl e" "c' = (if IsAuthError e then InvalidateToken c1 else c1)"
        using new k t rt g e by (simp_all add: NewSessionWithServer_def)
      show ?thesis
      proof (cases "IsAuthError e")
        case False
        with r call_then [OF s2 call_step.refused [OF c2 g [unfolded e]]] show ?thesis by simp
      next
        case True
        let ?S3 = "(set_call i (RejectedCall (reg, s) e) ?S2)\<lparr>rejected := tk # rejected ?S2\<rparr>"
        from s2 call_step.unauthorized [OF c2 g [unfolded e] True] have s3: "(call_step L i)\<^sup>*\<^sup>* S ?S3"
          by (rule rtranclp.rtrancl_into_rtrancl)
        have "calls ?S3 i = RejectedCall (reg, s) e" by simp
        from r True call_then [OF s3 call_step.invalidate [OF this]] show ?thesis by simp
      qed
    qed
  qed
qed

section \<open>A call always returns\<close>

primrec call_size :: "call_pc \<Rightarrow> nat" where
  "call_size NotCalled = 0"
| "call_size (Begun j) = 4"
| "call_size (Keyed j pub priv) = 3"
| "call_size (Authorized j pub priv t) = 2"
| "call_size (RejectedCall j e) = 1"
| "call_size (Returned_call j r) = 0"

lemma call_shrinks: "call_step L i S T \<Longrightarrow> call_size (calls T i) < call_size (calls S i)"
  by (induction rule: call_step.induct) simp_all

text \<open>Whatever the network answers, some step can be taken.\<close>

lemma call_progress:
  assumes "0 < call_size (calls S i)"
  shows "\<exists>T. call_step L i S T"
proof (cases "calls S i")
  case (Begun j)
  show ?thesis
  proof (cases "generateWireGuardKeyPair L undefined")
    case (Inl e)
    from call_step.key_fails [OF Begun Inl] show ?thesis by blast
  next
    case (Inr k)
    then have "generateWireGuardKeyPair L undefined = Inr (fst k, snd k)" by simp
    from call_step.key [OF Begun this] show ?thesis by blast
  qed
next
  case (Keyed j pub priv)
  obtain r c' q where "Token L undefined (client S) = (r, c', q)" by (cases "Token L undefined (client S)")
  then show ?thesis using call_step.tok [OF Keyed] call_step.tok_fails [OF Keyed] by (cases r) blast+
next
  case (Authorized j pub priv t)
  obtain reg s where j: "calls S i = Authorized (reg, s) pub priv t" using Authorized by (cases j) simp
  obtain r q where "registerWireGuardKey L undefined (pc_cert (client S)) s t pub = (r, q)"
    by (cases "registerWireGuardKey L undefined (pc_cert (client S)) s t pub")
  then show ?thesis using call_step.accepted [OF j] call_step.refused [OF j] call_step.unauthorized [OF j]
    by (cases r) blast+
next
  case (RejectedCall j e)
  from call_step.invalidate [OF this] show ?thesis by blast
qed (use assms in simp_all)

lemma call_step_begun: "call_step L i S T \<Longrightarrow> calls T i \<noteq> NotCalled"
  by (induction rule: call_step.induct) simp_all

interpretation call_p: progress "call_step L i" "\<lambda>S. calls S i \<noteq> NotCalled" "\<lambda>S. call_size (calls S i)" for L i
proof unfold_locales
  fix S :: shared
  assume "0 < call_size (calls S i)"
  then obtain T where T: "call_step L i S T" using call_progress by blast
  then show "\<exists>T. (call_step L i)\<^sup>*\<^sup>* S T \<and> calls T i \<noteq> NotCalled \<and> call_size (calls T i) < call_size (calls S i)"
    using call_shrinks [OF T] call_step_begun [OF T] by blast
qed

lemma call_returns: "calls S i \<noteq> NotCalled \<Longrightarrow> \<exists>T j r. (call_step L i)\<^sup>*\<^sup>* S T \<and> calls T i = Returned_call j r"
proof -
  assume "calls S i \<noteq> NotCalled"
  from call_p.ends [OF this] obtain T where
    "(call_step L i)\<^sup>*\<^sup>* S T" "calls T i \<noteq> NotCalled" "call_size (calls T i) = 0" by blast
  then show ?thesis by (cases "calls T i") auto
qed

section \<open>What an interrupted call returns\<close>

text \<open>
  The result of a call is one that \<open>NewSessionWithServer\<close> has for some client with the same
  certificate: the key pair and the token the call holds do not depend on what the others do to
  the cache meanwhile.
\<close>

definition call_result :: "libs \<Rightarrow> string \<Rightarrow> job \<Rightarrow> wgSession result \<Rightarrow> bool" where
  "call_result L ca j r \<longleftrightarrow>
     (\<exists>A c c' q. pc_cert c = ca \<and> NewSessionWithServer L A c (fst j) (snd j) = (r, c', q))"

definition holds_key :: "libs \<Rightarrow> string \<Rightarrow> string \<Rightarrow> bool" where
  "holds_key L pub priv \<longleftrightarrow> (\<exists>rnd. generateWireGuardKeyPair L rnd = Inr (pub, priv))"

definition call_inv :: "libs \<Rightarrow> string \<Rightarrow> call_pc \<Rightarrow> bool" where
  "call_inv L ca p \<longleftrightarrow>
     (case p of
        NotCalled \<Rightarrow> True
      | Begun j \<Rightarrow> True
      | Keyed j pub priv \<Rightarrow> holds_key L pub priv
      | Authorized j pub priv t \<Rightarrow> holds_key L pub priv \<and> t \<noteq> []
      | RejectedCall j e \<Rightarrow> call_result L ca j (Inl e)
      | Returned_call j r \<Rightarrow> call_result L ca j r)"

lemma other_fields:
  "at_now (A\<lparr>at_random := x\<rparr>) = at_now A" "at_token (A\<lparr>at_random := x\<rparr>) = at_token A"
  "at_dial (A\<lparr>at_random := x\<rparr>) = at_dial A" "at_chain (A\<lparr>at_random := x\<rparr>) = at_chain A"
  "at_handshake (A\<lparr>at_random := x\<rparr>) = at_handshake A" "at_request (A\<lparr>at_random := x\<rparr>) = at_request A"
  "at_get (A\<lparr>at_random := x\<rparr>) = at_get A"
  by simp_all

lemma random_unused:
  "registerWireGuardKey L (A\<lparr>at_random := rnd\<rparr>) ca s t pub = registerWireGuardKey L A ca s t pub"
  "Token L (A\<lparr>at_random := rnd\<rparr>) c = Token L A c"
  unfolding registerWireGuardKey_def dial_tls_def Token_def fetchAuthToken_def other_fields by (rule refl)+

lemma call_result_key:
  assumes "generateWireGuardKeyPair L rnd = Inl e"
  shows "call_result L ca j (Inl e)"
proof -
  have "NewSessionWithServer L (A\<lparr>at_random := rnd\<rparr>) (NewPIAClient ca u p) (fst j) (snd j) =
      (Inl e, NewPIAClient ca u p, [])" for A u p
    using assms by (simp add: NewSessionWithServer_def)
  then show ?thesis unfolding call_result_def by (metis piaClient.select_convs(1) NewPIAClient_def)
qed

lemma call_result_token:
  assumes "holds_key L pub priv" and "Token L A c = (Inl e, c', q)"
  shows "call_result L (pc_cert c) j (Inl e)"
proof -
  obtain rnd where "generateWireGuardKeyPair L rnd = Inr (pub, priv)" using assms(1) by (auto simp: holds_key_def)
  then have "NewSessionWithServer L (A\<lparr>at_random := rnd\<rparr>) c (fst j) (snd j) = (Inl e, c', q)"
    using assms(2) by (simp add: NewSessionWithServer_def random_unused)
  then show ?thesis unfolding call_result_def by blast
qed

lemma call_result_register:
  assumes "holds_key L pub priv" "t \<noteq> []" and "registerWireGuardKey L A ca s t pub = (r, q)"
  shows "call_result L ca (reg, s) (case r of Inl e \<Rightarrow> Inl e | Inr wg \<Rightarrow> Inr (session_of reg s wg pub priv))"
proof -
  obtain rnd where k: "generateWireGuardKeyPair L rnd = Inr (pub, priv)" using assms(1) by (auto simp: holds_key_def)
  let ?c = "SetToken (NewPIAClient ca [] []) t 0"
  have c: "pc_cert ?c = ca" "token ?c = t" by (simp_all add: SetToken_def NewPIAClient_def)
  then have "Token L A ?c = (Inr t, ?c, [])" using tc.get_cached [of ?c L A] assms(2) by simp
  with k c(1) assms(3) have
    "fst (NewSessionWithServer L (A\<lparr>at_random := rnd\<rparr>) ?c reg s) =
      (case r of Inl e \<Rightarrow> Inl e | Inr wg \<Rightarrow> Inr (session_of reg s wg pub priv))"
    by (simp add: NewSessionWithServer_def random_unused session_of_def split: sum.split)
  then show ?thesis using c(1) unfolding call_result_def by (metis fst_conv prod_cases3 snd_conv)
qed

lemma Token_cert: "Token L A c = (r, c', q) \<Longrightarrow> pc_cert c' = pc_cert c"
  by (auto simp: Token_def split: if_splits sum.splits)

lemma FindRegion_client:
  "FindRegion L ans c n = (r, c', q) \<Longrightarrow> pc_cert c' = pc_cert c \<and> token c' = token c"
  by (auto simp: FindRegion_def Regions_def split: option.splits sum.splits)

lemma call_inv_step:
  "call_step L i S T \<Longrightarrow> call_inv L (pc_cert (client S)) (calls S i) \<Longrightarrow>
     call_inv L (pc_cert (client S)) (calls T i)"
proof (induction rule: call_step.induct)
  case (tok S j pub priv A t c' q)
  then show ?case using tc.get_Inr [OF tok(2)] by (simp add: call_inv_def)
next
  case (accepted S reg s pub priv t A wg q)
  then show ?case using call_result_register [of L pub priv t A _ s "Inr wg" q reg] by (simp add: call_inv_def)
next
  case (refused S reg s pub priv t A e q)
  then show ?case using call_result_register [of L pub priv t A _ s "Inl e" q reg] by (simp add: call_inv_def)
next
  case (unauthorized S reg s pub priv t A e q)
  then show ?case using call_result_register [of L pub priv t A _ s "Inl e" q reg] by (simp add: call_inv_def)
qed (auto simp: call_inv_def call_result_key call_result_token holds_key_def)

lemma call_step_frame:
  "call_step L i S T \<Longrightarrow> pc_cert (client T) = pc_cert (client S) \<and> (\<forall>k. k \<noteq> i \<longrightarrow> calls T k = calls S k)"
  by (induction rule: call_step.induct) (auto simp: InvalidateToken_def Token_cert)

lemma results_step:
  assumes "shared_step L S T" and "pc_cert (client S) = ca \<and> (\<forall>k. call_inv L ca (calls S k))"
  shows "pc_cert (client T) = ca \<and> (\<forall>k. call_inv L ca (calls T k))"
  using assms
proof (induction rule: shared_step.induct)
  case (call_moves i S T)
  have "call_inv L ca (calls T k)" for k
    using call_moves call_step_frame [OF call_moves(1)] call_inv_step [OF call_moves(1)] by (cases "k = i") simp_all
  then show ?case using call_moves(2) call_step_frame [OF call_moves(1)] by simp
qed (auto simp: call_inv_def dest: FindRegion_client)

lemma shared_reach_results: "shared_reach L c S \<Longrightarrow> call_inv L (pc_cert c) (calls S i)"
proof -
  assume "shared_reach L c S"
  then have "pc_cert (client S) = pc_cert c \<and> (\<forall>k. call_inv L (pc_cert c) (calls S k))"
  proof (rule shared_m.invariant)
    show "pc_cert (client (shared_start c)) = pc_cert c \<and> (\<forall>k. call_inv L (pc_cert c) (calls (shared_start c) k))"
      by (simp add: shared_start_def call_inv_def)
  qed (rule results_step)
  then show ?thesis by blast
qed

lemma session_verified:
  assumes "NewSessionWithServer L A c reg s = (Inr ws, c', q)"
  shows "ws_region ws = reg \<and> ws_server ws = s \<and> (\<exists>now chain. verifyConnection L (pc_cert c) (se_cn s) now chain = None)"
proof -
  obtain pub priv t c1 q1 wg q2 where t: "Token L A c = (Inr t, c1, q1)"
    and g: "registerWireGuardKey L A (pc_cert c1) s t pub = (Inr wg, q2)"
    and ws: "ws_region ws = reg" "ws_server ws = s"
    using assms by (auto simp: NewSessionWithServer_def split: sum.splits prod.splits)
  have "q2 \<noteq> []" using g by (auto simp: registerWireGuardKey_def Let_def split: option.splits sum.splits)
  from register_verified [OF g this] obtain leaf rest where
    "at_chain A = leaf # rest" "equal_fold (lb_uni L) (ct_cn leaf) (se_cn s)"
    "lb_verify L (pc_cert c) rest (at_now A) leaf = None"
    using Token_cert [OF t] by auto
  then have "verifyConnection L (pc_cert c) (se_cn s) (at_now A) (leaf # rest) = None"
    by (simp add: verifyConnection_def del: equal_fold.simps)
  with ws show ?thesis by blast
qed

section \<open>How many tokens are fetched\<close>

text \<open>The cache is emptied by dropping only, filled by one fetch, and dropped once per rejection.\<close>

definition pending_drops :: "shared \<Rightarrow> nat set" where
  "pending_drops S = {i. \<exists>j e. calls S i = RejectedCall j e}"

lemma pending_drops_simps [simp]:
  "pending_drops (S\<lparr>client := c\<rparr>) = pending_drops S" "pending_drops (S\<lparr>fetched := n\<rparr>) = pending_drops S"
  "pending_drops (S\<lparr>rejected := ts\<rparr>) = pending_drops S" "pending_drops (S\<lparr>dropped := n\<rparr>) = pending_drops S"
  by (simp_all add: pending_drops_def)

lemma pending_set_call:
  "pending_drops (set_call i p S) =
     (case p of RejectedCall j e \<Rightarrow> insert i (pending_drops S) | _ \<Rightarrow> pending_drops S - {i})"
  by (auto simp: pending_drops_def split: call_pc.split)

definition shared_inv :: "piaClient \<Rightarrow> shared \<Rightarrow> bool" where
  "shared_inv c S \<longleftrightarrow>
     fetched S + (if token c = [] then 0 else 1) \<le> dropped S + (if token (client S) = [] then 0 else 1) \<and>
     finite (pending_drops S) \<and> dropped S + card (pending_drops S) = length (rejected S)"

text \<open>A step that neither rejects nor drops, and fetches no more than it fills.\<close>

lemma shared_inv_quiet:
  assumes "shared_inv c S" and "pending_drops T = pending_drops S" and "dropped T = dropped S"
    and "rejected T = rejected S"
    and "fetched T \<le> fetched S + (if token (client S) = [] \<and> token (client T) \<noteq> [] then 1 else 0)"
    and "token (client S) \<noteq> [] \<longrightarrow> token (client T) \<noteq> []"
  shows "shared_inv c T"
  using assms by (auto simp: shared_inv_def split: if_splits)

text \<open>A goroutine without a rejection to act on may change the state of its call to another such.\<close>

lemma not_pending: "\<forall>j e. calls S i \<noteq> RejectedCall j e \<Longrightarrow> pending_drops S - {i} = pending_drops S"
  by (auto simp: pending_drops_def)

lemma shared_inv_call: "call_step L i S T \<Longrightarrow> shared_inv c S \<Longrightarrow> shared_inv c T"
proof (induction rule: call_step.induct)
  case (tok S j pub priv A t c' q)
  have "length q = (if token (client S) = [] then 1 else 0)" "token c' \<noteq> []"
    using tok(2) tc.get_Inr [OF tok(2)] tc.get_fetched [OF _ tok(2)] tc.get_cached [of "client S" L A] by auto
  with tok(1) show ?case
    by (intro shared_inv_quiet [OF tok(3)]) (auto simp: pending_set_call not_pending)
next
  case (tok_fails S j pub priv A e c' q)
  have "c' = client S" using tok_fails(2) by (auto simp: Token_def split: if_splits sum.splits)
  with tok_fails(1) show ?case
    by (intro shared_inv_quiet [OF tok_fails(3)]) (auto simp: pending_set_call not_pending)
next
  case (unauthorized S reg s pub priv t A e q)
  then have "i \<notin> pending_drops S" by (simp add: pending_drops_def)
  with unauthorized(4) show ?case by (simp add: shared_inv_def pending_set_call)
next
  case (invalidate S j e)
  have i: "i \<in> pending_drops S" using invalidate(1) by (simp add: pending_drops_def)
  have "finite (pending_drops S)" using invalidate(2) by (simp add: shared_inv_def)
  with i have "card (pending_drops S) = Suc (card (pending_drops S - {i}))" by (metis card_Suc_Diff1)
  with invalidate(2) show ?case
    by (auto simp: shared_inv_def pending_set_call InvalidateToken_def split: if_splits)
qed (rule shared_inv_quiet; auto simp: pending_set_call not_pending)+

lemma shared_inv_step: "shared_step L S T \<Longrightarrow> shared_inv c S \<Longrightarrow> shared_inv c T"
proof (induction rule: shared_step.induct)
  case (begin_call S i j)
  then show ?case by (intro shared_inv_quiet [OF begin_call(2)]) (auto simp: pending_set_call not_pending)
next
  case (call_moves i S T)
  then show ?case by (blast intro: shared_inv_call)
next
  case (take_result S i j r)
  then show ?case by (intro shared_inv_quiet [OF take_result(2)]) (auto simp: pending_set_call not_pending)
next
  case (region_lookup ans S n r c' q)
  then show ?case by (intro shared_inv_quiet [OF region_lookup(2)]) (auto dest: FindRegion_client)
qed

lemma shared_reach_inv: "shared_reach L c S \<Longrightarrow> shared_inv c S"
  by (erule shared_m.invariant)
    (simp add: shared_inv_def shared_start_def pending_drops_def, blast intro: shared_inv_step)

text \<open>A token nobody has rejected stays.\<close>

lemma token_stays:
  assumes "shared_reach L c S" and "token c \<noteq> []" and "rejected S = []"
  shows "token (client S) = token c"
proof -
  from assms(1) have "shared_inv c S \<and> (dropped S = 0 \<longrightarrow> token c \<noteq> [] \<longrightarrow> token (client S) = token c)"
  proof (rule shared_m.invariant)
    show "shared_inv c (shared_start c) \<and> (dropped (shared_start c) = 0 \<longrightarrow> token c \<noteq> [] \<longrightarrow>
        token (client (shared_start c)) = token c)"
      using shared_reach_inv [OF shared_reach.start] by (simp add: shared_start_def)
    fix S T
    assume st: "shared_step L S T"
      and ih: "shared_inv c S \<and> (dropped S = 0 \<longrightarrow> token c \<noteq> [] \<longrightarrow> token (client S) = token c)"
    from st have "dropped T = dropped S \<and> (token (client S) \<noteq> [] \<longrightarrow> token (client T) = token (client S)) \<or> dropped T \<noteq> 0"
    proof (induction rule: shared_step.induct)
      case (call_moves i S T)
      then show ?case by (induction rule: call_step.induct) (auto simp: Token_def split: if_splits sum.splits)
    qed (auto dest: FindRegion_client)
    with ih st shared_inv_step show "shared_inv c T \<and> (dropped T = 0 \<longrightarrow> token c \<noteq> [] \<longrightarrow> token (client T) = token c)"
      by metis
  qed
  with assms(2,3) show ?thesis by (simp add: shared_inv_def)
qed

lemma regions_stay:
  assumes "shared_reach L c S" and "regions c = Some rs"
  shows "regions (client S) = Some rs"
  using assms(1)
proof (rule shared_m.invariant)
  show "regions (client (shared_start c)) = Some rs" using assms(2) by (simp add: shared_start_def)
  fix S T
  assume "shared_step L S T" and rs: "regions (client S) = Some rs"
  then show "regions (client T) = Some rs"
  proof (induction rule: shared_step.induct)
    case (call_moves i S T)
    then show ?case
      by (induction rule: call_step.induct) (auto simp: Token_def InvalidateToken_def split: if_splits sum.splits)
  next
    case (region_lookup ans S n r c' q)
    then show ?case by (auto simp: FindRegion_def Regions_def split: option.splits)
  qed simp_all
qed

text \<open>However the calls interleave, PIA is asked successfully for at most one token more than it
  rejected, and for no more than it rejected when the cache was seeded.\<close>

lemma shared_client_fetches:
  assumes "shared_reach L c S"
  shows "fetched S \<le> length (rejected S) + 1 \<and>
    (token c \<noteq> [] \<longrightarrow> fetched S \<le> length (rejected S)) \<and> dropped S \<le> length (rejected S)"
  using shared_reach_inv [OF assms] by (auto simp: shared_inv_def split: if_splits)

section \<open>Properties\<close>

text \<open>C23: Whatever the other tunnels do to the client meanwhile, a call of \<^verbatim>\<open>NewSessionWithServer\<close>
  returns what an uninterrupted call for the same region and server can return with the same CA
  certificate: a session is for the region and server asked, over a server with a verified
  certificate, and an error is one of those of the function.\<close>

theorem interleaved_call_result:
  assumes "shared_reach L c S" and "calls S i = Returned_call (reg, s) r"
  shows "(\<exists>A c1 c' q. pc_cert c1 = pc_cert c \<and> NewSessionWithServer L A c1 reg s = (r, c', q)) \<and>
    (case r of Inl e \<Rightarrow> True
     | Inr ws \<Rightarrow> ws_region ws = reg \<and> ws_server ws = s \<and>
        (\<exists>now chain. verifyConnection L (pc_cert c) (se_cn s) now chain = None))"
proof -
  obtain A c1 c' q where A: "pc_cert c1 = pc_cert c" "NewSessionWithServer L A c1 reg s = (r, c', q)"
    using shared_reach_results [OF assms(1), of i] assms(2) by (auto simp: call_inv_def call_result_def)
  have "case r of Inl e \<Rightarrow> True | Inr ws \<Rightarrow> ws_region ws = reg \<and> ws_server ws = s \<and>
      (\<exists>now chain. verifyConnection L (pc_cert c) (se_cn s) now chain = None)"
  proof (cases r)
    case (Inr ws)
    from session_verified [OF A(2) [unfolded Inr]] A(1) Inr show ?thesis by simp
  qed simp
  with A show ?thesis by blast
qed

text \<open>Runs of a few calls on the demonstration servers.\<close>

abbreviation demo_job :: job where
  "demo_job \<equiv> (demo_region, demo_endpoint)"

lemma demo_begin:
  assumes "shared_reach demo_libs c S" and "calls S i = NotCalled"
  shows "\<exists>pub priv. shared_reach demo_libs c (set_call i (Keyed demo_job pub priv) S)"
proof -
  obtain pub priv where k: "generateWireGuardKeyPair demo_libs (Inr []) = Inr (pub, priv)"
    using demo_keys by blast
  let ?S1 = "set_call i (Begun demo_job) S"
  have r: "shared_reach demo_libs c ?S1"
    by (rule shared_reach.step [OF assms(1) shared_step.begin_call [OF assms(2)]])
  have "call_step demo_libs i ?S1 (set_call i (Keyed demo_job pub priv) ?S1)"
    by (rule call_step.key [OF _ k]) simp
  from shared_reach.step [OF r shared_step.call_moves [OF this]] show ?thesis
    by (auto simp: set_call_def)
qed

lemma demo_authorize:
  assumes "shared_reach demo_libs c S" and "calls S i = NotCalled" and "token (client S) = t" "t \<noteq> []"
  shows "\<exists>pub priv. shared_reach demo_libs c (set_call i (Authorized demo_job pub priv t) S)"
proof -
  obtain pub priv where r: "shared_reach demo_libs c (set_call i (Keyed demo_job pub priv) S)" (is "shared_reach _ _ ?S1")
    using demo_begin [OF assms(1,2)] by blast
  have t: "Token demo_libs (demo_attempt 401) (client ?S1) = (Inr t, client S, [])"
    using assms(3,4) by (simp add: Token_def)
  have "call_step demo_libs i ?S1 ((set_call i (Authorized demo_job pub priv t) ?S1)
      \<lparr>client := client S, fetched := fetched ?S1 + length ([] :: api_request list)\<rparr>)"
    by (rule call_step.tok [OF _ t]) simp
  from shared_reach.step [OF r shared_step.call_moves [OF this]] show ?thesis by (auto simp: set_call_def)
qed

lemma demo_unauthorized:
  "\<exists>e q. registerWireGuardKey demo_libs (demo_attempt 401) ca demo_endpoint t pub = (Inl e, q) \<and> IsAuthError e"
proof -
  have "dial_tls demo_libs (demo_attempt 401) ca (se_cn demo_endpoint) a = None" for a
    by (simp add: dial_tls_def demo_attempt_def verifyConnection_def demo_endpoint_def demo_cn
        del: equal_fold.simps) (simp add: demo_libs_def)
  moreover have "at_request (demo_attempt 401) u = None" "at_get (demo_attempt 401) u = Inr (demo_response 401)" for u
    by (simp_all add: demo_attempt_def)
  moreover have "hr_code (demo_response 401) = 401" by (simp add: demo_response_def)
  ultimately show ?thesis
    by (simp add: registerWireGuardKey_def status_error_def IsAuthError_def Let_def)
qed

lemma demo_reject:
  assumes "shared_reach demo_libs c S" and "calls S i = Authorized demo_job pub priv t"
  shows "\<exists>e. shared_reach demo_libs c ((set_call i (RejectedCall demo_job e) S)\<lparr>rejected := t # rejected S\<rparr>)"
proof -
  obtain e q where "registerWireGuardKey demo_libs (demo_attempt 401) (pc_cert (client S)) demo_endpoint t pub = (Inl e, q)"
    "IsAuthError e" using demo_unauthorized by blast
  from call_step.unauthorized [OF assms(2) this] show ?thesis
    using shared_reach.step [OF assms(1) shared_step.call_moves] by blast
qed

lemma demo_drop:
  assumes "shared_reach demo_libs c S" and "calls S i = RejectedCall j e"
  shows "shared_reach demo_libs c ((set_call i (Returned_call j (Inl e)) S)
      \<lparr>client := InvalidateToken (client S), dropped := dropped S + 1\<rparr>)"
  by (rule shared_reach.step [OF assms(1) shared_step.call_moves [OF call_step.invalidate [OF assms(2)]]])

lemma demo_fetch:
  assumes "shared_reach demo_libs c S" and "calls S i = NotCalled" and "token (client S) = []"
  shows "\<exists>T. shared_reach demo_libs c T \<and> token (client T) = ''tok'' \<and> rejected T = rejected S \<and>
    (\<forall>j. j \<noteq> i \<longrightarrow> calls T j = calls S j)"
proof -
  obtain pub priv where r: "shared_reach demo_libs c (set_call i (Keyed demo_job pub priv) S)" (is "shared_reach _ _ ?S1")
    using demo_begin [OF assms(1,2)] by blast
  have "fetchAuthToken demo_libs (demo_attempt 200) = Inr ''tok''"
    by (simp add: fetchAuthToken_def demo_attempt_def status_error_def demo_response_def demo_libs_def)
  then obtain c' q where t: "Token demo_libs (demo_attempt 200) (client ?S1) = (Inr ''tok'', c', q)"
    "token c' = ''tok''" using assms(3) by (simp add: Token_def)
  let ?T = "(set_call i (Authorized demo_job pub priv ''tok'') ?S1)\<lparr>client := c', fetched := fetched ?S1 + length q\<rparr>"
  have "call_step demo_libs i ?S1 ?T" by (rule call_step.tok [OF _ t(1)]) simp
  from shared_reach.step [OF r shared_step.call_moves [OF this]] show ?thesis
    by (intro exI [of _ ?T]) (simp add: t(2))
qed

theorem interleaved_call_result_witness:
  "\<exists>S r. shared_reach demo_libs (demo_client ''T'') S \<and> calls S 0 = Returned_call demo_job r \<and>
     token (client S) = [] \<and>
     (\<exists>A c1 c' q. pc_cert c1 = pc_cert (demo_client ''T'') \<and>
        NewSessionWithServer demo_libs A c1 demo_region demo_endpoint = (r, c', q))"
proof -
  let ?c = "demo_client ''T''"
  have tok: "token ?c = ''T''" by (simp add: demo_client_def SetToken_def)
  obtain S1 where S1: "shared_reach demo_libs ?c S1" "\<exists>a b. calls S1 0 = Authorized demo_job a b ''T''"
    using demo_authorize [OF shared_reach.start, of ?c 0 "''T''"] tok by (fastforce simp: shared_start_def)
  obtain S2 where S2: "shared_reach demo_libs ?c S2" "\<exists>e. calls S2 0 = RejectedCall demo_job e"
    using S1(2) demo_reject [OF S1(1)] by fastforce
  then obtain e where e: "calls S2 0 = RejectedCall demo_job e" by blast
  let ?S = "(set_call 0 (Returned_call demo_job (Inl e)) S2)\<lparr>client := InvalidateToken (client S2), dropped := dropped S2 + 1\<rparr>"
  have S: "shared_reach demo_libs ?c ?S" "calls ?S 0 = Returned_call demo_job (Inl e)"
    using demo_drop [OF S2(1) e] by simp_all
  moreover have "token (client ?S) = []" by (simp add: InvalidateToken_def)
  ultimately show ?thesis using interleaved_call_result [OF S] by (intro exI [of _ ?S] exI [of _ "Inl e"]) blast
qed

text \<open>C24: The cut between using a token and dropping it loses a good one: there is an interleaving
  of three calls in which a token just obtained, which no server has rejected, is dropped because of
  the rejection of the one before it.\<close>

theorem late_drop_loses_fresh_token:
  "\<exists>S T i. shared_reach demo_libs (demo_client ''T'') S \<and> call_step demo_libs i S T \<and>
     token (client S) \<noteq> [] \<and> token (client S) \<notin> set (rejected S) \<and> token (client T) = []"
proof -
  let ?c = "demo_client ''T''"
  have tok: "token ?c = ''T''" by (simp add: demo_client_def SetToken_def)
  obtain S1 where S1: "shared_reach demo_libs ?c S1" "token (client S1) = ''T''" "rejected S1 = []"
    "\<exists>a b. calls S1 0 = Authorized demo_job a b ''T''" "calls S1 1 = NotCalled" "calls S1 2 = NotCalled"
    using demo_authorize [OF shared_reach.start, of ?c 0 "''T''"] tok by (fastforce simp: shared_start_def)
  obtain S2 where S2: "shared_reach demo_libs ?c S2" "token (client S2) = ''T''" "rejected S2 = []"
    "\<exists>a b. calls S2 0 = Authorized demo_job a b ''T''" "\<exists>a b. calls S2 1 = Authorized demo_job a b ''T''"
    "calls S2 2 = NotCalled"
    using demo_authorize [OF S1(1,5,2)] S1 by fastforce
  obtain S3 where S3: "shared_reach demo_libs ?c S3" "rejected S3 = [''T'']"
    "\<exists>e. calls S3 0 = RejectedCall demo_job e" "\<exists>a b. calls S3 1 = Authorized demo_job a b ''T''"
    "calls S3 2 = NotCalled"
    using S2(4) demo_reject [OF S2(1)] S2 by fastforce
  obtain S4 where S4: "shared_reach demo_libs ?c S4" "rejected S4 = [''T'', ''T'']"
    "\<exists>e. calls S4 0 = RejectedCall demo_job e" "\<exists>e. calls S4 1 = RejectedCall demo_job e" "calls S4 2 = NotCalled"
    using S3(4) demo_reject [OF S3(1)] S3 by fastforce
  obtain S5 where S5: "shared_reach demo_libs ?c S5" "rejected S5 = [''T'', ''T'']" "token (client S5) = []"
    "\<exists>e. calls S5 1 = RejectedCall demo_job e" "calls S5 2 = NotCalled"
    using S4(3) demo_drop [OF S4(1)] S4 by (fastforce simp: InvalidateToken_def)
  obtain S6 where S6: "shared_reach demo_libs ?c S6" "token (client S6) = ''tok''"
    "rejected S6 = [''T'', ''T'']" "\<exists>e. calls S6 1 = RejectedCall demo_job e"
    using demo_fetch [OF S5(1,5,3)] S5 by fastforce
  then obtain e where "calls S6 1 = RejectedCall demo_job e" by blast
  from call_step.invalidate [OF this] show ?thesis
    using S6(1-3) by (intro exI conjI) (assumption | simp add: InvalidateToken_def)+
qed

end
