(* ===== verification/DaemonRun.thy ===== *)
theory DaemonRun
  imports Daemon SharedClient
begin

text \<open>
  The rest of \<^verbatim>\<open>main\<close> in src/cmd/piaproxyd/main.go: all proxies run under one context until a signal
  ends it; \<^verbatim>\<open>main\<close> then shuts the control server down and waits for every \<^verbatim>\<open>Run\<close> to return. The
  steps of the proxies interleave freely, also with a request for the status page, whose handler
  (\<open>handleAPI\<close> of \<open>Daemon\<close>) asks them one after the other.
\<close>

section \<open>The daemon\<close>

text \<open>\<open>MainExited\<close>: \<^verbatim>\<open>log.Fatalf\<close> has ended the process.\<close>

datatype main_pc = MainWaiting | MainShutdown | MainDone | MainExited

record daemon =
  d_proxies :: "proxy_world list"
  d_signal :: bool
  d_pc :: main_pc

definition daemon_start :: "proxy list \<Rightarrow> daemon" where
  "daemon_start ps = \<lparr>d_proxies = map proxy_start ps, d_signal = False, d_pc = MainWaiting\<rparr>"

text \<open>
  A proxy's own steps leave the common context alone; the signal ends it for all at once. The
  control server can fail (its port may be taken) until it is shut down, which \<^verbatim>\<open>main\<close> does when the
  context has ended; from then on \<^verbatim>\<open>ListenAndServe\<close> returns \<^verbatim>\<open>ErrServerClosed\<close>. The process is
  gone after \<open>MainDone\<close> and \<open>MainExited\<close>.
\<close>

inductive daemon_step :: "libs \<Rightarrow> (rat \<Rightarrow> rat) \<Rightarrow> daemon \<Rightarrow> daemon \<Rightarrow> bool" for L fl where
  signal: "d_pc D \<in> {MainWaiting, MainShutdown} \<Longrightarrow>
     daemon_step L fl D (D\<lparr>d_proxies := map cancel_ctx (d_proxies D), d_signal := True\<rparr>)"
| proxy_moves: "d_pc D \<in> {MainWaiting, MainShutdown} \<Longrightarrow> i < length (d_proxies D) \<Longrightarrow>
     proxy_step L fl (d_proxies D ! i) W \<Longrightarrow> canceled (px_run W) = canceled (px_run (d_proxies D ! i)) \<Longrightarrow>
     daemon_step L fl D (D\<lparr>d_proxies := (d_proxies D)[i := W]\<rparr>)"
| control_fails: "d_pc D = MainWaiting \<Longrightarrow> daemon_step L fl D (D\<lparr>d_pc := MainExited\<rparr>)"
| shutdown: "d_pc D = MainWaiting \<Longrightarrow> d_signal D \<Longrightarrow>
     daemon_step L fl D (D\<lparr>d_pc := MainShutdown\<rparr>)"
| wait: "d_pc D = MainShutdown \<Longrightarrow> \<forall>W \<in> set (d_proxies D). px_pc W = PDone \<Longrightarrow>
     daemon_step L fl D (D\<lparr>d_pc := MainDone\<rparr>)"

inductive daemon_reach :: "libs \<Rightarrow> (rat \<Rightarrow> rat) \<Rightarrow> proxy list \<Rightarrow> daemon \<Rightarrow> bool" for L fl ps where
  start: "daemon_reach L fl ps (daemon_start ps)"
| step: "daemon_reach L fl ps D \<Longrightarrow> daemon_step L fl D E \<Longrightarrow> daemon_reach L fl ps E"

section \<open>Every proxy of the daemon is one by itself\<close>

definition daemon_inv :: "libs \<Rightarrow> (rat \<Rightarrow> rat) \<Rightarrow> proxy list \<Rightarrow> daemon \<Rightarrow> bool" where
  "daemon_inv L fl ps D \<longleftrightarrow>
     list_all2 (\<lambda>p W. proxy_reach L fl p W \<and> (d_signal D \<longrightarrow> canceled (px_run W))) ps (d_proxies D) \<and>
     (d_pc D \<in> {MainShutdown, MainDone} \<longrightarrow> d_signal D) \<and>
     (d_pc D = MainDone \<longrightarrow> (\<forall>W \<in> set (d_proxies D). px_pc W = PDone))"

lemma proxy_done_stays: "proxy_step L fl W W' \<Longrightarrow> px_pc W = PDone \<Longrightarrow> px_pc W' = PDone"
  by (induction rule: proxy_step.induct) (simp_all add: cancel_ctx_def)

lemma cancel_ctx_fields [simp]: "px_pc (cancel_ctx W) = px_pc W" "canceled (px_run (cancel_ctx W))"
  by (simp_all add: cancel_ctx_def)

lemma cancel_ctx_reach: "proxy_reach L fl p W \<Longrightarrow> proxy_reach L fl p (cancel_ctx W)"
  by (rule proxy_reach.step [OF _ proxy_step.ctx_cancel])

lemma daemon_inv_step: "daemon_step L fl D E \<Longrightarrow> daemon_inv L fl ps D \<Longrightarrow> daemon_inv L fl ps E"
proof (induction rule: daemon_step.induct)
  case (signal D)
  then show ?case
    by (auto simp: daemon_inv_def list_all2_conv_all_nth cancel_ctx_reach)
next
  case (proxy_moves D i W)
  have stays: "px_pc W = PDone" if "px_pc (d_proxies D ! i) = PDone"
    using proxy_done_stays [OF proxy_moves(3) that] .
  have "proxy_reach L fl (ps ! i) W"
    using proxy_moves(2,5) proxy_reach.step [OF _ proxy_moves(3)]
    by (auto simp: daemon_inv_def list_all2_conv_all_nth)
  moreover have "\<forall>V \<in> set ((d_proxies D)[i := W]). px_pc V = PDone"
    if "\<forall>V \<in> set (d_proxies D). px_pc V = PDone"
    using that stays [OF that [rule_format, OF nth_mem [OF proxy_moves(2)]]]
    by (auto dest!: set_update_subset_insert [THEN subsetD])
  ultimately show ?case using proxy_moves(2,4,5)
    by (auto simp: daemon_inv_def list_all2_conv_all_nth nth_list_update)
qed (auto simp: daemon_inv_def)

interpretation daemon_m: machine "daemon_step L fl" "daemon_reach L fl ps" "daemon_start ps" for L fl ps
  by unfold_locales (rule daemon_reach.start, erule (1) daemon_reach.step, erule daemon_reach.induct, blast+)

lemma daemon_reach_inv: "daemon_reach L fl ps D \<Longrightarrow> daemon_inv L fl ps D"
proof (erule daemon_m.invariant)
  show "daemon_inv L fl ps (daemon_start ps)"
    by (simp add: daemon_inv_def daemon_start_def list_all2_conv_all_nth proxy_reach.start)
qed (rule daemon_inv_step)

section \<open>Shutting down\<close>

text \<open>The steps of a proxy that leave its context alone.\<close>

definition own_step :: "libs \<Rightarrow> (rat \<Rightarrow> rat) \<Rightarrow> proxy_world \<Rightarrow> proxy_world \<Rightarrow> bool" where
  "own_step L fl W W' \<longleftrightarrow> proxy_step L fl W W' \<and> canceled (px_run W') = canceled (px_run W)"

lemma own_steps_reach:
  "(own_step L fl)\<^sup>*\<^sup>* W W' \<Longrightarrow> proxy_reach L fl p W \<Longrightarrow>
     proxy_reach L fl p W' \<and> canceled (px_run W') = canceled (px_run W)"
  by (induction rule: rtranclp_induct) (auto simp: own_step_def intro: proxy_reach.step)

text \<open>A cancelled tunnel can be run to its return inside the proxy.\<close>

lemma tunnel_path:
  assumes "(run_step L fl)\<^sup>*\<^sup>* (px_run W) R" and "canceled (px_run W)" and "px_pc W \<noteq> PInit"
  shows "(own_step L fl)\<^sup>*\<^sup>* W (W\<lparr>px_run := R\<rparr>) \<and> canceled R"
  using assms(1)
proof (induction rule: rtranclp_induct)
  case base
  then show ?case using assms(2) by simp
next
  case (step R R')
  have c: "canceled R'" using canceled_step [OF step(2)] step(3) by simp
  have "proxy_step L fl (W\<lparr>px_run := R\<rparr>) ((W\<lparr>px_run := R\<rparr>)\<lparr>px_run := R'\<rparr>)"
    by (rule proxy_step.tunnel_moves) (use step(2,3) c assms(3) in simp_all)
  then have "own_step L fl (W\<lparr>px_run := R\<rparr>) (W\<lparr>px_run := R'\<rparr>)"
    using c step(3) by (simp add: own_step_def)
  with step(3) c show ?case by (meson rtranclp.rtrancl_into_rtrancl)
qed

lemma join_path:
  assumes "proxy_reach L fl p W" and "canceled (px_run W)" and "px_pc W = PJoin b"
  shows "\<exists>W'. (own_step L fl)\<^sup>*\<^sup>* W W' \<and> px_pc W' = PDone"
proof -
  have "run_reach L fl (p_cfg p) (px_run W)" using proxy_reach_inv [OF assms(1)] by (simp add: proxy_inv_def)
  from canceled_returns [OF this assms(2)] obtain R where R: "(run_step L fl)\<^sup>*\<^sup>* (px_run W) R" "pc R = Returned"
    by blast
  let ?W = "W\<lparr>px_run := R\<rparr>"
  have path: "(own_step L fl)\<^sup>*\<^sup>* W ?W" using tunnel_path [OF R(1) assms(2)] assms(3) by simp
  let ?V = "?W\<lparr>px_pc := PDone, px := (px ?W)\<lparr>p_set := p_set (px ?W) \<and> \<not> b\<rparr>\<rparr>"
  have "own_step L fl ?W ?V"
    unfolding own_step_def by (rule conjI, rule proxy_step.join) (simp_all add: assms(3) R)
  from rtranclp.rtrancl_into_rtrancl [OF path this] show ?thesis by (intro exI [of _ ?V]) simp
qed

lemma path_trans:
  "(own_step L fl)\<^sup>*\<^sup>* W V \<Longrightarrow> \<exists>W'. (own_step L fl)\<^sup>*\<^sup>* V W' \<and> px_pc W' = PDone \<Longrightarrow>
     \<exists>W'. (own_step L fl)\<^sup>*\<^sup>* W W' \<and> px_pc W' = PDone"
  by (meson rtranclp_trans)

text \<open>From the stop of the listener: its socket is closed, its accept loop ends.\<close>

lemma stopping_path:
  assumes "proxy_reach L fl p W" and "canceled (px_run W)" and "px_pc W = PStopping s"
  shows "\<exists>W'. (own_step L fl)\<^sup>*\<^sup>* W W' \<and> px_pc W' = PDone"
proof -
  have "\<exists>V. (own_step L fl)\<^sup>*\<^sup>* W V \<and> px_pc V = PStopping s \<and> Stop_returns (px_lw V) s"
  proof (cases s)
    case None
    then show ?thesis using assms(3) by (intro exI [of _ W]) (simp add: Stop_returns_def)
  next
    case (Some i)
    have "own_done (px_lw W) = {i}"
      using proxy_reach_parts(3) [OF assms(1)] assms(3) Some by (simp add: phase_inv_def)
    then have "listener_bg (px_lw W) ((px_lw W)\<lparr>socks_open := socks_open (px_lw W) - {i}\<rparr>)"
      by (intro listener_bg.closer) simp
    from proxy_step.listener_moves [OF this]
    have s1: "own_step L fl W (W\<lparr>px_lw := (px_lw W)\<lparr>socks_open := socks_open (px_lw W) - {i}\<rparr>\<rparr>)"
      unfolding own_step_def by (intro conjI) (assumption | simp)+
    let ?W1 = "W\<lparr>px_lw := (px_lw W)\<lparr>socks_open := socks_open (px_lw W) - {i}\<rparr>\<rparr>"
    have "listener_bg (px_lw ?W1) ((px_lw ?W1)\<lparr>accepting := accepting (px_lw ?W1) - {i}\<rparr>)"
      by (rule listener_bg.accept_closed) simp
    from proxy_step.listener_moves [OF this]
    have s2: "own_step L fl ?W1 (?W1\<lparr>px_lw := (px_lw ?W1)\<lparr>accepting := accepting (px_lw ?W1) - {i}\<rparr>\<rparr>)"
      unfolding own_step_def by (intro conjI) (assumption | simp)+
    let ?W2 = "?W1\<lparr>px_lw := (px_lw ?W1)\<lparr>accepting := accepting (px_lw ?W1) - {i}\<rparr>\<rparr>"
    have "(own_step L fl)\<^sup>*\<^sup>* W ?W2" using s1 s2 by (meson r_into_rtranclp rtranclp.rtrancl_into_rtrancl)
    then show ?thesis using assms(3) Some by (intro exI [of _ ?W2]) (simp add: Stop_returns_def)
  qed
  then obtain V where V: "(own_step L fl)\<^sup>*\<^sup>* W V" "px_pc V = PStopping s" "Stop_returns (px_lw V) s" by blast
  have r: "proxy_reach L fl p V" "canceled (px_run V)" using own_steps_reach [OF V(1) assms(1)] assms(2) by simp_all
  have s: "own_step L fl V (V\<lparr>px_pc := PJoin True\<rparr>)"
    unfolding own_step_def by (rule conjI, rule proxy_step.stopped [OF V(2,3)]) simp
  then have "proxy_reach L fl p (V\<lparr>px_pc := PJoin True\<rparr>)"
    using r(1) by (simp add: own_step_def proxy_reach.step)
  from join_path [OF this] r(2) have "\<exists>W'. (own_step L fl)\<^sup>*\<^sup>* (V\<lparr>px_pc := PJoin True\<rparr>) W' \<and> px_pc W' = PDone" by simp
  then show ?thesis using V(1) s by (meson path_trans r_into_rtranclp)
qed

lemma one_step_path:
  assumes "proxy_step L fl W V" and "canceled (px_run V) = canceled (px_run W)"
    and "\<exists>W'. (own_step L fl)\<^sup>*\<^sup>* V W' \<and> px_pc W' = PDone"
  shows "\<exists>W'. (own_step L fl)\<^sup>*\<^sup>* W W' \<and> px_pc W' = PDone"
  using assms by (intro path_trans [of L fl W V]) (auto simp: own_step_def)

lemma wait_path:
  assumes "proxy_reach L fl p W" and "canceled (px_run W)" and "px_pc W = PWaitCtx"
  shows "\<exists>W'. (own_step L fl)\<^sup>*\<^sup>* W W' \<and> px_pc W' = PDone"
proof -
  let ?V = "W\<lparr>px_pc := PStopping (map_option fst (l_listener (lst (px_lw W)))), px_lw := Stop (px_lw W)\<rparr>"
  have s: "proxy_step L fl W ?V" by (rule proxy_step.stop_listener [OF assms(3,2)])
  with assms(1) have "proxy_reach L fl p ?V" by (rule proxy_reach.step)
  from stopping_path [OF this] assms(2) show ?thesis by (intro one_step_path [OF s]) simp_all
qed

text \<open>From wherever \<^verbatim>\<open>Run\<close> is, a cancelled proxy can return by its own steps.\<close>

lemma proxy_returns:
  assumes "proxy_reach L fl p W" and "canceled (px_run W)"
  shows "\<exists>W'. (own_step L fl)\<^sup>*\<^sup>* W W' \<and> px_pc W' = PDone"
proof (cases "px_pc W")
  case PInit
  let ?V = "W\<lparr>px := (px W)\<lparr>p_set := True\<rparr>, px_pc := PWaitStart\<rparr>"
  let ?U = "?V\<lparr>px_pc := PJoin False\<rparr>"
  have s: "proxy_step L fl W ?V" by (rule proxy_step.begin_run [OF PInit])
  have u: "proxy_step L fl ?V ?U" by (rule proxy_step.not_started) (simp_all add: assms(2))
  have "proxy_reach L fl p ?U" by (rule proxy_reach.step [OF proxy_reach.step [OF assms(1) s] u])
  from join_path [OF this, where b = False] assms(2) show ?thesis
    by (intro one_step_path [OF s] one_step_path [OF u]) simp_all
next
  case PWaitStart
  let ?U = "W\<lparr>px_pc := PJoin False\<rparr>"
  have u: "proxy_step L fl W ?U" by (rule proxy_step.not_started [OF PWaitStart assms(2)])
  from join_path [OF proxy_reach.step [OF assms(1) u], where b = False] assms(2) show ?thesis
    by (intro one_step_path [OF u]) simp_all
next
  case PStart
  let ?l = "\<lambda>_ :: string. Inl \<lparr>ee_text = [], ee_timeout = False, ee_closed = False, ee_eof = False\<rparr> :: (sock_id \<times> string) env_result"
  obtain err w where w: "Start 0 ?l (px_lw W) = (err, w)" by (cases "Start 0 ?l (px_lw W)")
  have u: "proxy_step L fl W (W\<lparr>px_pc := PWaitCtx, px_lw := w\<rparr>)"
    by (rule proxy_step.start_listener [OF PStart _ w]) (simp add: fresh_socket_def)
  from wait_path [OF proxy_reach.step [OF assms(1) u]] assms(2) show ?thesis
    by (intro one_step_path [OF u]) simp_all
next
  case PWaitCtx
  from wait_path [OF assms PWaitCtx] show ?thesis .
next
  case (PStopping s)
  from stopping_path [OF assms PStopping] show ?thesis .
next
  case (PJoin b)
  from join_path [OF assms PJoin] show ?thesis .
next
  case PDone
  then show ?thesis by blast
qed

text \<open>What is left when the daemon has ended.\<close>

lemmas daemon_steps_reach = daemon_m.steps_reach

lemma daemon_end_clean:
  assumes "daemon_reach L fl ps D" and "d_pc D = MainDone"
  shows "d_signal D \<and> (\<forall>W \<in> set (d_proxies D).
     open_devs (px_run W) = {} \<and> socks_open (px_lw W) = {} \<and> accepting (px_lw W) = {} \<and> Proxy_Netstack W = None)"
proof (intro conjI ballI)
  have inv: "daemon_inv L fl ps D" using assms(1) by (rule daemon_reach_inv)
  then show "d_signal D" using assms(2) by (simp add: daemon_inv_def)
  fix W
  assume W: "W \<in> set (d_proxies D)"
  then obtain p where p: "proxy_reach L fl p W"
    using inv by (auto simp: daemon_inv_def list_all2_conv_all_nth in_set_conv_nth)
  have "px_pc W = PDone" using inv assms(2) W by (simp add: daemon_inv_def)
  with proxy_reach_parts [OF p] show "open_devs (px_run W) = {}" "socks_open (px_lw W) = {}" "accepting (px_lw W) = {}"
    "Proxy_Netstack W = None"
    by (auto simp: phase_inv_def run_inv_def quiet_def listener_inv_def Proxy_Netstack_def Netstack_def)
qed

section \<open>The status page of the running daemon\<close>

text \<open>
  \<^verbatim>\<open>handleAPI\<close> asks the proxies in their order, each \<^verbatim>\<open>Snapshot\<close> reads pointers, tunnel and listener
  at three moments, and the daemon moves on in between: \<open>views\<close> are these moments.
\<close>

type_synonym view = "daemon \<times> daemon \<times> daemon"

fun views :: "libs \<Rightarrow> (rat \<Rightarrow> rat) \<Rightarrow> daemon \<Rightarrow> view list \<Rightarrow> bool" where
  "views L fl D [] \<longleftrightarrow> True"
| "views L fl D ((A, B, C) # vs) \<longleftrightarrow>
     (daemon_step L fl)\<^sup>*\<^sup>* D A \<and> (daemon_step L fl)\<^sup>*\<^sup>* A B \<and> (daemon_step L fl)\<^sup>*\<^sup>* B C \<and> views L fl C vs"

text \<open>The clock readings, the state of the API client and the order of the connections, per proxy.\<close>

record snap_env =
  se_now1 :: gotime
  se_now2 :: gotime
  se_pia :: "piaClient option"
  se_ord :: "conn_id list"

definition view_snap :: "(rat \<Rightarrow> rat) \<Rightarrow> (nat \<Rightarrow> snap_env) \<Rightarrow> view list \<Rightarrow> nat \<Rightarrow> status" where
  "view_snap fl env vs i =
     (case vs ! i of (A, B, C) \<Rightarrow>
        Proxy_Snapshot fl (se_now1 (env i)) (se_now2 (env i)) (se_pia (env i)) (se_ord (env i))
          (d_proxies A ! i) (d_proxies B ! i) (d_proxies C ! i))"

text \<open>The server holds the proxies, as their places in the daemon, and the time of its start.\<close>

record statusServer =
  ss_proxies :: "nat list"
  ss_started :: gotime

definition NewStatusServer :: "nat list \<Rightarrow> gotime \<Rightarrow> statusServer" where
  "NewStatusServer proxies now = \<lparr>ss_proxies = proxies, ss_started = now\<rparr>"

definition status_page ::
  "(rat \<Rightarrow> rat) \<Rightarrow> (status list \<Rightarrow> status list) \<Rightarrow> statusServer \<Rightarrow> gotime \<Rightarrow> gotime \<Rightarrow> (nat \<Rightarrow> snap_env) \<Rightarrow>
   view list \<Rightarrow> apiPayload" where
  "status_page fl srt s now1 now2 env vs =
     handleAPI fl srt (ss_started s) now1 now2 (map (view_snap fl env vs) (ss_proxies s))"

lemma daemon_step_proxy:
  assumes "daemon_step L fl D E" and "i < length (d_proxies D)"
  shows "(proxy_step L fl)\<^sup>*\<^sup>* (d_proxies D ! i) (d_proxies E ! i)"
  using assms
proof (induction rule: daemon_step.induct)
  case (signal D)
  then show ?case by (simp add: r_into_rtranclp proxy_step.ctx_cancel)
next
  case (proxy_moves D j W)
  then show ?case by (cases "i = j") (simp_all add: r_into_rtranclp)
qed simp_all

lemma daemon_length: "daemon_step L fl D E \<Longrightarrow> length (d_proxies E) = length (d_proxies D)"
  by (induction rule: daemon_step.induct) simp_all

lemma daemon_steps_proxy:
  "(daemon_step L fl)\<^sup>*\<^sup>* D E \<Longrightarrow> i < length (d_proxies D) \<Longrightarrow>
     (proxy_step L fl)\<^sup>*\<^sup>* (d_proxies D ! i) (d_proxies E ! i) \<and> length (d_proxies E) = length (d_proxies D)"
proof (induction rule: rtranclp_induct)
  case base
  then show ?case by simp
next
  case (step E F)
  then show ?case using daemon_step_proxy [OF step(2)] daemon_length [OF step(2)]
    by (metis rtranclp_trans)
qed

lemma daemon_reach_length: "daemon_reach L fl ps D \<Longrightarrow> length (d_proxies D) = length ps"
  by (drule daemon_reach_inv) (auto simp: daemon_inv_def dest: list_all2_lengthD)

lemma views_nth:
  "views L fl D vs \<Longrightarrow> daemon_reach L fl ps D \<Longrightarrow> i < length vs \<Longrightarrow> vs ! i = (A, B, C) \<Longrightarrow>
     daemon_reach L fl ps A \<and> (daemon_step L fl)\<^sup>*\<^sup>* A B \<and> (daemon_step L fl)\<^sup>*\<^sup>* B C"
proof (induction L fl D vs arbitrary: i rule: views.induct)
  case (1 L fl D)
  then show ?case by simp
next
  case (2 L fl D A' B' C' vs)
  then have "daemon_reach L fl ps A'" by (auto intro: daemon_steps_reach)
  moreover from this 2(2) have "daemon_reach L fl ps C'" by (auto intro: daemon_steps_reach)
  ultimately show ?case using 2 by (cases i) auto
qed

text \<open>Each row is the status of its own proxy.\<close>

lemma view_row:
  assumes "daemon_reach L fl ps D" and "views L fl D vs" and "i < length ps" and "i < length vs"
  shows "st_City (view_snap fl env vs i) = City (p_cfg (ps ! i))"
    and "st_State (view_snap fl env vs i) \<in> {StateUp, StateDegraded} \<Longrightarrow>
      open_devs (px_run (d_proxies (fst (snd (vs ! i))) ! i)) \<noteq> {}"
proof -
  obtain A B C where v: "vs ! i = (A, B, C)" by (cases "vs ! i")
  have r: "daemon_reach L fl ps A" "(daemon_step L fl)\<^sup>*\<^sup>* A B" using views_nth [OF assms(2,1,4) v] by simp_all
  have p: "proxy_reach L fl (ps ! i) (d_proxies A ! i)"
    using daemon_reach_inv [OF r(1)] assms(3) by (simp add: daemon_inv_def list_all2_conv_all_nth)
  show "st_City (view_snap fl env vs i) = City (p_cfg (ps ! i))"
    by (simp add: view_snap_def v snapshot_city proxy_reach_parts(4) [OF p])
  have "(proxy_step L fl)\<^sup>*\<^sup>* (d_proxies A ! i) (d_proxies B ! i)"
    using daemon_steps_proxy [OF r(2)] daemon_reach_length [OF r(1)] assms(3) by simp
  then show "st_State (view_snap fl env vs i) \<in> {StateUp, StateDegraded} \<Longrightarrow>
      open_devs (px_run (d_proxies (fst (snd (vs ! i))) ! i)) \<noteq> {}"
    using snapshot_serving [OF p] by (simp add: view_snap_def v)
qed

section \<open>Properties\<close>

text \<open>C25: A request for the status page gets one row for every proxy the daemon was started with, in
  the order of the city names, whatever the proxies do while it is answered; the proxies counted as
  up had an open WireGuard device when they were asked, so the count is at most the number of those.\<close>

theorem status_page_of_daemon:
  assumes "daemon_reach L fl ps D" and "views L fl D vs" and "length vs = length ps"
    and "sorts_by_city srt" and "page = status_page fl srt (NewStatusServer [0..<length ps] t0) t1 t2 env vs"
  shows "mset (map st_City (ap_Proxies page)) = mset (map (\<lambda>p. City (p_cfg p)) ps) \<and>
    sorted (map st_City (ap_Proxies page)) \<and> ap_ProxyCount page = int (length ps) \<and>
    ap_UpCount page = int (length (filter (\<lambda>s. st_State s = StateUp) (ap_Proxies page))) \<and>
    ap_UpCount page \<le> int (card {i. i < length ps \<and>
       open_devs (px_run (d_proxies (fst (snd (vs ! i))) ! i)) \<noteq> {}})"
proof -
  let ?snaps = "map (view_snap fl env vs) [0..<length vs]"
  have page: "page = handleAPI fl srt t0 t1 t2 ?snaps"
    by (simp add: assms(3,5) status_page_def NewStatusServer_def)
  note rows = api_payload [OF assms(4), of fl t0 t1 t2 ?snaps, folded page]
  have "map st_City ?snaps = map (\<lambda>p. City (p_cfg p)) ps"
    using view_row(1) [OF assms(1,2)] assms(3) by (intro nth_equalityI) simp_all
  then have cities: "mset (map st_City (ap_Proxies page)) = mset (map (\<lambda>p. City (p_cfg p)) ps)"
    using rows by (metis mset_map)
  have up: "ap_UpCount page = int (length (filter (\<lambda>s. st_State s = StateUp) ?snaps))"
    by (simp add: page handleAPI_def api_collect_fold Let_def)
  also have "length (filter (\<lambda>s. st_State s = StateUp) ?snaps) =
      length (filter (\<lambda>s. st_State s = StateUp) (ap_Proxies page))"
    using rows by (metis mset_filter size_mset)
  finally have count: "ap_UpCount page = int (length (filter (\<lambda>s. st_State s = StateUp) (ap_Proxies page)))" .
  have "length (filter (\<lambda>s. st_State s = StateUp) ?snaps) = card {i. i < length vs \<and> st_State (view_snap fl env vs i) = StateUp}"
    by (simp add: length_filter_conv_card cong: conj_cong)
  also have "\<dots> \<le> card {i. i < length ps \<and> open_devs (px_run (d_proxies (fst (snd (vs ! i))) ! i)) \<noteq> {}}"
    using view_row(2) [OF assms(1,2), of _ env] assms(3) by (intro card_mono) auto
  finally show ?thesis using rows cities count up assms(3) by simp
qed

theorem status_page_of_daemon_witness:
  "ap_ProxyCount (status_page (\<lambda>x. x) (sort_key st_City) (NewStatusServer [0..<1] 0) 0 0
      (\<lambda>_. \<lparr>se_now1 = 0, se_now2 = 0, se_pia = None, se_ord = []\<rparr>)
      [(daemon_start [NewProxy demo_cfg], daemon_start [NewProxy demo_cfg], daemon_start [NewProxy demo_cfg])]) = 1"
proof -
  let ?D = "daemon_start [NewProxy demo_cfg]"
  have v: "views demo_libs (\<lambda>x. x) ?D [(?D, ?D, ?D)]" by simp
  have s: "sorts_by_city (sort_key st_City)" by (simp add: sorts_by_city_def)
  from status_page_of_daemon [OF daemon_reach.start v _ s refl] show ?thesis by simp
qed

end
