(* ===== verification/Fleet.thy ===== *)
theory Fleet
  imports DaemonRun
begin

text \<open>
  The daemon with the one API client its tunnels share: a tunnel that looks its region up or
  registers a key does so by steps on the client of \<open>SharedClient\<close>, and while its call is under way the
  other tunnels, the listeners, the signal and the calls of the others move on. The tunnels of
  \<open>TunnelRun\<close> take any client; here it is what the others have left of it. The composition refines
  both the daemon and the client, so what is proved of either holds of the whole.
\<close>

section \<open>The composition\<close>

record fleet =
  f_daemon :: daemon
  f_shared :: shared

definition run_of :: "daemon \<Rightarrow> nat \<Rightarrow> run_state" where
  "run_of D i = px_run (d_proxies D ! i)"

definition set_run :: "nat \<Rightarrow> run_state \<Rightarrow> daemon \<Rightarrow> daemon" where
  "set_run i R D = D\<lparr>d_proxies := (d_proxies D)[i := (d_proxies D ! i)\<lparr>px_run := R\<rparr>]\<rparr>"

text \<open>The goroutine of tunnel \<open>i\<close> goes on at another place, and changes nothing of its tunnel.\<close>

definition move_run :: "nat \<Rightarrow> run_pc \<Rightarrow> daemon \<Rightarrow> daemon" where
  "move_run i p D = set_run i ((run_of D i)\<lparr>pc := p\<rparr>) D"

text \<open>
  A tunnel uses the client while it looks up its region, and while it registers, unless there is no
  preferred server to try first.
\<close>

definition off_client :: "unicode \<Rightarrow> run_state \<Rightarrow> run_state \<Rightarrow> bool" where
  "off_client U R R' \<longleftrightarrow> pc R' = pc R \<or>
     (case pc R of
        Bringing \<Rightarrow> False
      | Found reg \<Rightarrow> preferredServerInRegion U (tun R) reg = None
      | PickRandom reg \<Rightarrow> False
      | _ \<Rightarrow> True)"

text \<open>
  Where \<^verbatim>\<open>runOnce\<close> goes on with the result of its call: after the preferred server failed a random
  one is picked.
\<close>

definition after_call :: "run_pc \<Rightarrow> wgSession result \<Rightarrow> run_pc" where
  "after_call p r =
     (case r of
        Inr ws \<Rightarrow> Registered ws
      | Inl e \<Rightarrow> (case p of Found reg \<Rightarrow> PickRandom reg | _ \<Rightarrow> Failed (ErrWrap ''addKey: '' e [])))"

definition at_work :: "daemon \<Rightarrow> nat \<Rightarrow> bool" where
  "at_work D i \<longleftrightarrow> d_pc D \<in> {MainWaiting, MainShutdown} \<and> i < length (d_proxies D)"

inductive fleet_step :: "libs \<Rightarrow> (rat \<Rightarrow> rat) \<Rightarrow> fleet \<Rightarrow> fleet \<Rightarrow> bool" for L fl where
  elsewhere: "daemon_step L fl D D' \<Longrightarrow>
     (\<forall>i < length (d_proxies D). off_client (lb_uni L) (run_of D i) (run_of D' i)) \<Longrightarrow>
     fleet_step L fl \<lparr>f_daemon = D, f_shared = S\<rparr> \<lparr>f_daemon = D', f_shared = S\<rparr>"
| look_up: "at_work D i \<Longrightarrow> pc (run_of D i) = Bringing \<Longrightarrow>
     FindRegion L ans (client S) (Region (tun_cfg (tun (run_of D i)))) = (r, c', q) \<Longrightarrow>
     fleet_step L fl \<lparr>f_daemon = D, f_shared = S\<rparr>
       \<lparr>f_daemon = move_run i (case r of Inl e \<Rightarrow> Failed (ErrWrap ''region lookup: '' e []) | Inr reg \<Rightarrow> Found reg) D,
        f_shared = S\<lparr>client := c'\<rparr>\<rparr>"
| ask_preferred: "at_work D i \<Longrightarrow> pc (run_of D i) = Found reg \<Longrightarrow>
     preferredServerInRegion (lb_uni L) (tun (run_of D i)) reg = Some s \<Longrightarrow> calls S i = NotCalled \<Longrightarrow>
     fleet_step L fl \<lparr>f_daemon = D, f_shared = S\<rparr> \<lparr>f_daemon = D, f_shared = set_call i (Begun (reg, s)) S\<rparr>"
| ask_random: "at_work D i \<Longrightarrow> pc (run_of D i) = PickRandom reg \<Longrightarrow> k < length (rg_servers reg) \<Longrightarrow>
     calls S i = NotCalled \<Longrightarrow>
     fleet_step L fl \<lparr>f_daemon = D, f_shared = S\<rparr>
       \<lparr>f_daemon = D, f_shared = set_call i (Begun (reg, rg_servers reg ! k)) S\<rparr>"
| no_random: "at_work D i \<Longrightarrow> pc (run_of D i) = PickRandom reg \<Longrightarrow> calls S i = NotCalled \<Longrightarrow>
     NewSession L A (\<lambda>_. Inl rnd) (client S) reg = (Inl e, c', q) \<Longrightarrow>
     fleet_step L fl \<lparr>f_daemon = D, f_shared = S\<rparr>
       \<lparr>f_daemon = move_run i (Failed (ErrWrap ''addKey: '' e [])) D, f_shared = S\<rparr>"
| call_moves: "at_work D i \<Longrightarrow> call_step L i S S' \<Longrightarrow>
     fleet_step L fl \<lparr>f_daemon = D, f_shared = S\<rparr> \<lparr>f_daemon = D, f_shared = S'\<rparr>"
| answer: "at_work D i \<Longrightarrow> calls S i = Returned_call j r \<Longrightarrow>
     fleet_step L fl \<lparr>f_daemon = D, f_shared = S\<rparr>
       \<lparr>f_daemon = move_run i (after_call (pc (run_of D i)) r) D, f_shared = set_call i NotCalled S\<rparr>"

definition fleet_start :: "proxy list \<Rightarrow> piaClient \<Rightarrow> fleet" where
  "fleet_start ps c = \<lparr>f_daemon = daemon_start ps, f_shared = shared_start c\<rparr>"

inductive fleet_reach :: "libs \<Rightarrow> (rat \<Rightarrow> rat) \<Rightarrow> proxy list \<Rightarrow> piaClient \<Rightarrow> fleet \<Rightarrow> bool" for L fl ps c where
  start: "fleet_reach L fl ps c (fleet_start ps c)"
| step: "fleet_reach L fl ps c F \<Longrightarrow> fleet_step L fl F G \<Longrightarrow> fleet_reach L fl ps c G"

interpretation fleet_m: machine "fleet_step L fl" "fleet_reach L fl ps c" "fleet_start ps c" for L fl ps c
  by unfold_locales (rule fleet_reach.start, erule (1) fleet_reach.step, erule fleet_reach.induct, blast+)

section \<open>Single steps\<close>

lemma run_of_set [simp]:
  "i < length (d_proxies D) \<Longrightarrow> run_of (set_run i R D) k = (if k = i then R else run_of D k)"
  "length (d_proxies (set_run i R D)) = length (d_proxies D)" "d_pc (set_run i R D) = d_pc D"
  "i < length (d_proxies D) \<Longrightarrow> set_run i R' (set_run i R D) = set_run i R' D" "at_work (set_run i R D) k = at_work D k"
  "i < length (d_proxies D) \<Longrightarrow> px_pc (d_proxies (set_run i R D) ! k) = px_pc (d_proxies D ! k)"
  by (simp_all add: run_of_def set_run_def at_work_def nth_list_update)

lemma run_of_move [simp]:
  "i < length (d_proxies D) \<Longrightarrow> run_of (move_run i p D) k = (if k = i then (run_of D i)\<lparr>pc := p\<rparr> else run_of D k)"
  "length (d_proxies (move_run i p D)) = length (d_proxies D)" "d_pc (move_run i p D) = d_pc D"
  "at_work (move_run i p D) k = at_work D k"
  by (simp_all add: move_run_def)

lemma move_move [simp]: "i < length (d_proxies D) \<Longrightarrow> move_run i p' (move_run i p D) = move_run i p' D"
  by (simp add: move_run_def)

lemma daemon_step_run:
  assumes "daemon_step L fl D E" and "i < length (d_proxies D)"
  shows "run_of E i = run_of D i \<or> run_step L fl (run_of D i) (run_of E i)"
  using assms
proof (induction rule: daemon_step.induct)
  case (signal D)
  then show ?case by (simp add: run_of_def cancel_ctx_def run_step.cancel)
next
  case (proxy_moves D j W)
  then show ?case using proxy_step_run [OF proxy_moves(3)] by (cases "i = j") (auto simp: run_of_def)
qed (simp_all add: run_of_def)

lemma move_daemon:
  assumes "daemon_reach L fl ps D" and "at_work D i" and "pc (run_of D i) \<noteq> LoopHead"
    and "run_step L fl (run_of D i) ((run_of D i)\<lparr>pc := p\<rparr>)"
  shows "daemon_step L fl D (move_run i p D)"
proof -
  let ?W = "d_proxies D ! i"
  have i: "i < length (d_proxies D)" "d_pc D \<in> {MainWaiting, MainShutdown}" using assms(2) by (simp_all add: at_work_def)
  then have "proxy_reach L fl (ps ! i) ?W"
    using daemon_reach_inv [OF assms(1)] by (auto simp: daemon_inv_def list_all2_conv_all_nth)
  from init_not_started [OF this] have "px_pc ?W \<noteq> PInit" using assms(3) by (auto simp: run_of_def)
  from proxy_step.tunnel_moves [OF this] assms(4)
  have "proxy_step L fl ?W (?W\<lparr>px_run := (run_of D i)\<lparr>pc := p\<rparr>\<rparr>)" by (simp add: run_of_def)
  from daemon_step.proxy_moves [OF i(2,1) this] show ?thesis by (simp add: move_run_def set_run_def run_of_def)
qed

lemma registering_tun:
  "run_step L fl R R' \<Longrightarrow> pc R' = pc R \<Longrightarrow> pc R = Found reg \<or> pc R = PickRandom reg \<Longrightarrow> tun R' = tun R"
  by (cases rule: run_step.cases) auto

section \<open>A call belongs to the tunnel that waits for it\<close>

primrec job_of :: "call_pc \<Rightarrow> job option" where
  "job_of NotCalled = None"
| "job_of (Begun j) = Some j"
| "job_of (Keyed j pub priv) = Some j"
| "job_of (Authorized j pub priv t) = Some j"
| "job_of (RejectedCall j e) = Some j"
| "job_of (Returned_call j r) = Some j"

definition job_fits :: "unicode \<Rightarrow> run_state \<Rightarrow> job \<Rightarrow> bool" where
  "job_fits U R j \<longleftrightarrow>
     (case pc R of
        Found reg \<Rightarrow> fst j = reg \<and> preferredServerInRegion U (tun R) reg = Some (snd j)
      | PickRandom reg \<Rightarrow> fst j = reg \<and> snd j \<in> set (rg_servers reg)
      | _ \<Rightarrow> False)"

lemma call_step_job: "call_step L i S T \<Longrightarrow> job_of (calls T k) = job_of (calls S k)"
  by (induction rule: call_step.induct) auto

lemma off_keeps_job:
  assumes "R' = R \<or> run_step L fl R R'" and "off_client U R R'" and "job_fits U R j"
  shows "job_fits U R' j"
proof -
  have "pc R' = pc R" "\<exists>reg. pc R = Found reg \<or> pc R = PickRandom reg"
    using assms(2,3) by (auto simp: off_client_def job_fits_def split: run_pc.splits)
  with assms(1) registering_tun have "tun R' = tun R" by blast
  with \<open>pc R' = pc R\<close> assms(3) show ?thesis by (simp add: job_fits_def split: run_pc.splits)
qed

text \<open>The step of the tunnel when its call has returned.\<close>

lemma answer_step:
  assumes "job_fits (lb_uni L) R (reg, s)" and "call_result L ca (reg, s) r"
  shows "run_step L fl R (R\<lparr>pc := after_call (pc R) r\<rparr>)"
proof -
  obtain A c c' q where new: "NewSessionWithServer L A c reg s = (r, c', q)"
    using assms(2) by (auto simp: call_result_def)
  consider "pc R = Found reg" "preferredServerInRegion (lb_uni L) (tun R) reg = Some s"
    | k where "pc R = PickRandom reg" "k < length (rg_servers reg)" "rg_servers reg ! k = s"
    using assms(1) by (auto simp: job_fits_def in_set_conv_nth split: run_pc.splits)
  then show ?thesis
  proof cases
    case 1
    then show ?thesis using new
      by (cases r) (auto simp: after_call_def intro: run_step.preferred_fails run_step.preferred_works)
  next
    case 2
    let ?pick = "\<lambda>n. Inr (if n = length (rg_servers reg) then k else 0)"
    have "pick_ok ?pick" using 2(2) by (auto simp: pick_ok_def split: if_splits)
    moreover have "rg_servers reg \<noteq> []" using 2(2) by auto
    then have "NewSession L A ?pick c reg = (r, c', q)" using new 2(3) by (simp add: NewSession_def)
    ultimately show ?thesis using 2(1)
      by (cases r) (auto simp: after_call_def intro: run_step.random_fails run_step.random_works)
  qed
qed

section \<open>The composition refines its parts\<close>

definition fleet_inv :: "libs \<Rightarrow> (rat \<Rightarrow> rat) \<Rightarrow> proxy list \<Rightarrow> piaClient \<Rightarrow> fleet \<Rightarrow> bool" where
  "fleet_inv L fl ps c F \<longleftrightarrow>
     daemon_reach L fl ps (f_daemon F) \<and> shared_reach L c (f_shared F) \<and>
     (\<forall>i j. job_of (calls (f_shared F) i) = Some j \<longrightarrow>
        i < length (d_proxies (f_daemon F)) \<and> job_fits (lb_uni L) (run_of (f_daemon F) i) j)"

lemma fleet_inv_job:
  "fleet_inv L fl ps c F \<Longrightarrow> job_of (calls (f_shared F) i) = Some j \<Longrightarrow>
     i < length (d_proxies (f_daemon F)) \<and> job_fits (lb_uni L) (run_of (f_daemon F) i) j"
  unfolding fleet_inv_def by blast

text \<open>Each step is one of the daemon, or none, and one of the client, or none.\<close>

lemma fleet_step_parts:
  "fleet_step L fl F G \<Longrightarrow> fleet_inv L fl ps c F \<Longrightarrow>
     (f_daemon G = f_daemon F \<or> daemon_step L fl (f_daemon F) (f_daemon G)) \<and>
     (f_shared G = f_shared F \<or> shared_step L (f_shared F) (f_shared G))"
proof (induction rule: fleet_step.induct)
  case (look_up D i ans S r c' q)
  have "run_step L fl (run_of D i) ((run_of D i)
      \<lparr>pc := (case r of Inl e \<Rightarrow> Failed (ErrWrap ''region lookup: '' e []) | Inr reg \<Rightarrow> Found reg)\<rparr>)"
    using look_up(2,3) by (cases r) (auto intro: run_step.region_lost run_step.region_found)
  from move_daemon [OF _ look_up(1) _ this, where ps = ps] look_up(2,4) show ?case
    using shared_step.region_lookup [OF look_up(3)] by (simp add: fleet_inv_def)
next
  case (no_random D i reg S A rnd e c' q)
  have "run_step L fl (run_of D i) ((run_of D i)\<lparr>pc := Failed (ErrWrap ''addKey: '' e [])\<rparr>)"
    using no_random(2,4) by (intro run_step.random_fails) (auto simp: pick_ok_def)
  from move_daemon [OF _ no_random(1) _ this, where ps = ps] no_random(2,5) show ?case by (simp add: fleet_inv_def)
next
  case (answer D i S j r)
  obtain reg s where j: "j = (reg, s)" by (cases j)
  have res: "call_result L (pc_cert c) (reg, s) r"
    using answer(2,3) j shared_reach_results [of L c S i] by (auto simp: fleet_inv_def call_inv_def)
  have fits: "job_fits (lb_uni L) (run_of D i) (reg, s)" using answer(2,3) j by (auto simp: fleet_inv_def)
  then have "pc (run_of D i) \<noteq> LoopHead" by (auto simp: job_fits_def)
  from move_daemon [OF _ answer(1) this answer_step [OF fits res], where ps = ps] answer(3) show ?case
    using shared_step.take_result [OF answer(2)] by (simp add: fleet_inv_def)
qed (auto intro: shared_step.begin_call shared_step.call_moves)

lemma fleet_links:
  "fleet_step L fl F G \<Longrightarrow> fleet_inv L fl ps c F \<Longrightarrow> job_of (calls (f_shared G) i) = Some j \<Longrightarrow>
     i < length (d_proxies (f_daemon G)) \<and> job_fits (lb_uni L) (run_of (f_daemon G) i) j"
proof (induction rule: fleet_step.induct)
  case (elsewhere D D' S)
  then have i: "i < length (d_proxies D)" "job_fits (lb_uni L) (run_of D i) j" using fleet_inv_job [OF elsewhere(3), of i j] by simp_all
  then show ?case
    using off_keeps_job [OF daemon_step_run [OF elsewhere(1) i(1)] _ i(2)] elsewhere(2) daemon_length [OF elsewhere(1)]
    by simp
next
  case (look_up D k ans S r c' q)
  then have "i < length (d_proxies D)" "job_fits (lb_uni L) (run_of D i) j"
    using fleet_inv_job [OF look_up(4), of i j] by simp_all
  moreover from this look_up(2) have "i \<noteq> k" by (auto simp: job_fits_def)
  ultimately show ?case using look_up(1) by (simp add: at_work_def)
next
  case (ask_preferred D k reg s S)
  then show ?case using fleet_inv_job [OF ask_preferred(5), of i j]
    by (cases "i = k") (auto simp: at_work_def job_fits_def)
next
  case (ask_random D k reg n S)
  then show ?case using fleet_inv_job [OF ask_random(5), of i j]
    by (cases "i = k") (auto simp: at_work_def job_fits_def)
next
  case (no_random D k reg S A rnd e c' q)
  then have "i < length (d_proxies D)" "job_fits (lb_uni L) (run_of D i) j"
    using fleet_inv_job [OF no_random(5), of i j] by simp_all
  moreover have "i \<noteq> k" using no_random(3,6) by auto
  ultimately show ?case using no_random(1) by (simp add: at_work_def)
next
  case (call_moves D k S S')
  then show ?case using call_step_job [OF call_moves(2), of i] fleet_inv_job [OF call_moves(3), of i j] by simp
next
  case (answer D k S j' r)
  then show ?case using fleet_inv_job [OF answer(3), of i j] by (cases "i = k") (auto simp: at_work_def)
qed

lemma fleet_reach_inv: "fleet_reach L fl ps c F \<Longrightarrow> fleet_inv L fl ps c F"
proof (erule fleet_m.invariant)
  show "fleet_inv L fl ps c (fleet_start ps c)"
    by (simp add: fleet_inv_def fleet_start_def daemon_reach.start shared_reach.start)
      (simp add: shared_start_def)
next
  fix F G
  assume st: "fleet_step L fl F G" and inv: "fleet_inv L fl ps c F"
  then have "daemon_reach L fl ps (f_daemon G)" "shared_reach L c (f_shared G)"
    using fleet_step_parts [OF st inv] daemon_reach.step shared_reach.step unfolding fleet_inv_def by metis+
  then show "fleet_inv L fl ps c G" unfolding fleet_inv_def using fleet_links [OF st inv] by blast
qed

lemma fleet_reach_parts:
  assumes "fleet_reach L fl ps c F"
  shows "daemon_reach L fl ps (f_daemon F)" "shared_reach L c (f_shared F)" "daemon_inv L fl ps (f_daemon F)"
proof -
  show "daemon_reach L fl ps (f_daemon F)" "shared_reach L c (f_shared F)"
    using fleet_reach_inv [OF assms] unfolding fleet_inv_def by blast+
  then show "daemon_inv L fl ps (f_daemon F)" by (blast intro: daemon_reach_inv)
qed

interpretation fleet_d: refinement "fleet_step L fl" "fleet_reach L fl ps c" "fleet_start ps c" f_daemon "daemon_step L fl"
  for L fl ps c
  by unfold_locales (blast dest: fleet_step_parts fleet_reach_inv)

interpretation fleet_c: refinement "fleet_step L fl" "fleet_reach L fl ps c" "fleet_start ps c" f_shared "shared_step L"
  for L fl ps c
  by unfold_locales (blast dest: fleet_step_parts fleet_reach_inv)

section \<open>An attempt that nobody interrupts\<close>

text \<open>
  The other way round: alone, a tunnel of the fleet can do all that \<open>bring_up\<close> of \<open>Tunnel\<close> does with the
  client as it is, and leaves the client as \<open>bring_up\<close> does.
\<close>

abbreviation fleet_steps :: "libs \<Rightarrow> (rat \<Rightarrow> rat) \<Rightarrow> daemon \<Rightarrow> shared \<Rightarrow> daemon \<Rightarrow> shared \<Rightarrow> bool" where
  "fleet_steps L fl D S D' S' \<equiv>
     (fleet_step L fl)\<^sup>*\<^sup>* \<lparr>f_daemon = D, f_shared = S\<rparr> \<lparr>f_daemon = D', f_shared = S'\<rparr>"

lemma own_run_step:
  assumes "at_work D i" and "px_pc (d_proxies D ! i) \<noteq> PInit" and "run_step L fl (run_of D i) R"
    and "canceled R = canceled (run_of D i)" and "off_client (lb_uni L) (run_of D i) R"
  shows "fleet_step L fl \<lparr>f_daemon = D, f_shared = S\<rparr> \<lparr>f_daemon = set_run i R D, f_shared = S\<rparr>"
proof (rule fleet_step.elsewhere)
  have i: "i < length (d_proxies D)" "d_pc D \<in> {MainWaiting, MainShutdown}" using assms(1) by (simp_all add: at_work_def)
  from proxy_step.tunnel_moves [OF assms(2)] assms(3,4)
  have "proxy_step L fl (d_proxies D ! i) ((d_proxies D ! i)\<lparr>px_run := R\<rparr>)" by (simp add: run_of_def)
  from daemon_step.proxy_moves [OF i(2,1) this] assms(4) show "daemon_step L fl D (set_run i R D)"
    by (simp add: set_run_def run_of_def)
  show "\<forall>k < length (d_proxies D). off_client (lb_uni L) (run_of D k) (run_of (set_run i R D) k)"
    using assms(5) i(1) by (simp add: off_client_def)
qed

lemma call_path:
  assumes "(call_step L i)\<^sup>*\<^sup>* S T" and "at_work D i"
  shows "fleet_steps L fl D S D T"
  using assms(1)
  by (induction rule: rtranclp_induct) (blast intro: rtranclp.rtrancl_into_rtrancl fleet_step.call_moves [OF assms(2)])+

lemma answer_path:
  assumes "NewSessionWithServer L A (client S) reg s = (r, c', q)" and "at_work D i"
    and "fleet_steps L fl D S D (set_call i (Begun (reg, s)) S)"
  shows "\<exists>T. fleet_steps L fl D S (move_run i (after_call (pc (run_of D i)) r) D) T \<and> client T = c' \<and> calls T i = NotCalled"
proof -
  let ?S1 = "set_call i (Begun (reg, s)) S"
  obtain T where T: "(call_step L i)\<^sup>*\<^sup>* ?S1 T" "client T = c'" "calls T i = Returned_call (reg, s) r"
    using uninterrupted_call [of L A ?S1 reg s r c' q i] assms(1) by auto
  have "fleet_steps L fl D S D T" using assms(3) call_path [OF T(1) assms(2), of fl] by (rule rtranclp_trans)
  with fleet_step.answer [OF assms(2) T(3), of L fl]
  have "fleet_steps L fl D S (move_run i (after_call (pc (run_of D i)) r) D) (set_call i NotCalled T)"
    by (blast intro: rtranclp.rtrancl_into_rtrancl)
  then show ?thesis using T(2) by (intro exI [of _ "set_call i NotCalled T"]) simp
qed

lemma random_call_path:
  assumes "NewSession L A pick (client S) reg = (r, c', q)" and "pick_ok pick" and "at_work D i"
    and "pc (run_of D i) = PickRandom reg" and "calls S i = NotCalled"
  shows "\<exists>T. fleet_steps L fl D S (move_run i (after_call (PickRandom reg) r) D) T \<and> client T = c' \<and> calls T i = NotCalled"
proof (cases "\<exists>k. rg_servers reg \<noteq> [] \<and> pick (length (rg_servers reg)) = Inr k")
  case True
  then obtain k where k: "rg_servers reg \<noteq> []" "pick (length (rg_servers reg)) = Inr k" by blast
  with assms(2) have lt: "k < length (rg_servers reg)" by (auto simp: pick_ok_def)
  have new: "NewSessionWithServer L A (client S) reg (rg_servers reg ! k) = (r, c', q)"
    using assms(1) k by (simp add: NewSession_def)
  have "fleet_steps L fl D S D (set_call i (Begun (reg, rg_servers reg ! k)) S)"
    using fleet_step.ask_random [OF assms(3,4) lt assms(5)] by blast
  from answer_path [OF new assms(3) this] assms(4) show ?thesis by simp
next
  case False
  have "\<exists>rnd e. NewSession L A (\<lambda>_. Inl rnd) (client S) reg = (Inl e, c', q) \<and> r = Inl e \<and> c' = client S"
  proof (cases "rg_servers reg = []")
    case True
    with assms(1) show ?thesis by (auto simp: NewSession_def)
  next
    case nonempty: False
    with False obtain rnd where "pick (length (rg_servers reg)) = Inl rnd"
      by (cases "pick (length (rg_servers reg))") simp_all
    with nonempty assms(1) show ?thesis by (intro exI [of _ rnd] exI [of _ "ErrEnv rnd"]) (simp add: NewSession_def)
  qed
  then obtain rnd e where e: "NewSession L A (\<lambda>_. Inl rnd) (client S) reg = (Inl e, c', q)" "r = Inl e" "c' = client S"
    by blast
  from fleet_step.no_random [OF assms(3-5) e(1)]
  have "fleet_steps L fl D S (move_run i (Failed (ErrWrap ''addKey: '' e [])) D) S" by blast
  with e(2,3) assms(5) show ?thesis by (intro exI [of _ S]) (simp add: after_call_def)
qed

text \<open>What \<open>register_peer\<close> makes of the results of its calls.\<close>

lemma register_parts:
  assumes "register_peer L B t c0 = (r, c', q)"
    and "FindRegion L (br_servers B) c0 (Region (tun_cfg t)) = (Inr reg, c, q0)"
  shows "preferredServerInRegion (lb_uni L) t reg = None \<Longrightarrow>
      NewSession L (br_rand B) (br_pick B) c reg = (r2, c2, q2) \<Longrightarrow>
      c2 = c' \<and> r = map_sum (\<lambda>e. ErrWrap ''addKey: '' e []) id r2"
    and "preferredServerInRegion (lb_uni L) t reg = Some p \<Longrightarrow>
      NewSessionWithServer L (br_pref B) c reg p = (Inr ws, c1, q1) \<Longrightarrow> c1 = c' \<and> r = Inr ws"
    and "preferredServerInRegion (lb_uni L) t reg = Some p \<Longrightarrow>
      NewSessionWithServer L (br_pref B) c reg p = (Inl e1, c1, q1) \<Longrightarrow>
      NewSession L (br_rand B) (br_pick B) c1 reg = (r2, c2, q2) \<Longrightarrow>
      c2 = c' \<and> r = map_sum (\<lambda>e. ErrWrap ''addKey: '' e []) id r2"
proof -
  note reg = assms(1) [unfolded register_peer_def assms(2), simplified]
  show "c2 = c' \<and> r = map_sum (\<lambda>e. ErrWrap ''addKey: '' e []) id r2"
    if "preferredServerInRegion (lb_uni L) t reg = None" "NewSession L (br_rand B) (br_pick B) c reg = (r2, c2, q2)"
    using reg by (cases r2) (auto simp: that)
  show "c1 = c' \<and> r = Inr ws" if "preferredServerInRegion (lb_uni L) t reg = Some p"
      "NewSessionWithServer L (br_pref B) c reg p = (Inr ws, c1, q1)"
    using reg by (simp add: that)
  show "c2 = c' \<and> r = map_sum (\<lambda>e. ErrWrap ''addKey: '' e []) id r2"
    if "preferredServerInRegion (lb_uni L) t reg = Some p"
      "NewSessionWithServer L (br_pref B) c reg p = (Inl e1, c1, q1)"
      "NewSession L (br_rand B) (br_pick B) c1 reg = (r2, c2, q2)"
    using reg by (cases r2) (auto simp: that)
qed

lemma preferred_call_path:
  assumes "NewSessionWithServer L A (client S) reg s = (r, c', q)" and "at_work D i"
    and "pc (run_of D i) = Found reg" and "preferredServerInRegion (lb_uni L) (tun (run_of D i)) reg = Some s"
    and "calls S i = NotCalled"
  shows "\<exists>T. fleet_steps L fl D S (move_run i (after_call (Found reg) r) D) T \<and> client T = c' \<and> calls T i = NotCalled"
proof -
  have "fleet_steps L fl D S D (set_call i (Begun (reg, s)) S)"
    using fleet_step.ask_preferred [OF assms(2-5)] by blast
  from answer_path [OF assms(1,2) this] assms(3) show ?thesis by simp
qed

text \<open>From the region found on.\<close>

lemma found_path:
  assumes reg: "register_peer L B (tun (run_of D i)) c0 = (r, c', q)"
    and found: "FindRegion L (br_servers B) c0 (Region (tun_cfg (tun (run_of D i)))) = (Inr reg, client S, q0)"
    and at: "at_work D i" "pc (run_of D i) = Found reg" "calls S i = NotCalled" and ok: "pick_ok (br_pick B)"
    and start: "px_pc (d_proxies D ! i) \<noteq> PInit"
  shows "\<exists>T. fleet_steps L fl D S
      (move_run i (case r of Inl e \<Rightarrow> Failed e | Inr ws \<Rightarrow> Registered ws) D) T \<and> client T = c' \<and> calls T i = NotCalled"
proof -
  have len: "i < length (d_proxies D)" using at(1) by (simp add: at_work_def)
  let ?D = "move_run i (PickRandom reg) D"
  have pick: ?thesis
    if p: "fleet_steps L fl D S ?D T" "calls T i = NotCalled"
      and n: "NewSession L (br_rand B) (br_pick B) (client T) reg = (r2, c', q2)"
      and r: "r = map_sum (\<lambda>e. ErrWrap ''addKey: '' e []) id r2" for T r2 q2
  proof -
    have "at_work ?D i" "pc (run_of ?D i) = PickRandom reg" using at(1) len by simp_all
    from random_call_path [OF n ok this p(2), of fl] obtain T' where
      T': "fleet_steps L fl ?D T (move_run i (after_call (PickRandom reg) r2) ?D) T'" "client T' = c'" "calls T' i = NotCalled"
      by blast
    moreover have "move_run i (after_call (PickRandom reg) r2) ?D =
        move_run i (case r of Inl e \<Rightarrow> Failed e | Inr ws \<Rightarrow> Registered ws) D"
      using len r by (cases r2) (simp_all add: after_call_def)
    ultimately show ?thesis using rtranclp_trans [OF p(1) T'(1)] by auto
  qed
  show ?thesis
  proof (cases "preferredServerInRegion (lb_uni L) (tun (run_of D i)) reg")
    case None
    obtain r2 c2 q2 where n: "NewSession L (br_rand B) (br_pick B) (client S) reg = (r2, c2, q2)"
      by (cases "NewSession L (br_rand B) (br_pick B) (client S) reg")
    have "run_step L fl (run_of D i) ((run_of D i)\<lparr>pc := PickRandom reg\<rparr>)"
      by (rule run_step.no_preferred [OF at(2) None])
    from own_run_step [OF at(1) start this] have "fleet_steps L fl D S ?D S"
      using at(2) None by (auto simp: move_run_def off_client_def)
    moreover note register_parts(1) [OF reg found None n]
    ultimately show ?thesis using pick [OF _ at(3), of r2 q2] n by simp
  next
    case (Some p)
    obtain r1 c1 q1 where n1: "NewSessionWithServer L (br_pref B) (client S) reg p = (r1, c1, q1)"
      by (cases "NewSessionWithServer L (br_pref B) (client S) reg p")
    from preferred_call_path [OF n1 at(1,2) Some at(3), of fl] obtain T where
      T: "fleet_steps L fl D S (move_run i (after_call (Found reg) r1) D) T" "client T = c1" "calls T i = NotCalled"
      by blast
    show ?thesis
    proof (cases r1)
      case (Inr ws)
      with register_parts(2) [OF reg found Some, of ws c1 q1] n1 have "r = Inr ws" "c1 = c'" by simp_all
      with T Inr show ?thesis by (intro exI [of _ T]) (simp add: after_call_def)
    next
      case (Inl e1)
      obtain r2 c2 q2 where n: "NewSession L (br_rand B) (br_pick B) c1 reg = (r2, c2, q2)"
        by (cases "NewSession L (br_rand B) (br_pick B) c1 reg")
      note register_parts(3) [OF reg found Some n1 [unfolded Inl] n]
      with pick [of T r2 q2] T n Inl show ?thesis by (simp add: after_call_def)
    qed
  qed
qed

lemma fleet_registration:
  assumes "register_peer L B (tun (run_of D i)) (client S) = (r, c', q)" and "at_work D i"
    and "pc (run_of D i) = Bringing" and "calls S i = NotCalled" and "pick_ok (br_pick B)"
    and "px_pc (d_proxies D ! i) \<noteq> PInit"
  shows "\<exists>T. fleet_steps L fl D S
      (move_run i (case r of Inl e \<Rightarrow> Failed e | Inr ws \<Rightarrow> Registered ws) D) T \<and> client T = c' \<and> calls T i = NotCalled"
proof -
  have len: "i < length (d_proxies D)" using assms(2) by (simp add: at_work_def)
  obtain rr c1 q1 where f: "FindRegion L (br_servers B) (client S) (Region (tun_cfg (tun (run_of D i)))) = (rr, c1, q1)"
    by (cases "FindRegion L (br_servers B) (client S) (Region (tun_cfg (tun (run_of D i))))")
  note look = fleet_step.look_up [OF assms(2,3) f, of fl]
  show ?thesis
  proof (cases rr)
    case (Inl e)
    then have "r = Inl (ErrWrap ''region lookup: '' e [])" "c1 = c'"
      using assms(1) f by (simp_all add: register_peer_def)
    with look Inl assms(4) show ?thesis by (intro exI [of _ "S\<lparr>client := c1\<rparr>"]) auto
  next
    case (Inr reg)
    let ?D = "move_run i (Found reg) D"
    have "at_work ?D i" "pc (run_of ?D i) = Found reg" "px_pc (d_proxies ?D ! i) \<noteq> PInit"
      using assms(2,6) len by (simp_all add: move_run_def)
    moreover have "register_peer L B (tun (run_of ?D i)) (client S) = (r, c', q)"
      "FindRegion L (br_servers B) (client S) (Region (tun_cfg (tun (run_of ?D i)))) = (Inr reg, client (S\<lparr>client := c1\<rparr>), q1)"
      using assms(1) f len Inr by simp_all
    ultimately obtain T where T: "fleet_steps L fl ?D (S\<lparr>client := c1\<rparr>)
        (move_run i (case r of Inl e \<Rightarrow> Failed e | Inr ws \<Rightarrow> Registered ws) ?D) T" "client T = c'" "calls T i = NotCalled"
      using found_path [of L B ?D i "client S" r c' q reg "S\<lparr>client := c1\<rparr>" q1 fl] assms(4,5) by auto
    from look Inr have "fleet_step L fl \<lparr>f_daemon = D, f_shared = S\<rparr> \<lparr>f_daemon = ?D, f_shared = S\<lparr>client := c1\<rparr>\<rparr>"
      by simp
    from converse_rtranclp_into_rtranclp [OF this T(1)] T(2,3) len show ?thesis by auto
  qed
qed

lemma fleet_bring_up:
  assumes "bring_up L B (client S) (tun (run_of D i)) = (None, t', c', evs)" and "at_work D i"
    and "pc (run_of D i) = Bringing" and "calls S i = NotCalled" and "pick_ok (br_pick B)"
    and "px_pc (d_proxies D ! i) \<noteq> PInit" and "br_dev B \<notin> open_devs (run_of D i)"
  shows "\<exists>R T. fleet_steps L fl D S (set_run i R D) T \<and> tun R = t' \<and> client T = c'"
proof -
  have len: "i < length (d_proxies D)" using assms(2) by (simp add: at_work_def)
  obtain r c1 q where reg: "register_peer L B (tun (run_of D i)) (client S) = (r, c1, q)"
    by (cases "register_peer L B (tun (run_of D i)) (client S)")
  then obtain ws where ws: "r = Inr ws" "c1 = c'"
    "start_device B ws ((tun (run_of D i))\<lparr>addKeyAt := br_addKeyAt B\<rparr>) = (None, t', evs)"
    using assms(1) by (cases r) (auto simp: bring_up_def split: prod.splits)
  let ?D1 = "move_run i (Registered ws) D"
  obtain T where T: "fleet_steps L fl D S ?D1 T" "client T = c'"
    using fleet_registration [OF reg assms(2-6), of fl] ws(1,2) by auto
  let ?R2 = "(run_of ?D1 i)\<lparr>pc := Starting ws, tun := (tun (run_of ?D1 i))\<lparr>addKeyAt := br_addKeyAt B\<rparr>\<rparr>"
  have w: "at_work ?D1 i" "px_pc (d_proxies ?D1 ! i) \<noteq> PInit" "pc (run_of ?D1 i) = Registered ws"
    using assms(2,6) len by (simp_all add: move_run_def)
  have s2: "fleet_step L fl \<lparr>f_daemon = ?D1, f_shared = T\<rparr> \<lparr>f_daemon = set_run i ?R2 ?D1, f_shared = T\<rparr>"
    by (rule own_run_step [OF w(1,2) run_step.stamp [OF w(3)]]) (simp_all add: w(3) off_client_def)
  let ?D2 = "set_run i ?R2 ?D1"
  let ?R3 = "?R2\<lparr>pc := Serving (br_dev B) loops_start, tun := t', open_devs := devices_after evs (open_devs ?R2)\<rparr>"
  have r2: "run_of ?D2 i = ?R2" using len by simp
  have dev: "start_device B ws (tun ?R2) = (None, t', evs)" using ws(3) len by simp
  have "run_step L fl ?R2 ?R3" by (rule run_step.device_works [OF _ _ dev]) (use assms(7) len in simp_all)
  then have "fleet_step L fl \<lparr>f_daemon = ?D2, f_shared = T\<rparr> \<lparr>f_daemon = set_run i ?R3 ?D2, f_shared = T\<rparr>"
    using w(1,2) len by (intro own_run_step) (simp_all add: off_client_def)
  moreover have "set_run i ?R3 ?D2 = set_run i ?R3 D" using len by (simp add: move_run_def)
  moreover have "fleet_steps L fl D S ?D2 T" using T(1) s2 by (rule rtranclp.rtrancl_into_rtrancl)
  ultimately have "fleet_steps L fl D S (set_run i ?R3 D) T" by (metis rtranclp.rtrancl_into_rtrancl)
  then show ?thesis using T(2) by (intro exI [of _ ?R3] exI [of _ T]) simp
qed

text \<open>A daemon of one proxy that has come up.\<close>

lemma demo_fleet:
  "\<exists>F. fleet_reach demo_libs fl [NewProxy demo_cfg] (demo_client ''T'') F \<and>
     session (tun (run_of (f_daemon F) 0)) = Some demo_ws \<and> d_pc (f_daemon F) = MainWaiting"
proof -
  let ?c = "demo_client ''T''"
  let ?D = "daemon_start [NewProxy demo_cfg]" and ?S = "shared_start ?c"
  let ?W = "d_proxies ?D ! 0"
  let ?D1 = "?D\<lparr>d_proxies := (d_proxies ?D)[0 := ?W\<lparr>px := (px ?W)\<lparr>p_set := True\<rparr>, px_pc := PWaitStart\<rparr>]\<rparr>"
  have d0: "daemon_step demo_libs fl ?D ?D1"
  proof (rule daemon_step.proxy_moves)
    show "proxy_step demo_libs fl ?W (?W\<lparr>px := (px ?W)\<lparr>p_set := True\<rparr>, px_pc := PWaitStart\<rparr>)"
      by (rule proxy_step.begin_run) (simp add: daemon_start_def proxy_start_def)
  qed (simp_all add: daemon_start_def)
  have r1: "fleet_reach demo_libs fl [NewProxy demo_cfg] ?c \<lparr>f_daemon = ?D1, f_shared = ?S\<rparr>"
    using fleet_reach.step [OF fleet_reach.start [unfolded fleet_start_def] fleet_step.elsewhere [OF d0]]
    by (simp add: run_of_def daemon_start_def off_client_def)
  let ?R1 = "run_of ?D1 0"
  have R1: "?R1 = run_start demo_cfg" by (simp add: run_of_def daemon_start_def proxy_start_def NewProxy_def)
  have w1: "at_work ?D1 0" "px_pc (d_proxies ?D1 ! 0) \<noteq> PInit" by (simp_all add: at_work_def daemon_start_def)
  let ?R2 = "?R1\<lparr>pc := Bringing, tun := runOnce_begin (tun ?R1)\<rparr>"
  have "run_step demo_libs fl ?R1 ?R2" by (rule run_step.head_begin) (simp_all add: R1 run_start_def)
  then have "fleet_step demo_libs fl \<lparr>f_daemon = ?D1, f_shared = ?S\<rparr> \<lparr>f_daemon = set_run 0 ?R2 ?D1, f_shared = ?S\<rparr>"
    by (intro own_run_step [OF w1]) (simp_all add: off_client_def R1 run_start_def)
  from fleet_reach.step [OF r1 this]
  have r2: "fleet_reach demo_libs fl [NewProxy demo_cfg] ?c \<lparr>f_daemon = set_run 0 ?R2 ?D1, f_shared = ?S\<rparr>" .
  have len: "0 < length (d_proxies ?D1)" by (simp add: daemon_start_def)
  then have R2: "run_of (set_run 0 ?R2 ?D1) 0 = ?R2" by simp
  have "(tun ?R2)\<lparr>tun_cfg := demo_cfg\<rparr> = tun ?R2"
    by (rule tun_cfg_same) (simp add: R1 run_start_def runOnce_begin_def setState_def NewTunnel_def)
  then obtain t c' evs where b: "bring_up demo_libs (demo_bringup None) ?c (tun ?R2) =
      (None, publish (demo_bringup None) demo_ws t, c', evs)"
    using demo_bring_up [of "tun ?R2"] by metis
  have "\<exists>R T. fleet_steps demo_libs fl (set_run 0 ?R2 ?D1) ?S (set_run 0 R (set_run 0 ?R2 ?D1)) T \<and>
      tun R = publish (demo_bringup None) demo_ws t \<and> client T = c'"
  proof (rule fleet_bring_up)
    show "bring_up demo_libs (demo_bringup None) (client ?S) (tun (run_of (set_run 0 ?R2 ?D1) 0)) =
        (None, publish (demo_bringup None) demo_ws t, c', evs)" unfolding R2 using b by (simp add: shared_start_def)
    show "at_work (set_run 0 ?R2 ?D1) 0" using w1(1) by simp
    show "px_pc (d_proxies (set_run 0 ?R2 ?D1) ! 0) \<noteq> PInit" using w1(2) len by simp
  qed (simp_all add: R2 shared_start_def demo_bringup_def pick_ok_def, simp add: R1 run_start_def)
  then obtain R T where RT: "fleet_steps demo_libs fl (set_run 0 ?R2 ?D1) ?S (set_run 0 R ?D1) T"
    "tun R = publish (demo_bringup None) demo_ws t" using len by auto
  from fleet_m.steps_reach [OF this(1) r2]
  have "fleet_reach demo_libs fl [NewProxy demo_cfg] ?c \<lparr>f_daemon = set_run 0 R ?D1, f_shared = T\<rparr>" .
  moreover have "session (tun (run_of (set_run 0 R ?D1) 0)) = Some demo_ws" using len RT(2) by (simp add: publish_def)
  moreover have "d_pc (set_run 0 R ?D1) = MainWaiting" by (simp add: daemon_start_def)
  ultimately show ?thesis by (intro exI [of _ "\<lparr>f_daemon = set_run 0 R ?D1, f_shared = T\<rparr>"]) simp
qed

section \<open>Shutting down\<close>

text \<open>How far a tunnel is from the end of its registration.\<close>

fun reg_size :: "run_pc \<Rightarrow> nat" where
  "reg_size Bringing = 3"
| "reg_size (Found reg) = 2"
| "reg_size (PickRandom reg) = 1"
| "reg_size p = 0"

lemma reg_size_zero: "reg_size p = 0 \<Longrightarrow> p \<noteq> Bringing \<and> p \<noteq> Found reg \<and> p \<noteq> PickRandom reg"
  by auto

lemma after_call_smaller: "reg_size (after_call p r) < 2 \<and> (0 < reg_size p \<longrightarrow> reg_size (after_call p r) < reg_size p)"
  by (cases p; cases r) (simp_all add: after_call_def)

text \<open>The call a tunnel has under way returns, and the tunnel goes on.\<close>

lemma finish_call:
  assumes "at_work D i" and "calls S i \<noteq> NotCalled"
  shows "\<exists>r T. fleet_steps L fl D S (move_run i (after_call (pc (run_of D i)) r) D) T"
proof -
  obtain T j r where T: "(call_step L i)\<^sup>*\<^sup>* S T" "calls T i = Returned_call j r"
    using call_returns [OF assms(2)] by blast
  from call_path [OF T(1) assms(1)] fleet_step.answer [OF assms(1) T(2)] show ?thesis
    by (blast intro: rtranclp.rtrancl_into_rtrancl)
qed

lemma registration_step:
  assumes "fleet_reach L fl ps c \<lparr>f_daemon = D, f_shared = S\<rparr>" and "at_work D i" and "0 < reg_size (pc (run_of D i))"
  shows "\<exists>p T. fleet_steps L fl D S (move_run i p D) T \<and> reg_size p < reg_size (pc (run_of D i))"
proof (cases "calls S i = NotCalled")
  case False
  from finish_call [OF assms(2) this] show ?thesis using after_call_smaller assms(3) by blast
next
  case idle: True
  have len: "i < length (d_proxies D)" using assms(2) by (simp add: at_work_def)
  have reach: "proxy_reach L fl (ps ! i) (d_proxies D ! i)"
    using fleet_reach_parts(3) [OF assms(1)] len by (auto simp: daemon_inv_def list_all2_conv_all_nth)
  consider "pc (run_of D i) = Bringing" | reg where "pc (run_of D i) = Found reg" | reg where "pc (run_of D i) = PickRandom reg"
    using assms(3) by (cases "pc (run_of D i)") auto
  then show ?thesis
  proof cases
    case 1
    obtain r c' q where f: "FindRegion L undefined (client S) (Region (tun_cfg (tun (run_of D i)))) = (r, c', q)"
      by (cases "FindRegion L undefined (client S) (Region (tun_cfg (tun (run_of D i))))")
    let ?p = "case r of Inl e \<Rightarrow> Failed (ErrWrap ''region lookup: '' e []) | Inr reg \<Rightarrow> Found reg"
    from fleet_step.look_up [OF assms(2) 1 f, of fl]
    have "fleet_steps L fl D S (move_run i ?p D) (S\<lparr>client := c'\<rparr>)" by blast
    moreover have "reg_size ?p < 3" by (cases r) simp_all
    ultimately show ?thesis using 1 by (intro exI [of _ ?p] exI [of _ "S\<lparr>client := c'\<rparr>"]) simp
  next
    case (2 reg)
    show ?thesis
    proof (cases "preferredServerInRegion (lb_uni L) (tun (run_of D i)) reg")
      case None
      have "px_pc (d_proxies D ! i) \<noteq> PInit" using init_not_started [OF reach] 2 by (auto simp: run_of_def)
      moreover have "run_step L fl (run_of D i) ((run_of D i)\<lparr>pc := PickRandom reg\<rparr>)"
        by (rule run_step.no_preferred [OF 2 None])
      ultimately have "fleet_steps L fl D S (move_run i (PickRandom reg) D) S"
        using own_run_step [OF assms(2)] 2 None by (simp add: move_run_def off_client_def r_into_rtranclp)
      with 2 show ?thesis by fastforce
    next
      case (Some s)
      let ?S = "set_call i (Begun (reg, s)) S"
      have "fleet_steps L fl D S D ?S" using fleet_step.ask_preferred [OF assms(2) 2 Some idle] by blast
      moreover obtain r T where "fleet_steps L fl D ?S (move_run i (after_call (pc (run_of D i)) r) D) T"
      proof -
        have "calls ?S i \<noteq> NotCalled" by simp
        from finish_call [OF assms(2) this] that show ?thesis by blast
      qed
      ultimately show ?thesis using after_call_smaller assms(3) by (meson rtranclp_trans)
    qed
  next
    case (3 reg)
    obtain e c' q where "NewSession L undefined (\<lambda>_. Inl undefined) (client S) reg = (Inl e, c', q)"
      by (cases "rg_servers reg = []") (simp_all add: NewSession_def)
    from fleet_step.no_random [OF assms(2) 3 idle this, of fl]
    have "fleet_steps L fl D S (move_run i (Failed (ErrWrap ''addKey: '' e [])) D) S" by blast
    with 3 show ?thesis by (intro exI [of _ "Failed (ErrWrap ''addKey: '' e [])"] exI [of _ S]) simp
  qed
qed

lemma move_same: "i < length (d_proxies D) \<Longrightarrow> move_run i (pc (run_of D i)) D = D"
  by (simp add: move_run_def set_run_def run_of_def list_update_id)

text \<open>All that tunnel \<open>i\<close> does meanwhile is to go on.\<close>

definition registers :: "libs \<Rightarrow> (rat \<Rightarrow> rat) \<Rightarrow> proxy list \<Rightarrow> piaClient \<Rightarrow> daemon \<Rightarrow> nat \<Rightarrow> fleet \<Rightarrow> bool" where
  "registers L fl ps c D i F \<longleftrightarrow>
     fleet_reach L fl ps c F \<and> at_work (f_daemon F) i \<and> i < length (d_proxies D) \<and> (\<exists>p. f_daemon F = move_run i p D)"

interpretation reg_p: progress "fleet_step L fl" "registers L fl ps c D i" "\<lambda>F. reg_size (pc (run_of (f_daemon F) i))"
  for L fl ps c D i
proof unfold_locales
  fix F :: fleet
  assume F: "registers L fl ps c D i F" and busy: "0 < reg_size (pc (run_of (f_daemon F) i))"
  obtain E S where E: "F = \<lparr>f_daemon = E, f_shared = S\<rparr>" by (cases F) simp
  have r: "fleet_reach L fl ps c \<lparr>f_daemon = E, f_shared = S\<rparr>" "at_work E i" using F E by (simp_all add: registers_def)
  obtain p T where T: "fleet_steps L fl E S (move_run i p E) T" "reg_size p < reg_size (pc (run_of E i))"
    using registration_step [OF r] busy E by auto
  have "fleet_reach L fl ps c \<lparr>f_daemon = move_run i p E, f_shared = T\<rparr>" by (rule fleet_m.steps_reach [OF T(1) r(1)])
  then have "registers L fl ps c D i \<lparr>f_daemon = move_run i p E, f_shared = T\<rparr>"
    using F E r(2) by (auto simp: registers_def)
  moreover have "i < length (d_proxies E)" using r(2) by (simp add: at_work_def)
  ultimately show "\<exists>G. (fleet_step L fl)\<^sup>*\<^sup>* F G \<and> registers L fl ps c D i G \<and>
      reg_size (pc (run_of (f_daemon G) i)) < reg_size (pc (run_of (f_daemon F) i))"
    using T E by (intro exI [of _ "\<lparr>f_daemon = move_run i p E, f_shared = T\<rparr>"]) simp
qed

lemma registration_ends:
  assumes "fleet_reach L fl ps c \<lparr>f_daemon = D, f_shared = S\<rparr>" and "at_work D i"
  shows "\<exists>p T. fleet_steps L fl D S (move_run i p D) T \<and> reg_size p = 0"
proof -
  have len: "i < length (d_proxies D)" using assms(2) by (simp add: at_work_def)
  have "D = move_run i (pc (run_of D i)) D" using move_same [OF len] by simp
  then have "registers L fl ps c D i \<lparr>f_daemon = D, f_shared = S\<rparr>"
    unfolding registers_def using assms len by auto
  from reg_p.ends [OF this] obtain G where G: "(fleet_step L fl)\<^sup>*\<^sup>* \<lparr>f_daemon = D, f_shared = S\<rparr> G"
    "registers L fl ps c D i G" "reg_size (pc (run_of (f_daemon G) i)) = 0" by blast
  then obtain p where p: "f_daemon G = move_run i p D" by (auto simp: registers_def)
  obtain T where "G = \<lparr>f_daemon = move_run i p D, f_shared = T\<rparr>" using p by (cases G) simp
  with G(1,3) len show ?thesis by auto
qed

text \<open>A cancelled tunnel that is not registering never registers again, so it needs the client no more.\<close>

lemma own_step_off:
  assumes "own_step L fl W W'" and "canceled (px_run W)" and "reg_size (pc (px_run W)) = 0"
  shows "off_client U (px_run W) (px_run W') \<and> reg_size (pc (px_run W')) = 0"
proof -
  have "px_run W' = px_run W \<or> run_step L fl (px_run W) (px_run W')"
    using assms(1) proxy_step_run by (simp add: own_step_def)
  then show ?thesis
  proof
    assume "run_step L fl (px_run W) (px_run W')"
    then show ?thesis using assms(2,3) by cases (simp_all add: off_client_def)
  qed (use assms(3) in \<open>simp add: off_client_def\<close>)
qed

lemma fleet_own_path:
  assumes "(own_step L fl)\<^sup>*\<^sup>* (d_proxies D ! i) W" and "at_work D i"
    and "canceled (px_run (d_proxies D ! i))" and "reg_size (pc (px_run (d_proxies D ! i))) = 0"
  shows "fleet_steps L fl D S (D\<lparr>d_proxies := (d_proxies D)[i := W]\<rparr>) S \<and> canceled (px_run W) \<and> reg_size (pc (px_run W)) = 0"
  using assms(1)
proof (induction rule: rtranclp_induct)
  case base
  then show ?case using assms(3,4) by simp
next
  case (step W W')
  let ?D = "D\<lparr>d_proxies := (d_proxies D)[i := W]\<rparr>"
  let ?D' = "?D\<lparr>d_proxies := (d_proxies ?D)[i := W']\<rparr>"
  have i: "i < length (d_proxies ?D)" "d_pc ?D \<in> {MainWaiting, MainShutdown}" using assms(2) by (simp_all add: at_work_def)
  have W: "canceled (px_run W)" "reg_size (pc (px_run W)) = 0" using step(3) by simp_all
  note off = own_step_off [OF step(2) W, of "lb_uni L"]
  have "daemon_step L fl ?D ?D'"
    using daemon_step.proxy_moves [OF i(2,1), of L fl W'] step(2) i(1) by (simp add: own_step_def)
  moreover have "\<forall>k < length (d_proxies ?D). off_client (lb_uni L) (run_of ?D k) (run_of ?D' k)"
  proof (intro allI impI)
    fix k
    assume "k < length (d_proxies ?D)"
    then show "off_client (lb_uni L) (run_of ?D k) (run_of ?D' k)"
      using off by (cases "k = i") (simp_all add: run_of_def, simp add: off_client_def)
  qed
  ultimately have "fleet_step L fl \<lparr>f_daemon = ?D, f_shared = S\<rparr> \<lparr>f_daemon = ?D', f_shared = S\<rparr>"
    by (rule fleet_step.elsewhere)
  moreover have "canceled (px_run W')" using step(2) W(1) by (simp add: own_step_def)
  ultimately show ?case using step(3) off by (auto intro: rtranclp.rtrancl_into_rtrancl)
qed

lemma first_ended:
  assumes "fleet_reach L fl ps c \<lparr>f_daemon = D, f_shared = S\<rparr>" and "d_signal D"
    and "d_pc D \<in> {MainWaiting, MainShutdown}" and "n \<le> length (d_proxies D)"
  shows "\<exists>E T. fleet_steps L fl D S E T \<and> d_pc E = d_pc D \<and> d_signal E \<and>
    length (d_proxies E) = length (d_proxies D) \<and> (\<forall>i < n. px_pc (d_proxies E ! i) = PDone)"
  using assms(4)
proof (induction n)
  case 0
  then show ?case using assms(2) by blast
next
  case (Suc n)
  then obtain E T where E: "fleet_steps L fl D S E T" "d_pc E = d_pc D" "d_signal E"
    "length (d_proxies E) = length (d_proxies D)" "\<forall>i < n. px_pc (d_proxies E ! i) = PDone" by auto
  have n: "n < length (d_proxies E)" "at_work E n" using Suc.prems E(2,4) assms(3) by (simp_all add: at_work_def)
  have rE: "fleet_reach L fl ps c \<lparr>f_daemon = E, f_shared = T\<rparr>" by (rule fleet_m.steps_reach [OF E(1) assms(1)])
  from registration_ends [OF this n(2)] obtain p T' where
    p: "fleet_steps L fl E T (move_run n p E) T'" "reg_size p = 0" by blast
  let ?E = "move_run n p E"
  from fleet_reach_parts(3) [OF fleet_m.steps_reach [OF p(1) rE]] have "daemon_inv L fl ps ?E" by simp
  moreover have "d_signal ?E" using E(3) by (simp add: move_run_def set_run_def)
  ultimately have W: "proxy_reach L fl (ps ! n) (d_proxies ?E ! n)" "canceled (px_run (d_proxies ?E ! n))"
    using n(1) by (auto simp: daemon_inv_def list_all2_conv_all_nth)
  from proxy_returns [OF this] obtain W where
    done_W: "(own_step L fl)\<^sup>*\<^sup>* (d_proxies ?E ! n) W" "px_pc W = PDone" by blast
  have z: "reg_size (pc (px_run (d_proxies ?E ! n))) = 0" using p(2) n(1) by (simp add: move_run_def set_run_def)
  have w: "at_work ?E n" using n(2) by simp
  let ?F = "?E\<lparr>d_proxies := (d_proxies ?E)[n := W]\<rparr>"
  have "fleet_steps L fl ?E T' ?F T'" using fleet_own_path [OF done_W(1) w W(2) z] by blast
  then have "fleet_steps L fl D S ?F T'" by (rule rtranclp_trans [OF E(1) rtranclp_trans [OF p(1)]])
  moreover have "px_pc (d_proxies ?F ! i) = PDone" if "i < Suc n" for i
    using that E(5) done_W(2) n(1) by (cases "i = n") (simp_all add: move_run_def)
  moreover have "d_pc ?F = d_pc D" "d_signal ?F" "length (d_proxies ?F) = length (d_proxies D)"
    using E(2-4) \<open>d_signal ?E\<close> by simp_all
  ultimately show ?case by blast
qed

lemma off_client_same [simp]: "off_client U R R"
  by (simp add: off_client_def)

lemma fleet_ends:
  assumes "fleet_reach L fl ps c F" and "d_signal (f_daemon F)" and "d_pc (f_daemon F) \<noteq> MainExited"
  shows "\<exists>G. (fleet_step L fl)\<^sup>*\<^sup>* F G \<and> d_pc (f_daemon G) = MainDone"
proof (cases "d_pc (f_daemon F) = MainDone")
  case True
  then show ?thesis by blast
next
  case False
  obtain D S where F: "F = \<lparr>f_daemon = D, f_shared = S\<rparr>" by (cases F) simp
  with False assms(3) have running: "d_pc D \<in> {MainWaiting, MainShutdown}" by (cases "d_pc D") simp_all
  obtain E T where E: "fleet_steps L fl D S E T" "d_signal E" "d_pc E = d_pc D"
    "\<forall>i < length (d_proxies E). px_pc (d_proxies E ! i) = PDone"
    using first_ended [OF assms(1) [unfolded F] _ running order_refl] assms(2) F by auto
  have all: "\<forall>W \<in> set (d_proxies E). px_pc W = PDone" using E(4) by (auto simp: in_set_conv_nth)
  let ?S = "E\<lparr>d_pc := MainShutdown\<rparr>"
  have "fleet_steps L fl E T ?S T"
  proof (cases "d_pc E = MainWaiting")
    case True
    from fleet_step.elsewhere [OF daemon_step.shutdown [OF this E(2)]] show ?thesis
      by (simp add: run_of_def r_into_rtranclp)
  next
    case False
    then have "E = ?S" using running E(3) by simp
    then show ?thesis by (metis rtranclp.rtrancl_refl)
  qed
  moreover have "fleet_step L fl \<lparr>f_daemon = ?S, f_shared = T\<rparr> \<lparr>f_daemon = ?S\<lparr>d_pc := MainDone\<rparr>, f_shared = T\<rparr>"
    by (rule fleet_step.elsewhere, rule daemon_step.wait) (simp_all add: all run_of_def)
  ultimately have "fleet_steps L fl D S (?S\<lparr>d_pc := MainDone\<rparr>) T"
    using E(1) by (meson rtranclp.rtrancl_into_rtrancl rtranclp_trans)
  then show ?thesis unfolding F by (intro exI [of _ "\<lparr>f_daemon = ?S\<lparr>d_pc := MainDone\<rparr>, f_shared = T\<rparr>"]) simp
qed

section \<open>Where the sessions come from\<close>

definition server_verified :: "libs \<Rightarrow> string \<Rightarrow> wgSession \<Rightarrow> bool" where
  "server_verified L ca ws \<longleftrightarrow> (\<exists>now chain. verifyConnection L ca (se_cn (ws_server ws)) now chain = None)"

definition run_verified :: "libs \<Rightarrow> string \<Rightarrow> run_state \<Rightarrow> bool" where
  "run_verified L ca R \<longleftrightarrow>
     (\<forall>ws. pc R = Registered ws \<or> pc R = Starting ws \<or> session (tun R) = Some ws \<longrightarrow> server_verified L ca ws)"

lemma off_keeps_verified:
  "run_step L fl R R' \<Longrightarrow> off_client (lb_uni L) R R' \<Longrightarrow> run_verified L ca R \<Longrightarrow> run_verified L ca R'"
proof (induction rule: run_step.induct)
  case (device_fails R ws B e t' evs)
  have "t' = tun R" by (rule start_device_error_fields(1) [OF device_fails(3,2)])
  with device_fails show ?case by (simp add: run_verified_def)
next
  case (device_works R ws B t' evs)
  then show ?case using start_device_ok [OF device_works(3)] by (auto simp: run_verified_def publish_def)
next
  case (loop R n l t' l')
  then show ?case using loop_keeps [OF loop(2)] by (simp add: run_verified_def)
qed (auto simp: run_verified_def off_client_def runOnce_begin_def setState_def setError_def)

lemma after_call_verified:
  assumes "run_verified L ca R" and "call_result L ca j r"
  shows "run_verified L ca (R\<lparr>pc := after_call (pc R) r\<rparr>)"
proof (cases r)
  case (Inl e)
  with assms(1) show ?thesis by (simp add: run_verified_def after_call_def split: run_pc.splits)
next
  case (Inr ws)
  obtain A c1 c' q where "pc_cert c1 = ca" "NewSessionWithServer L A c1 (fst j) (snd j) = (Inr ws, c', q)"
    using assms(2) Inr by (auto simp: call_result_def)
  with session_verified have "server_verified L ca ws" unfolding server_verified_def by metis
  with assms(1) Inr show ?thesis by (simp add: run_verified_def after_call_def)
qed

lemma fleet_verified_step:
  "fleet_step L fl F G \<Longrightarrow> shared_reach L c (f_shared F) \<Longrightarrow>
     \<forall>i < length (d_proxies (f_daemon F)). run_verified L (pc_cert c) (run_of (f_daemon F) i) \<Longrightarrow>
     \<forall>i < length (d_proxies (f_daemon G)). run_verified L (pc_cert c) (run_of (f_daemon G) i)"
proof (induction rule: fleet_step.induct)
  case (elsewhere D D' S)
  show ?case
  proof (intro allI impI)
    fix i
    assume "i < length (d_proxies (f_daemon \<lparr>f_daemon = D', f_shared = S\<rparr>))"
    then have i: "i < length (d_proxies D)" using daemon_length [OF elsewhere(1)] by simp
    have "run_verified L (pc_cert c) (run_of D' i)"
      using daemon_step_run [OF elsewhere(1) i] off_keeps_verified elsewhere(2,4) i by fastforce
    then show "run_verified L (pc_cert c) (run_of (f_daemon \<lparr>f_daemon = D', f_shared = S\<rparr>) i)" by simp
  qed
next
  case (look_up D k ans S r c' q)
  then show ?case by (auto simp: at_work_def run_verified_def split: sum.splits)
next
  case (no_random D k reg S A rnd e c' q)
  then show ?case by (auto simp: at_work_def run_verified_def)
next
  case (answer D k S j r)
  have "call_result L (pc_cert c) j r"
    using answer(2,3) shared_reach_results [of L c S k] by (simp add: call_inv_def)
  with answer(1,4) show ?case by (simp add: at_work_def after_call_verified)
qed simp_all

lemma fleet_reach_verified:
  assumes "fleet_reach L fl ps c F"
  shows "\<forall>i < length (d_proxies (f_daemon F)). run_verified L (pc_cert c) (run_of (f_daemon F) i)"
  using assms
proof (induction rule: fleet_reach.induct)
  case start
  show ?case by (simp add: fleet_start_def daemon_start_def run_of_def proxy_start_def run_start_def run_verified_def NewTunnel_def)
next
  case (step F G)
  from fleet_verified_step [OF step(2) fleet_reach_parts(2) [OF step(1)] step(3)] show ?case .
qed

section \<open>Properties\<close>

text \<open>C7: The daemon with the client its tunnels share refines both: every run of it is, seen from the
  proxies, a run in which each tunnel meets some client, and seen from the client one in which
  goroutines call it as they like; so all that is shown of either holds of the program. A call is
  under way only for a tunnel that waits for it, and for the region this tunnel has found.\<close>

theorem fleet_refines_parts:
  assumes "fleet_reach L fl ps c F" and "(fleet_step L fl)\<^sup>*\<^sup>* F G"
  shows "(daemon_step L fl)\<^sup>*\<^sup>* (f_daemon F) (f_daemon G) \<and> (shared_step L)\<^sup>*\<^sup>* (f_shared F) (f_shared G) \<and>
    daemon_reach L fl ps (f_daemon G) \<and> shared_reach L c (f_shared G) \<and>
    (\<forall>i. calls (f_shared G) i \<noteq> NotCalled \<longrightarrow> i < length ps \<and>
       (\<exists>reg s. job_of (calls (f_shared G) i) = Some (reg, s) \<and>
          (pc (run_of (f_daemon G) i) = Found reg \<or> pc (run_of (f_daemon G) i) = PickRandom reg)))"
proof -
  have G: "fleet_reach L fl ps c G" by (rule fleet_m.steps_reach [OF assms(2,1)])
  have "i < length ps \<and> (\<exists>reg s. job_of (calls (f_shared G) i) = Some (reg, s) \<and>
      (pc (run_of (f_daemon G) i) = Found reg \<or> pc (run_of (f_daemon G) i) = PickRandom reg))"
    if busy: "calls (f_shared G) i \<noteq> NotCalled" for i
  proof -
    obtain j where j: "job_of (calls (f_shared G) i) = Some j" using busy by (cases "calls (f_shared G) i") simp_all
    from fleet_inv_job [OF fleet_reach_inv [OF G] j] daemon_reach_length [OF fleet_reach_parts(1) [OF G]]
    show ?thesis using j by (cases j) (auto simp: job_fits_def split: run_pc.splits)
  qed
  then show ?thesis
    using fleet_d.refines [OF assms(2,1)] fleet_c.refines [OF assms(2,1)] fleet_reach_parts(1,2) [OF G] by blast
qed

theorem fleet_refines_parts_witness:
  "\<exists>G :: fleet. daemon_reach demo_libs (\<lambda>x. x) [NewProxy demo_cfg] (f_daemon G) \<and>
     shared_reach demo_libs (demo_client ''T'') (f_shared G) \<and> session (tun (run_of (f_daemon G) 0)) = Some demo_ws"
proof -
  obtain G where G: "fleet_reach demo_libs (\<lambda>x. x) [NewProxy demo_cfg] (demo_client ''T'') G"
    "session (tun (run_of (f_daemon G) 0)) = Some demo_ws" using demo_fleet by blast
  with fleet_refines_parts [OF G(1) rtranclp.rtrancl_refl] show ?thesis by (intro exI [of _ G]) simp
qed

text \<open>C22: What the whole daemon asks of PIA. \<^verbatim>\<open>main\<close> makes one token and one list request and starts
  proxies only for cities of that list. From then on the list is never fetched again, and however
  the tunnels run and fail, at most one token is fetched for each registration PIA answered with 401
  or 403: while there is none the token \<^verbatim>\<open>main\<close> fetched is the only one.\<close>

theorem daemon_requests:
  assumes "main_setup L getenv load A servers = Some (Running ctl ps c, reqs)"
    and "fleet_reach L fl ps c F"
  shows "reqs = [ReqToken (getenv ''PIA_USER'') (getenv ''PIA_PWD''), ReqServers] \<and> ps \<noteq> [] \<and>
    load (envOr getenv ''PIA_CERT_FILE'' ''ca.rsa.4096.crt'') = Some (Inr (pc_cert c)) \<and>
    (\<exists>regs. fetchServerList L servers = Inr regs \<and>
       Regions L ans (client (f_shared F)) = (Inr regs, client (f_shared F), []) \<and>
       (\<forall>p \<in> set ps. \<exists>r \<in> set regs. to_lower (lb_uni L) (rg_id r) = to_lower (lb_uni L) (Region (p_cfg p)))) \<and>
    fetched (f_shared F) \<le> length (rejected (f_shared F)) \<and> dropped (f_shared F) \<le> length (rejected (f_shared F)) \<and>
    (rejected (f_shared F) = [] \<longrightarrow> token (client (f_shared F)) = token c \<and> token c \<noteq> [])"
proof -
  note ready = main_ready [OF assms(1), of A ans]
  note S = fleet_reach_parts(2) [OF assms(2)]
  obtain regs where regs: "fetchServerList L servers = Inr regs" "regions c = Some regs"
    "\<forall>p \<in> set ps. \<exists>r \<in> set regs. to_lower (lb_uni L) (rg_id r) = to_lower (lb_uni L) (Region (p_cfg p))"
    using ready by blast
  then have "Regions L ans (client (f_shared F)) = (Inr regs, client (f_shared F), [])"
    using regions_stay [OF S] by (simp add: Regions_def)
  with regs have "\<exists>regs. fetchServerList L servers = Inr regs \<and>
       Regions L ans (client (f_shared F)) = (Inr regs, client (f_shared F), []) \<and>
       (\<forall>p \<in> set ps. \<exists>r \<in> set regs. to_lower (lb_uni L) (rg_id r) = to_lower (lb_uni L) (Region (p_cfg p)))" by blast
  moreover have "token c \<noteq> []" using ready by blast
  ultimately show ?thesis using ready shared_client_fetches [OF S] token_stays [OF S] by blast
qed

theorem daemon_requests_witness:
  "\<exists>ps c reqs F. main_setup demo_libs demo_env (\<lambda>_. Some (Inr ''CA'')) (demo_attempt 200)
     (Inr (demo_response 200 \<lparr>hr_body := demo_body\<rparr>)) = Some (Running ''127.0.0.1:9090'' ps c, reqs) \<and>
     fleet_reach demo_libs (\<lambda>x. x) ps c F \<and> fetched (f_shared F) \<le> length (rejected (f_shared F)) \<and>
     reqs = [ReqToken ''p1'' ''pw'', ReqServers]"
proof -
  obtain ps c reqs where m: "main_setup demo_libs demo_env (\<lambda>_. Some (Inr ''CA'')) (demo_attempt 200)
     (Inr (demo_response 200 \<lparr>hr_body := demo_body\<rparr>)) = Some (Running ''127.0.0.1:9090'' ps c, reqs)"
    using demo_setup by blast
  from daemon_requests [OF m fleet_reach.start [of demo_libs "\<lambda>x. x" ps c]] m
    fleet_reach.start [of demo_libs "\<lambda>x. x" ps c]
  have "reqs = [ReqToken ''p1'' ''pw'', ReqServers]"
    "fetched (f_shared (fleet_start ps c)) \<le> length (rejected (f_shared (fleet_start ps c)))"
    by (simp_all add: demo_env_def)
  with m fleet_reach.start [of demo_libs "\<lambda>x. x" ps c] show ?thesis by blast
qed

text \<open>C8: A tunnel of the daemon shows a session only for the region its city is configured with and a
  server on that region's list, and only after a TLS connection whose certificate names this server
  and verifies against the CA certificate of the client, whatever the other tunnels did to
  the client meanwhile.\<close>

theorem sessions_of_verified_servers:
  assumes "fleet_reach L fl ps c F" and "i < length ps" and "session (tun (run_of (f_daemon F) i)) = Some ws"
  shows "equal_fold (lb_uni L) (rg_id (ws_region ws)) (Region (p_cfg (ps ! i))) \<and>
    ws_server ws \<in> set (rg_servers (ws_region ws)) \<and>
    (\<exists>now leaf rest. equal_fold (lb_uni L) (ct_cn leaf) (se_cn (ws_server ws)) \<and>
       lb_verify L (pc_cert c) rest now leaf = None)"
proof -
  have i: "i < length (d_proxies (f_daemon F))"
    using assms(2) daemon_reach_length [OF fleet_reach_parts(1) [OF assms(1)]] by simp
  then have "run_reach L fl (p_cfg (ps ! i)) (run_of (f_daemon F) i)"
    using fleet_reach_parts(3) [OF assms(1)] proxy_reach_run
    by (auto simp: daemon_inv_def list_all2_conv_all_nth run_of_def)
  moreover have "server_verified L (pc_cert c) ws"
    using fleet_reach_verified [OF assms(1)] i assms(3) by (auto simp: run_verified_def)
  then obtain now chain where "verifyConnection L (pc_cert c) (se_cn (ws_server ws)) now chain = None"
    by (auto simp: server_verified_def)
  then have "\<exists>now leaf rest. equal_fold (lb_uni L) (ct_cn leaf) (se_cn (ws_server ws)) \<and>
      lb_verify L (pc_cert c) rest now leaf = None"
    by (cases chain) (auto simp: verifyConnection_def split: if_splits)
  ultimately show ?thesis using run_reach_session assms(3) by (auto simp: session_inv_def session_from_def)
qed

theorem sessions_of_verified_servers_witness:
  "\<exists>F. fleet_reach demo_libs (\<lambda>x. x) [NewProxy demo_cfg] (demo_client ''T'') F \<and>
     session (tun (run_of (f_daemon F) 0)) = Some demo_ws \<and>
     (\<exists>leaf :: certificate. equal_fold (lb_uni demo_libs) (ct_cn leaf) (se_cn (ws_server demo_ws)))"
proof -
  obtain F where F: "fleet_reach demo_libs (\<lambda>x. x) [NewProxy demo_cfg] (demo_client ''T'') F"
    "session (tun (run_of (f_daemon F) 0)) = Some demo_ws" using demo_fleet by blast
  have "0 < length [NewProxy demo_cfg]" by simp
  from sessions_of_verified_servers [OF F(1) this F(2)] F show ?thesis by blast
qed

text \<open>C6: Once the signal has come, the daemon can always run to its end, wherever each proxy, tunnel,
  listener and call to PIA is, unless a failure of the control server has ended the process: no call
  under way and no state of the shared client stands in the way. When it has ended, every
  WireGuard device is closed, no socket listens, and no proxy has a netstack left.\<close>

theorem daemon_shuts_down:
  assumes "fleet_reach L fl ps c F"
  shows "(d_signal (f_daemon F) \<longrightarrow> d_pc (f_daemon F) \<noteq> MainExited \<longrightarrow>
      (\<exists>G. (fleet_step L fl)\<^sup>*\<^sup>* F G \<and> d_pc (f_daemon G) = MainDone)) \<and>
    (d_pc (f_daemon F) = MainDone \<longrightarrow> d_signal (f_daemon F) \<and> (\<forall>W \<in> set (d_proxies (f_daemon F)).
       open_devs (px_run W) = {} \<and> socks_open (px_lw W) = {} \<and> accepting (px_lw W) = {} \<and>
       Proxy_Netstack W = None))"
  using fleet_ends [OF assms] daemon_end_clean [OF fleet_reach_parts(1) [OF assms]] by blast

theorem daemon_shuts_down_witness:
  "\<exists>F G. fleet_reach demo_libs (\<lambda>x. x) [NewProxy demo_cfg] (demo_client ''T'') F \<and>
     session (tun (run_of (f_daemon F) 0)) = Some demo_ws \<and>
     (fleet_step demo_libs (\<lambda>x. x))\<^sup>*\<^sup>* F G \<and> d_pc (f_daemon G) = MainDone"
proof -
  obtain F where F: "fleet_reach demo_libs (\<lambda>x. x) [NewProxy demo_cfg] (demo_client ''T'') F"
    "session (tun (run_of (f_daemon F) 0)) = Some demo_ws" "d_pc (f_daemon F) = MainWaiting" using demo_fleet by blast
  obtain D S where DS: "F = \<lparr>f_daemon = D, f_shared = S\<rparr>" by (cases F) simp
  let ?D = "D\<lparr>d_proxies := map cancel_ctx (d_proxies D), d_signal := True\<rparr>"
  have len: "length (d_proxies D) = 1"
    using daemon_reach_length [OF fleet_reach_parts(1) [OF F(1)]] DS by simp
  have "fleet_step demo_libs (\<lambda>x. x) F \<lparr>f_daemon = ?D, f_shared = S\<rparr>"
    unfolding DS by (rule fleet_step.elsewhere, rule daemon_step.signal)
      (use F(3) DS in \<open>simp_all add: run_of_def cancel_ctx_def off_client_def\<close>)
  from fleet_reach.step [OF F(1) this]
  have G: "fleet_reach demo_libs (\<lambda>x. x) [NewProxy demo_cfg] (demo_client ''T'') \<lparr>f_daemon = ?D, f_shared = S\<rparr>" .
  have "session (tun (run_of ?D 0)) = Some demo_ws" using F(2) DS len by (simp add: run_of_def cancel_ctx_def)
  moreover have "d_signal ?D" "d_pc ?D \<noteq> MainExited" using F(3) DS by simp_all
  ultimately show ?thesis using daemon_shuts_down [OF G] G
    by (metis (no_types, lifting) fleet.select_convs(1))
qed

end
