(* ===== verification/SocksUdp.thy ===== *)
theory SocksUdp
  imports SocksServer
begin

text \<open>
  The UDP association of src/socks5.go: \<^verbatim>\<open>transferUDP\<close> with its client-to-target loop,
  \<^verbatim>\<open>getOrDialTargetConn\<close> with the map of target connections and the reader goroutine of each,
  \<^verbatim>\<open>handleUDPRequest\<close>, \<^verbatim>\<open>handleUDPResponse\<close> and \<^verbatim>\<open>isTimeout\<close>. The client loop and the
  readers interleave freely: an execution is a list of events, each one turn of one of these
  loops with the answers of the network.
\<close>

section \<open>State\<close>

text \<open>
  Target connections are numbers. \<open>live_readers\<close> are the target-to-client goroutines that
  have not returned, \<open>loop_running\<close> tells whether the client-to-target goroutine has, and
  \<open>closed\<close> are the target connections it closed on the way out.
\<close>

record assoc =
  udpClientAddr :: "string option"
  udpTargetConns :: "socksAddr \<Rightarrow> nat option"
  live_readers :: "(socksAddr \<times> nat) list"
  loop_running :: bool
  ctx_done :: bool
  closed :: "nat set"

text \<open>\<^verbatim>\<open>transferUDP\<close> starts with an empty map.\<close>

definition assoc_init :: assoc where
  "assoc_init = \<lparr>udpClientAddr = None, udpTargetConns = Map.empty, live_readers = [],
     loop_running = True, ctx_done = False, closed = {}\<rparr>"

datatype udp_action =
    DialUDP socksAddr bool          \<comment> \<open>a dial of this target, and whether it succeeded\<close>
  | ToTarget nat "byte list"
  | ToClient "byte list" "string option"

definition isTimeout :: "gerror \<Rightarrow> bool" where
  "isTimeout e = (case unwrap e of Some e' \<Rightarrow> has_timeout e' | None \<Rightarrow> False)"

section \<open>Operations\<close>

definition getOrDialTargetConn ::
  "(string \<Rightarrow> nat result) \<Rightarrow> assoc \<Rightarrow> socksAddr \<Rightarrow> nat result \<times> assoc \<times> udp_action list" where
  "getOrDialTargetConn dial st a =
     (case udpTargetConns st a of
        Some h \<Rightarrow> (Inr h, st, [])
      | None \<Rightarrow>
          (case dial (hostPort a) of
             Inl e \<Rightarrow> (Inl e, st, [DialUDP a False])
           | Inr h \<Rightarrow>
               (Inr h,
                st\<lparr>udpTargetConns := (udpTargetConns st)(a \<mapsto> h),
                   live_readers := live_readers st @ [(a, h)]\<rparr>,
                [DialUDP a True])))"

text \<open>
  What one turn of the client loop meets: the datagram read (cut to the buffer) and its source,
  or the read error; the dial; the write to the target.
\<close>

record request_in =
  ri_read :: "(byte list \<times> string) result"
  ri_dial :: "string \<Rightarrow> nat result"
  ri_write :: "nat \<Rightarrow> byte list \<Rightarrow> int \<times> gerror option"

definition handleUDPRequest ::
  "request_in \<Rightarrow> assoc \<Rightarrow> gerror option \<times> assoc \<times> udp_action list" where
  "handleUDPRequest I st0 =
     (case ri_read I of
        Inl e \<Rightarrow> (Some (ErrWrap ''read from client: '' e []), st0, [])
      | Inr (datagram, src) \<Rightarrow>
          (let buf = take bufferSize datagram; st = st0\<lparr>udpClientAddr := Some src\<rparr>
           in case parseUDPRequest buf of
                Inl e \<Rightarrow> (Some (ErrWrap ''parse udp request: '' e []), st, [])
              | Inr (req, data) \<Rightarrow>
                  (case getOrDialTargetConn (ri_dial I) st (uaddr req) of
                     (Inl e, st1, as) \<Rightarrow>
                       (Some (ErrWrap (''dial target '' @ hostPort (uaddr req) @ '' fail: '') e []), st1, as)
                   | (Inr h, st1, as) \<Rightarrow>
                       (case ri_write I h data of
                          (nn, Some e) \<Rightarrow>
                            (Some (ErrWrap (''write to target '' @ hostPort (uaddr req) @ '' fail: '') e []),
                             st1, as @ [ToTarget h data])
                        | (nn, None) \<Rightarrow>
                            ((if nn \<noteq> int (length data)
                              then Some (ErrWrap (''write to target '' @ hostPort (uaddr req) @ '' fail: '') ErrShortWrite [])
                              else None),
                             st1, as @ [ToTarget h data])))))"

record response_in =
  si_read :: "byte list result"
  si_write :: "byte list \<Rightarrow> int \<times> gerror option"

definition handleUDPResponse ::
  "response_in \<Rightarrow> assoc \<Rightarrow> socksAddr \<Rightarrow> gerror option \<times> udp_action list" where
  "handleUDPResponse I st targetAddr =
     (case si_read I of
        Inl e \<Rightarrow> (Some (ErrWrap ''read from target: '' e []), [])
      | Inr datagram \<Rightarrow>
          (case udpRequest_marshal \<lparr>frag = 0, uaddr = targetAddr\<rparr> of
             Inl e \<Rightarrow> (Some (ErrWrap ''marshal udp request: '' e []), [])
           | Inr pkt \<Rightarrow>
               (let data = pkt @ take bufferSize datagram
                in case si_write I data of
                     (nn, Some e) \<Rightarrow>
                       (Some (ErrWrap ''write to client: '' e []), [ToClient data (udpClientAddr st)])
                   | (nn, None) \<Rightarrow>
                       ((if nn \<noteq> int (length data)
                         then Some (ErrWrap ''write to client: '' ErrShortWrite []) else None),
                        [ToClient data (udpClientAddr st)]))))"

section \<open>The loops\<close>

text \<open>
  The client loop leaves on a cancelled context or when its socket is closed (a time-out or
  any other error goes on to the next turn); leaving closes every target connection and cancels
  the context. A reader leaves on a cancelled context, a closed connection or end of file.
  \<open>AssocTCP\<close> is the associated TCP stream ending: \<^verbatim>\<open>transferUDP\<close> returns, which cancels.
\<close>

datatype assoc_event =
    ClientTurn request_in
  | ReaderTurn socksAddr nat response_in
  | AssocTCP

definition leave_loop :: "assoc \<Rightarrow> assoc" where
  "leave_loop st =
     st\<lparr>loop_running := False, ctx_done := True, closed := closed st \<union> ran (udpTargetConns st)\<rparr>"

fun assoc_step :: "assoc \<Rightarrow> assoc_event \<Rightarrow> assoc \<times> udp_action list" where
  "assoc_step st (ClientTurn I) =
     (if \<not> loop_running st then (st, [])
      else if ctx_done st then (leave_loop st, [])
      else (case handleUDPRequest I st of
          (None, st1, as) \<Rightarrow> (st1, as)
        | (Some e, st1, as) \<Rightarrow>
            if isTimeout e then (st1, as)
            else if is_net_closed e then (leave_loop st1, as)
            else (st1, as)))"
| "assoc_step st (ReaderTurn a h I) =
     (if (a, h) \<notin> set (live_readers st) then (st, [])
      else if ctx_done st then (st\<lparr>live_readers := remove1 (a, h) (live_readers st)\<rparr>, [])
      else (case handleUDPResponse I st a of
          (None, as) \<Rightarrow> (st, as)
        | (Some e, as) \<Rightarrow>
            if isTimeout e then (st, as)
            else if is_net_closed e \<or> is_eof e
            then (st\<lparr>live_readers := remove1 (a, h) (live_readers st)\<rparr>, as)
            else (st, as)))"
| "assoc_step st AssocTCP = (st\<lparr>ctx_done := True\<rparr>, [])"

fun assoc_run :: "assoc \<Rightarrow> assoc_event list \<Rightarrow> assoc \<times> udp_action list" where
  "assoc_run st [] = (st, [])"
| "assoc_run st (e # es) =
     (case assoc_step st e of
        (st1, as) \<Rightarrow> (case assoc_run st1 es of (st2, bs) \<Rightarrow> (st2, as @ bs)))"

section \<open>Lemmas\<close>

definition dialled :: "udp_action list \<Rightarrow> socksAddr \<Rightarrow> nat" where
  "dialled as a = count_list as (DialUDP a True)"

lemma dialled_simps [simp]:
  "dialled [] a = 0" "dialled (as @ bs) a = dialled as a + dialled bs a"
  "dialled (x # as) a = (if x = DialUDP a True then 1 else 0) + dialled as a"
  by (simp_all add: dialled_def)

text \<open>\<open>extends_by m m' as\<close>: no entry of \<open>m\<close> changed, and \<open>as\<close> dials each new one once.\<close>

definition extends_by :: "(socksAddr \<Rightarrow> nat option) \<Rightarrow> (socksAddr \<Rightarrow> nat option) \<Rightarrow> udp_action list \<Rightarrow> bool" where
  "extends_by m m' as \<longleftrightarrow>
     (\<forall>b h. m b = Some h \<longrightarrow> m' b = Some h) \<and>
     (\<forall>b. dialled as b = (if m b = None \<and> m' b \<noteq> None then 1 else 0))"

lemma extends_by_refl: "(\<And>b. dialled as b = 0) \<Longrightarrow> extends_by m m as"
  by (auto simp: extends_by_def)

lemma extends_by_nil [simp, intro]: "extends_by m m []"
  by (rule extends_by_refl) simp

lemma extends_by_upd: "m a = None \<Longrightarrow> extends_by m (m(a \<mapsto> h)) [DialUDP a True]"
  by (auto simp: extends_by_def)

lemma extends_by_trans:
  assumes "extends_by m1 m2 as" "extends_by m2 m3 bs"
  shows "extends_by m1 m3 (as @ bs)"
proof -
  have "dialled (as @ bs) b = (if m1 b = None \<and> m3 b \<noteq> None then 1 else 0)" for b
  proof (cases "m2 b")
    case None
    then have "m1 b = None" using assms(1) by (metis extends_by_def not_None_eq)
    with None assms show ?thesis by (simp add: extends_by_def)
  next
    case (Some h)
    then have "m3 b = Some h" using assms(2) by (simp add: extends_by_def)
    with Some assms show ?thesis by (simp add: extends_by_def)
  qed
  with assms show ?thesis by (simp add: extends_by_def)
qed

lemma extends_by_actions:
  "extends_by m m' as \<Longrightarrow> (\<And>b. dialled bs b = dialled as b) \<Longrightarrow> extends_by m m' bs"
  by (simp add: extends_by_def)

definition readers_from :: "assoc \<Rightarrow> assoc \<Rightarrow> bool" where
  "readers_from st st1 \<longleftrightarrow>
     (\<forall>x \<in> set (live_readers st1). x \<in> set (live_readers st) \<or> udpTargetConns st1 (fst x) = Some (snd x))"

lemma getOrDial_frame:
  assumes "getOrDialTargetConn dial st a = (r, st1, as)"
  shows "extends_by (udpTargetConns st) (udpTargetConns st1) as"
    and "loop_running st1 = loop_running st" "ctx_done st1 = ctx_done st" "closed st1 = closed st"
    and "readers_from st st1"
  using assms
  by (auto simp: getOrDialTargetConn_def readers_from_def intro!: extends_by_refl extends_by_upd
      split: option.splits sum.splits)

lemma handleUDPRequest_frame:
  assumes "handleUDPRequest I st = (r, st1, as)"
  shows "extends_by (udpTargetConns st) (udpTargetConns st1) as \<and>
    loop_running st1 = loop_running st \<and> ctx_done st1 = ctx_done st \<and> closed st1 = closed st \<and>
    readers_from st st1"
proof (cases "ri_read I")
  case (Inl e)
  with assms show ?thesis
    by (auto simp: handleUDPRequest_def readers_from_def intro: extends_by_refl)
next
  case (Inr df)
  obtain dg src where df: "df = (dg, src)" by (cases df)
  let ?st = "st\<lparr>udpClientAddr := Some src\<rparr>"
  show ?thesis
  proof (cases "parseUDPRequest (take bufferSize dg)")
    case (Inl e)
    with assms \<open>ri_read I = Inr df\<close> df show ?thesis
      by (auto simp: handleUDPRequest_def Let_def readers_from_def intro: extends_by_refl)
  next
    case (Inr rd)
    obtain req data where rd: "rd = (req, data)" by (cases rd)
    obtain r1 st2 as1 where g: "getOrDialTargetConn (ri_dial I) ?st (uaddr req) = (r1, st2, as1)"
      by (cases "getOrDialTargetConn (ri_dial I) ?st (uaddr req)") auto
    have "st1 = st2 \<and> (\<forall>b. dialled as b = dialled as1 b)"
      using assms \<open>ri_read I = Inr df\<close> df Inr rd g
      by (auto simp: handleUDPRequest_def Let_def split: sum.splits prod.splits option.splits)
    moreover have "readers_from st st2"
      using getOrDial_frame(5) [OF g] by (simp add: readers_from_def)
    ultimately show ?thesis
      using getOrDial_frame [OF g] extends_by_actions [of _ _ as1 as] by auto
  qed
qed

lemma handleUDPResponse_no_dial: "handleUDPResponse I st a = (r, as) \<Longrightarrow> dialled as b = 0"
  by (auto simp: handleUDPResponse_def Let_def split: sum.splits prod.splits option.splits)

text \<open>Every turn keeps the target of an address, and dials it only when it has none.\<close>

lemma assoc_step_extends:
  assumes "assoc_step st e = (st1, as)"
  shows "extends_by (udpTargetConns st) (udpTargetConns st1) as"
proof (cases e)
  case (ClientTurn I)
  obtain r st2 as2 where h: "handleUDPRequest I st = (r, st2, as2)" by (cases "handleUDPRequest I st") auto
  from handleUDPRequest_frame [OF h] ClientTurn assms h show ?thesis
    by (auto simp: leave_loop_def intro: extends_by_refl split: if_splits option.splits)
next
  case (ReaderTurn a h I)
  obtain r as2 where h: "handleUDPResponse I st a = (r, as2)" by (cases "handleUDPResponse I st a") auto
  from handleUDPResponse_no_dial [OF h] ReaderTurn assms h show ?thesis
    by (auto intro!: extends_by_refl split: if_splits option.splits)
next
  case AssocTCP
  with assms show ?thesis by (auto intro: extends_by_refl)
qed

lemma assoc_run_extends:
  "assoc_run st es = (st1, as) \<Longrightarrow> extends_by (udpTargetConns st) (udpTargetConns st1) as"
proof (induction es arbitrary: st as)
  case Nil
  then show ?case by (auto intro: extends_by_refl)
next
  case (Cons e es)
  obtain st2 as1 where s: "assoc_step st e = (st2, as1)" by (cases "assoc_step st e")
  obtain as2 where r: "assoc_run st2 es = (st1, as2)" "as = as1 @ as2"
    using Cons.prems s by (auto split: prod.splits)
  show ?case
    using extends_by_trans [OF assoc_step_extends [OF s] Cons.IH [OF r(1)]] r(2) by simp
qed

text \<open>The connections a running association owns, and what it has closed once the loop is left.\<close>

definition assoc_inv :: "assoc \<Rightarrow> bool" where
  "assoc_inv st \<longleftrightarrow>
     (\<forall>x \<in> set (live_readers st). udpTargetConns st (fst x) = Some (snd x)) \<and>
     (if loop_running st then closed st = {} else ctx_done st \<and> closed st = ran (udpTargetConns st))"

lemma assoc_inv_init: "assoc_inv assoc_init"
  by (simp add: assoc_inv_def assoc_init_def)

lemma readers_kept:
  assumes "\<forall>x \<in> set (live_readers st). udpTargetConns st (fst x) = Some (snd x)"
    and "readers_from st st1" "extends_by (udpTargetConns st) (udpTargetConns st1) as"
  shows "\<forall>x \<in> set (live_readers st1). udpTargetConns st1 (fst x) = Some (snd x)"
  using assms unfolding readers_from_def extends_by_def by blast

lemma assoc_inv_step:
  assumes inv: "assoc_inv st" and step: "assoc_step st e = (st1, as)"
  shows "assoc_inv st1"
proof (cases e)
  case (ClientTurn I)
  obtain r st2 as2 where h: "handleUDPRequest I st = (r, st2, as2)" by (cases "handleUDPRequest I st") auto
  note t = handleUDPRequest_frame [OF h]
  have "\<forall>x \<in> set (live_readers st2). udpTargetConns st2 (fst x) = Some (snd x)"
    using readers_kept [of st st2] inv t by (auto simp: assoc_inv_def)
  then show ?thesis
    using ClientTurn step h inv t
    by (auto simp: leave_loop_def assoc_inv_def split: if_splits option.splits) force+
next
  case (ReaderTurn a h I)
  then show ?thesis
    using inv step set_remove1_subset [of "(a, h)" "live_readers st"]
    by (auto simp: assoc_inv_def split: if_splits option.splits prod.splits) force+
next
  case AssocTCP
  with inv step show ?thesis by (auto simp: assoc_inv_def split: if_splits) force+
qed

lemma assoc_inv_run: "assoc_inv st \<Longrightarrow> assoc_run st es = (st1, as) \<Longrightarrow> assoc_inv st1"
proof (induction es arbitrary: st as)
  case Nil
  then show ?case by simp
next
  case (Cons e es)
  then show ?case by (auto split: prod.splits) (meson assoc_inv_step)
qed

section \<open>Properties of the association\<close>

definition demo_target :: socksAddr where
  "demo_target = \<lparr>addrType = domainName, addr = ''ntp'', port = 123\<rparr>"

definition demo_request :: "byte \<Rightarrow> request_in" where
  "demo_request f =
     \<lparr>ri_read = Inr ([0, 0, f] @ be_append_uint16 (domainName # 3 # bytes_of_string ''ntp'') 123 @ [42], ''10.1.1.1:900''),
      ri_dial = (\<lambda>_. Inr 5), ri_write = (\<lambda>_ bs. (int (length bs), None))\<rparr>"

lemma demo_request_parse:
  "parseUDPRequest ([0, 0, f] @ be_append_uint16 (domainName # 3 # bytes_of_string ''ntp'') 123 @ [42]) =
     Inr (\<lparr>frag = f, uaddr = demo_target\<rparr>, [42])"
proof -
  have "udpRequest_marshal \<lparr>frag = f, uaddr = demo_target\<rparr> =
      Inr ([0, 0, f] @ be_append_uint16 (domainName # 3 # bytes_of_string ''ntp'') 123)"
    by (simp add: udpRequest_marshal_def demo_target_def marshal_domain)
  then have "udp_reader (([0, 0, f] @ be_append_uint16 (domainName # 3 # bytes_of_string ''ntp'') 123) @ [42])
      = (Inr (canon_udp \<lparr>frag = f, uaddr = demo_target\<rparr>), [42])"
    by (rule udp.enc_parse)
  moreover have "canon_udp \<lparr>frag = f, uaddr = demo_target\<rparr> = \<lparr>frag = f, uaddr = demo_target\<rparr>"
    by (simp add: canon_udp_def canon_addr_def demo_target_def socks_consts)
  ultimately show ?thesis unfolding udp_reader_Inr [symmetric] by simp
qed

text \<open>Over any interleaving of client datagrams, target datagrams and shutdown, an
  association opens at most one connection per target address, and exactly one for each address
  in its map at the end.\<close>

lemma one_dial_per_target:
  assumes "assoc_run assoc_init es = (st, as)"
  shows "count_list as (DialUDP a True) = (if udpTargetConns st a = None then 0 else 1)"
  using assoc_run_extends [OF assms]
  by (simp add: extends_by_def dialled_def assoc_init_def)

text \<open>Once the client loop has been left, every target connection the association opened
  has been closed; while it runs none has. Each reader still running belongs to the connection
  its address is mapped to.\<close>

lemma targets_closed_on_exit:
  assumes "assoc_run assoc_init es = (st, as)"
  shows "closed st = (if loop_running st then {} else ran (udpTargetConns st)) \<and>
    (\<forall>a h. (a, h) \<in> set (live_readers st) \<longrightarrow> udpTargetConns st a = Some h)"
  using assoc_inv_run [OF assoc_inv_init assms] by (auto simp: assoc_inv_def split: if_splits)

text \<open>C28: Over any interleaving of client datagrams, target datagrams and shutdown, an
  association opens at most one connection per target address, and exactly one for each address in
  its map at the end. Once the client loop has been left each of them has been closed; while it runs
  none has, and each reader belongs to the connection its address is mapped to.\<close>

theorem association_targets:
  assumes "assoc_run assoc_init es = (st, as)"
  shows "count_list as (DialUDP a True) = (if udpTargetConns st a = None then 0 else 1) \<and>
    closed st = (if loop_running st then {} else ran (udpTargetConns st)) \<and>
    (\<forall>h. (a, h) \<in> set (live_readers st) \<longrightarrow> udpTargetConns st a = Some h)"
  using one_dial_per_target [OF assms] targets_closed_on_exit [OF assms] by blast

theorem association_targets_witness:
  "count_list (snd (assoc_run assoc_init [ClientTurn (demo_request 0), ClientTurn (demo_request 0)]))
     (DialUDP demo_target True) = 1"
proof -
  let ?es = "[ClientTurn (demo_request 0), ClientTurn (demo_request 0)]"
  obtain st as where r: "assoc_run assoc_init ?es = (st, as)" by (cases "assoc_run assoc_init ?es")
  have "take bufferSize ([0, 0, 0] @ be_append_uint16 (domainName # 3 # bytes_of_string ''ntp'') 123 @ [42]) =
      [0, 0, 0] @ be_append_uint16 (domainName # 3 # bytes_of_string ''ntp'') 123 @ [42]"
    by (rule take_all) (simp add: bufferSize_def be_append_uint16_def)
  then have "handleUDPRequest (demo_request 0) s = (None,
      s\<lparr>udpClientAddr := Some ''10.1.1.1:900'', udpTargetConns := (udpTargetConns s)(demo_target \<mapsto> 5),
        live_readers := live_readers s @ [(demo_target, 5)]\<rparr>, [DialUDP demo_target True, ToTarget 5 [42]])"
    if "udpTargetConns s demo_target = None" for s
    using that demo_request_parse [of 0]
    by (simp add: handleUDPRequest_def demo_request_def getOrDialTargetConn_def Let_def)
  then obtain s1 as1 where "assoc_step assoc_init (ClientTurn (demo_request 0)) = (s1, as1)"
    "udpTargetConns s1 demo_target \<noteq> None"
    by (simp add: assoc_init_def)
  then have "udpTargetConns st demo_target \<noteq> None"
    using r assoc_step_extends [of s1 "ClientTurn (demo_request 0)"]
    by (auto simp: extends_by_def split: prod.splits)
  then show ?thesis using association_targets [OF r, of demo_target] r by auto
qed

text \<open>C29: What a target sends back reaches the client as a datagram that the same format reads
  as: fragment 0, the (canonically spelled) address of that target, and the target's bytes up to
  the 8192 of the buffer; it goes to the address the client last sent from.\<close>

theorem udp_reply_roundtrip:
  assumes "si_read I = Inr datagram" and "is_ok (socksAddr_marshal a)"
  shows "\<exists>data. snd (handleUDPResponse I st a) = [ToClient data (udpClientAddr st)] \<and>
    parseUDPRequest data = Inr (\<lparr>frag = 0, uaddr = canon_addr a\<rparr>, take 8192 datagram)"
proof -
  obtain raw where "socksAddr_marshal a = Inr raw" using assms(2) by (rule is_okE)
  then have m: "udpRequest_marshal \<lparr>frag = 0, uaddr = a\<rparr> = Inr ([0, 0, 0] @ raw)"
    by (simp add: udpRequest_marshal_def)
  let ?data = "([0, 0, 0] @ raw) @ take 8192 datagram"
  have "parseUDPRequest ?data = Inr (\<lparr>frag = 0, uaddr = canon_addr a\<rparr>, take 8192 datagram)"
    using udp.enc_parse [OF m, of "take 8192 datagram"]
    unfolding udp_reader_Inr by (simp add: canon_udp_def)
  moreover have "snd (handleUDPResponse I st a) = [ToClient ?data (udpClientAddr st)]"
    using assms(1) m
    by (cases "si_write I ?data") (auto simp: handleUDPResponse_def bufferSize_def Let_def split: option.splits)
  ultimately show ?thesis by blast
qed

theorem udp_reply_roundtrip_witness:
  "\<exists>data. snd (handleUDPResponse \<lparr>si_read = Inr [1, 2], si_write = (\<lambda>bs. (int (length bs), None))\<rparr>
       (assoc_init\<lparr>udpClientAddr := Some ''10.1.1.1:900''\<rparr>) demo_target) =
       [ToClient data (udpClientAddr (assoc_init\<lparr>udpClientAddr := Some ''10.1.1.1:900''\<rparr>))] \<and>
     parseUDPRequest data = Inr (\<lparr>frag = 0, uaddr = canon_addr demo_target\<rparr>, take 8192 [1, 2])"
  by (rule udp_reply_roundtrip) (simp_all add: demo_target_def marshal_domain)

text \<open>C30: A datagram of at most 8192 bytes from the client whose target is known is forwarded
  on that target's connection, payload unchanged, and nothing is dialled. The fragment field is
  not looked at: a fragment of a larger datagram is forwarded as if it were whole. Nor is the source
  compared with anything: whoever sends to the association is served, and from then on gets what any
  target sends back, those the other senders had dialled included.\<close>

theorem udp_request_forwarded:
  assumes "ri_read I = Inr (hdr @ payload, src)" and "length (hdr @ payload) \<le> 8192"
    and "udpRequest_marshal \<lparr>frag = f, uaddr = a\<rparr> = Inr hdr" and "canon_addr a = a"
    and "udpTargetConns st a = Some h"
  shows "snd (handleUDPRequest I st) = (st\<lparr>udpClientAddr := Some src\<rparr>, [ToTarget h payload]) \<and>
    (\<forall>R b act. act \<in> set (snd (handleUDPResponse R (st\<lparr>udpClientAddr := Some src\<rparr>) b)) \<longrightarrow>
       (\<exists>data. act = ToClient data (Some src)))"
proof -
  have reply: "\<exists>data. act = ToClient data (Some src)"
    if "act \<in> set (snd (handleUDPResponse R (st\<lparr>udpClientAddr := Some src\<rparr>) b))" for R b act
    using that by (auto simp: handleUDPResponse_def Let_def split: sum.splits prod.splits option.splits)
  have "parseUDPRequest (hdr @ payload) = Inr (\<lparr>frag = f, uaddr = a\<rparr>, payload)"
    using udp.enc_parse [OF assms(3), of payload] assms(4)
    unfolding udp_reader_Inr by (simp add: canon_udp_def)
  with assms(1,2,5) have "snd (handleUDPRequest I st) = (st\<lparr>udpClientAddr := Some src\<rparr>, [ToTarget h payload])"
    by (cases "ri_write I h payload")
      (auto simp: handleUDPRequest_def bufferSize_def getOrDialTargetConn_def Let_def split: option.splits)
  with reply show ?thesis by blast
qed

theorem udp_request_forwarded_witness:
  "snd (handleUDPRequest (demo_request 7) (assoc_init\<lparr>udpTargetConns := [demo_target \<mapsto> 9]\<rparr>)) =
     (assoc_init\<lparr>udpTargetConns := [demo_target \<mapsto> 9], udpClientAddr := Some ''10.1.1.1:900''\<rparr>, [ToTarget 9 [42]])"
proof -
  let ?hdr = "[0, 0, 7] @ be_append_uint16 (domainName # 3 # bytes_of_string ''ntp'') 123"
  have "udpRequest_marshal \<lparr>frag = 7, uaddr = demo_target\<rparr> = Inr ?hdr"
    by (simp add: udpRequest_marshal_def demo_target_def marshal_domain)
  moreover have "ri_read (demo_request 7) = Inr (?hdr @ [42], ''10.1.1.1:900'')"
    by (simp add: demo_request_def)
  moreover have "length (?hdr @ [42]) \<le> 8192" by (simp add: be_append_uint16_def)
  moreover have "canon_addr demo_target = demo_target"
    by (simp add: canon_addr_def demo_target_def socks_consts)
  ultimately show ?thesis
    using udp_request_forwarded [of "demo_request 7" ?hdr "[42]" _ 7 demo_target
        "assoc_init\<lparr>udpTargetConns := [demo_target \<mapsto> 9]\<rparr>" 9] by simp
qed


end
