(* ===== verification/Spec2Isabelle.thy ===== *)
theory Spec2Isabelle
  imports Fleet SocksUdp
begin

text \<open>
  \<^bold>\<open>piaproxy: a WireGuard client of Private Internet Access behind SOCKS5 listeners\<close>

  The program registers a WireGuard key with PIA (src/pia.go), runs the tunnel in user space
  (src/tunnel.go), and serves SOCKS5 clients whose connections are dialled through it
  (src/socks5.go, src/socks_listener.go); src/proxy.go ties one tunnel to one listener, and the
  daemon in src/cmd/piaproxyd runs one proxy per city and a status page.

  \<^bold>\<open>Theories\<close>, in the order of their imports:
  \<^item> \<open>Prelude\<close>: machine values, byte strings, 64-bit wrap-around, Go errors with their wrapping
    chain, results. Its locales \<open>machine\<close> (a step relation with the states it reaches, and invariants
    proved over it) and \<open>refinement\<close> (a machine seen through a function of its states) are interpreted by every
    component that runs concurrently: \<open>serve_step\<close>, \<open>listener_step\<close>, \<open>run_step\<close>, \<open>proxy_step\<close>,
    \<open>shared_step\<close>, \<open>daemon_step\<close>, \<open>fleet_step\<close>. The locale \<open>progress\<close> is the argument by which a cancelled
    run, a call of the API client and a registration come to their end.
  \<^item> \<open>GoStrings\<close>, \<open>GoNetAddr\<close>, \<open>GoEncoding\<close>: what the source uses of the Go standard library
    (strconv, strings, time, net addresses, hex, base64, query escaping), translated from its
    documented behaviour; their lemmas are the round trips the components need.
  \<^item> \<open>SocksWire\<close>: the readers and writers of src/socks5.go. Readers are functions from the bytes of a
    stream to a result and the rest. The locales \<open>prefix_parser\<close> and \<open>wire_codec\<close> state what a
    reader and a pair of reader and writer promise; every reader of the file is an interpretation.
  \<^item> \<open>SocksServer\<close>: the registry of connections, \<^verbatim>\<open>Conn.Run\<close> and the handlers as functions from the
    client's bytes and the answers of the network to the actions taken, the relay as a fold over the
    turns of its two copy loops in any order, \<^verbatim>\<open>Serve\<close> as a step relation over goroutines that each
    run \<open>conn_Run\<close>.
  \<^item> \<open>SocksUdp\<close>: the UDP association as a function on events (turns of its loops in any order).
  \<^item> \<open>PiaClient\<close>: the API client: state passing over the record \<open>piaClient\<close>; the requests made are
    returned. The locale \<open>token_cache\<close> is what sessions rely on.
  \<^item> \<open>Tunnel\<close>: the tunnel's record, one bring-up, the turns of the two loops, the back-off, the
    snapshot, as functions.
  \<^item> \<open>TunnelRun\<close>: \<^verbatim>\<open>Run\<close> and \<^verbatim>\<open>runOnce\<close> as a step relation (\<open>run_step\<close>) over the registration in its
    parts, the start of the device, both loops as goroutines of their own (\<open>loop_step\<close>), the clean-up
    and a cancellation at any moment; \<open>run_inv\<close> and \<open>session_inv\<close> are its invariants, \<open>shown_next\<close> the
    abstract machine, over what a tunnel shows, that it refines. The lemmas \<open>uninterrupted_...\<close> say that the
    functions of \<open>Tunnel\<close> are what the steps do when nothing comes in between.
  \<^item> \<open>SocksListener\<close>: \<^verbatim>\<open>Start\<close>, \<^verbatim>\<open>Stop\<close> and the goroutines between them (\<open>listener_step\<close>), the
    dialer with its DNS override over the locale \<open>outbound\<close>, interpreted by the tunnel.
  \<^item> \<open>Proxy\<close>: \<^verbatim>\<open>Proxy.Run\<close> (\<open>proxy_step\<close>) over the steps of a tunnel and a listener; the status.
  \<^item> \<open>Daemon\<close>: environment variables, the list of cities, \<^verbatim>\<open>main\<close> up to the start of the proxies,
    the handlers of the status server.
  \<^item> \<open>SharedClient\<close>: the API client used by all tunnels at once: \<^verbatim>\<open>NewSessionWithServer\<close> cut at the
    critical sections of the client (\<open>call_step\<close>), the calls and region lookups of any number of
    goroutines interleaved (\<open>shared_step\<close>). A call nobody interrupts is the function of \<open>PiaClient\<close>
    (\<open>uninterrupted_call\<close>); one that is interrupted returns what the function can return
    (\<open>call_inv\<close>), and always can return (\<open>call_returns\<close>).
  \<^item> \<open>DaemonRun\<close>: the rest of \<^verbatim>\<open>main\<close>: the proxies under one context, the signal, the control server's
    failure or shutdown, the wait (\<open>daemon_step\<close>); the status page asked of the running daemon.
  \<^item> \<open>Fleet\<close>: the daemon composed with the one client its tunnels share (\<open>fleet_step\<close>). It refines
    \<open>daemon_step\<close> and \<open>shared_step\<close>; \<open>fleet_bring_up\<close> says that it can do what a tunnel alone can.
  \<^item> This theory: a request from the client's bytes to the tunnel, while the tunnel is down and while
    it is up.

  \<^bold>\<open>What is a parameter.\<close> Everything outside src/: the answers of the network, the WireGuard device
  and the netstack (fields of \<open>bringup\<close>, \<open>attempt\<close>, \<open>net_env\<close>, \<open>health_in\<close>, \<open>stats_in\<close>), the Unicode
  tables, JSON, X.509, PEM and Curve25519 (the record \<open>libs\<close>), the rounding of floating point
  (\<open>fl\<close>), the order in which a map is ranged over, the clock. Redirects the HTTP client follows are
  part of its answer.

  \<^bold>\<open>Critical sections.\<close> A section under a mutex is one step. What one call does in several sections
  is given several states (\<open>Proxy_Snapshot\<close>, \<open>views\<close>) or several steps (\<open>call_step\<close>, \<open>loop_step\<close>, the
  registration in \<open>run_step\<close>). The start of a device, from its netstack to the section that publishes
  the tunnel, is one step: nothing of it can be seen before, and nobody else writes the tunnel
  meanwhile. A step relation has no fuel; functions are total, with \<open>fun\<close> and structural or
  measured recursion. The one loop that could fail to end, over PEM blocks, is a partial
  function, and it is shown to return; that runs, calls and the daemon can end is shown by a
  measure of the way still to go (\<open>to_go\<close>, \<open>call_size\<close>, \<open>reg_size\<close>).

  \<^bold>\<open>Not modelled.\<close> Log output and the functions that choose where it goes (\<^verbatim>\<open>Server.logf\<close>,
  \<^verbatim>\<open>SocksListener.logf\<close>); time-outs of contexts and deadlines as such (their effect is an error
  of the answer they cut short); the Android hooks (\<^verbatim>\<open>Bind\<close>, \<^verbatim>\<open>HTTPDial\<close> with \<^verbatim>\<open>dialFunc\<close>
  and \<^verbatim>\<open>httpTransport\<close>), which only choose a dial function; the JSON encoding of the status; the
  HTTP server itself, of which the model has that it may fail and that it is shut down; the dashboard page and the script that prepares a region file.
\<close>

section \<open>Requests across the components\<close>

lemma handle_connect_refused:
  assumes "parseClientRequest bs = (Inr req, rest)" and "command req = connect"
    and "ne_dial E ''tcp'' (hostPort (destination req)) = Inl e"
  shows "handleRequest E c bs =
    \<lparr>o_ret = Some (Some e), o_conn = c\<lparr>dest := hostPort (destination req), conn_method := ''tcp''\<rparr>,
     o_actions = [Dial ''tcp'' (hostPort (destination req)), Write [5, 1, 0, 1, 0, 0, 0, 0, 0, 0]]\<rparr>"
  using assms
  by (simp add: handleRequest_def handleTCP_def Let_def generalFailure_def prefix_actions_def stop_def)

text \<open>What a connection of the proxy's listener dials through.\<close>

definition proxy_dial ::
  "(dev_id \<Rightarrow> string dial_fun) \<Rightarrow> (string dial_fun \<Rightarrow> string \<Rightarrow> string \<Rightarrow> byte list list result) \<Rightarrow>
   proxy_world \<Rightarrow> string dial_fun" where
  "proxy_dial netdial resolve W =
     Dialer (Tunnel_Dial netdial (tun (px_run W))) resolve
       (buildDNSOverride (Tunnel_Dial netdial (tun (px_run W))) (l_opts (lst (px_lw W))))"

lemma status_down:
  assumes "proxy_reach L fl p W"
    and "st_State (Proxy_Snapshot fl now1 now2 pia ord W W W) \<notin> {StateUp, StateDegraded}"
  shows "netNet (tun (px_run W)) = None"
proof -
  note parts = proxy_reach_parts [OF assms(1)]
  have *: "netNet (tun (px_run W)) = None" if "state (tun (px_run W)) \<notin> {StateUp, StateDegraded}"
    using parts(1) that by (cases "pc (px_run W)") (auto simp: run_inv_def serving_ok_def quiet_def)
  show ?thesis
  proof (cases "p_set (px W)")
    case True
    with assms(2) show ?thesis
      by (intro *) (simp add: Proxy_Snapshot_def merge_listener_def merge_tunnel_def Tunnel_Snapshot_def Let_def)
  next
    case False
    with parts(3) have "px_pc W = PInit \<or> px_pc W = PDone"
      by (cases "px_pc W") (simp_all add: phase_inv_def)
    then show ?thesis
    proof
      assume "px_pc W = PDone"
      with parts(1,3) show ?thesis by (simp add: phase_inv_def run_inv_def quiet_def)
    next
      assume "px_pc W = PInit"
      then show ?thesis using init_not_started [OF assms(1)] by simp
    qed
  qed
qed

section \<open>Properties\<close>

text \<open>C10: While the status of a proxy shows neither up nor degraded, every CONNECT request of a
  client of its listener that got past the greeting, and past the credentials of the proxy when it
  has any, is answered with the general-failure code after one refused dial, and nothing is relayed;
  the connection ends with the error of the dial. Without a DNS override that error is the tunnel
  being down. The server has the proxy's credentials, as every server of its listener has, and dials
  as the proxy does in the state in which the status is read.\<close>

theorem tunnel_down_refuses_connect:
  assumes "proxy_reach L fl p W"
    and "st_State (Proxy_Snapshot fl now1 now2 pia ord W W W) \<notin> {StateUp, StateDegraded}"
    and "ne_dial E = server_dial (Some (proxy_dial netdial resolve W)) std"
    and "srv_username s = p_Username p" "srv_password s = p_Password p"
    and "opens_with (p_Username p) (p_Password p) bs bs1"
    and "parseClientRequest bs1 = (Inr req, rest)" and "command req = connect"
  shows "\<exists>e. o_ret (conn_Run s E c bs) = Some (Some e) \<and>
    o_actions (conn_Run s E c bs) = hello_replies (p_Username p) (p_Password p) @
      [Dial ''tcp'' (hostPort (destination req)), Write [5, 1, 0, 1, 0, 0, 0, 0, 0, 0]] \<and>
    (p_DNSResolverIP p = None \<longrightarrow> e = ErrTunnelDown)"
proof -
  have down: "\<not> netNet (tun (px_run W)) \<noteq> None" using status_down [OF assms(1,2)] by simp
  have "l_opts (lst (px_lw W)) = proxy_opts p"
    using proxy_reach_parts(2) [OF assms(1)] by (simp add: listener_inv_def)
  then have d: "ne_dial E = Dialer (Tunnel_Dial netdial (tun (px_run W))) resolve
      (buildDNSOverride (Tunnel_Dial netdial (tun (px_run W))) (proxy_opts p))"
    using assms(3) by (simp add: server_dial_def proxy_dial_def fun_eq_iff)
  obtain e where e: "ne_dial E ''tcp'' (hostPort (destination req)) = Inl e"
    using tn.dialer_down [OF down] unfolding d by blast
  have "e = ErrTunnelDown" if "p_DNSResolverIP p = None"
    using e that tn.dialer_down_plain [OF down, of netdial resolve]
    unfolding d by (simp add: buildDNSOverride_def proxy_opts_def)
  moreover have "conn_Run s E c bs =
      prefix_actions (hello_replies (p_Username p) (p_Password p)) (handleRequest E c bs1)"
    using conn_Run_opens [of s bs bs1 E c] assms(4-6) by simp
  ultimately show ?thesis
    using handle_connect_refused [OF assms(7,8) e] by (intro exI [of _ e]) simp
qed

theorem tunnel_down_refuses_connect_witness:
  "\<exists>p W E. proxy_reach demo_libs (\<lambda>x. x) p W \<and> needAuth demo_server \<and>
     o_ret (conn_Run demo_server E fresh_conn
       ([5, 2, 0, 2, 1, 1, 117, 1, 112] @ [5, 1, 0, 1, 10, 0, 0, 1, 0, 80])) = Some (Some ErrTunnelDown)"
proof -
  let ?p = "(NewProxy demo_cfg)\<lparr>p_Username := ''u'', p_Password := ''p''\<rparr>"
  let ?W = "proxy_start ?p"
  let ?std = "\<lambda>_ _. Inl ErrCanceled"
  let ?E = "\<lparr>ne_dial = server_dial (Some (proxy_dial (\<lambda>n nw a. Inr ''10.0.0.2:1'') (\<lambda>_ _ _. Inl ErrCanceled) ?W)) ?std,
      ne_local = [], ne_listen = (\<lambda>_. Inl ErrCanceled), ne_turns = [], ne_assoc = None\<rparr>"
  let ?d = "\<lparr>addrType = ipv4, addr = ip_string [10, 0, 0, 1], port = be_uint16 0 80\<rparr>"
  have s: "st_State (Proxy_Snapshot (\<lambda>x. x) 0 0 None [] ?W ?W ?W) \<notin> {StateUp, StateDegraded}"
    by (simp add: Proxy_Snapshot_def proxy_start_def idle_status_def)
  have e: "ne_dial ?E = server_dial (Some (proxy_dial (\<lambda>n nw a. Inr ''10.0.0.2:1'') (\<lambda>_ _ _. Inl ErrCanceled) ?W)) ?std"
    by simp
  have a: "srv_username demo_server = p_Username ?p" "srv_password demo_server = p_Password ?p"
    by (simp_all add: demo_server_def)
  have g: "opens_with (p_Username ?p) (p_Password ?p)
      ([5, 2, 0, 2, 1, 1, 117, 1, 112] @ [5, 1, 0, 1, 10, 0, 0, 1, 0, 80]) [5, 1, 0, 1, 10, 0, 0, 1, 0, 80]"
    unfolding opens_with_def
    by (intro exI [of _ "[0, 2]"]) (simp add: passwordAuth_def bytes_of_string_def)
  have q: "parseClientRequest [5, 1, 0, 1, 10, 0, 0, 1, 0, 80] = (Inr \<lparr>command = 1, destination = ?d\<rparr>, [])"
    using parse_request_ipv4 [of "[10, 0, 0, 1]" 5 1 0 0 80 "[]"] by simp
  have c: "command \<lparr>command = 1, destination = ?d\<rparr> = connect" by (simp add: connect_def)
  have "p_DNSResolverIP ?p = None" by (simp add: NewProxy_def)
  moreover have r: "proxy_reach demo_libs (\<lambda>x. x) ?p ?W" by (rule proxy_reach.start)
  ultimately have "o_ret (conn_Run demo_server ?E fresh_conn
      ([5, 2, 0, 2, 1, 1, 117, 1, 112] @ [5, 1, 0, 1, 10, 0, 0, 1, 0, 80])) = Some (Some ErrTunnelDown)"
    using tunnel_down_refuses_connect [OF r s e a g q c] by blast
  moreover have "needAuth demo_server" by (simp add: needAuth_def demo_server_def)
  ultimately show ?thesis using r by blast
qed

text \<open>C9: The other way round: while the status shows up or degraded, a client of the listener that
  sends a greeting, the credentials of the proxy when it has any, and a CONNECT request for some
  address (with anything in the version and the reserved byte; every address that can be read is in
  canonical spelling) has a connection made over the only open device. Without a DNS override it is
  exactly the address of the request that is dialled. With one, an IP literal is dialled as it is, and
  so is an address with brackets that cannot be split; any other name is looked up by queries
  over the same device and dialled at the first address of the answer, with its port, or refused
  if there is none. The client gets the success reply and its bytes are relayed from then on,
  or it gets the general failure and the connection ends with the error of the dial; when the local end of
  the connection made cannot be read, it ends with no reply. The server has the proxy's
  credentials, as every server of its listener has, and dials as the proxy does in the state in which the
  status is read.\<close>

theorem connect_through_tunnel:
  assumes "proxy_reach L fl p W"
    and "st_State (Proxy_Snapshot fl now1 now2 pia ord W W W) \<in> {StateUp, StateDegraded}"
    and "ne_dial E = server_dial (Some (proxy_dial netdial resolve W)) std"
    and "srv_username s = p_Username p" "srv_password s = p_Password p"
    and "socksAddr_marshal a = Inr raw" and "canon_addr a = a"
    and "opens_with (p_Username p) (p_Password p) bs ([ver, 1, rsv] @ raw @ rest)"
    and "out = conn_Run s E c bs"
  shows "\<exists>n r. open_devs (px_run W) = {n} \<and>
    (case p_DNSResolverIP p of
       None \<Rightarrow> r = netdial n ''tcp'' (hostPort a)
     | Some dns \<Rightarrow>
         (case target_host (addr a) of
            None \<Rightarrow> r = netdial n ''tcp'' (hostPort a)
          | Some h \<Rightarrow>
              if parse_ip h \<noteq> None then r = netdial n ''tcp'' (hostPort a)
              else (case resolve (\<lambda>nw _. netdial n nw (join_host_port (ip_string dns) ''53'')) ''ip4'' h of
                  Inr (ip # _) \<Rightarrow> r = netdial n ''tcp'' (join_host_port (ip_string ip) (itoa (int (unat (port a)))))
                | _ \<Rightarrow> \<not> is_ok r))) \<and>
    (case r of
       Inl e \<Rightarrow> o_ret out = Some (Some e) \<and>
         o_actions out = hello_replies (p_Username p) (p_Password p) @
           [Dial ''tcp'' (hostPort a), Write [5, 1, 0, 1, 0, 0, 0, 0, 0, 0]]
     | Inr la \<Rightarrow>
         (case splitHostPort la of
            Inl e \<Rightarrow> o_ret out = Some (Some e) \<and>
              o_actions out = hello_replies (p_Username p) (p_Password p) @ [Dial ''tcp'' (hostPort a)]
          | Inr (h, q) \<Rightarrow> o_ret out = first (relay_run (relay_start c) (ne_turns E)) \<and>
              o_actions out = hello_replies (p_Username p) (p_Password p) @
                [Dial ''tcp'' (hostPort a), Write (success_reply h q), Relay]))"
proof -
  obtain n where n: "netNet (tun (px_run W)) = Some n"
    using snapshot_serving [OF assms(1) rtranclp.rtrancl_refl assms(2)] by blast
  then have dev: "open_devs (px_run W) = {n}"
    using serving_facts [OF proxy_reach_parts(1) [OF assms(1)]] by blast
  define r where "r = Dialer (netdial n) resolve (buildDNSOverride (netdial n) (proxy_opts p)) ''tcp'' (hostPort a)"
  have tn: "Tunnel_Dial netdial (tun (px_run W)) = netdial n"
    by (simp add: Tunnel_Dial_def n fun_eq_iff)
  have "l_opts (lst (px_lw W)) = proxy_opts p"
    using proxy_reach_parts(2) [OF assms(1)] by (simp add: listener_inv_def)
  then have d: "ne_dial E ''tcp'' (hostPort a) = r"
    by (simp add: assms(3) server_dial_def proxy_dial_def tn r_def)
  have opts: "so_DNSResolverIP (proxy_opts p) = p_DNSResolverIP p" by (simp add: proxy_opts_def)
  have out: "out = prefix_actions (hello_replies (p_Username p) (p_Password p)) (handleTCP E c \<lparr>command = 1, destination = a\<rparr>)"
    using conn_Run_opens [of s bs "[ver, 1, rsv] @ raw @ rest" E c] assms(4,5,8,9)
    by (simp only: handle_connect [OF assms(6,7)])
  show ?thesis
  proof (intro exI [of _ n] exI [of _ r] conjI dev)
    show "case p_DNSResolverIP p of
       None \<Rightarrow> r = netdial n ''tcp'' (hostPort a)
     | Some dns \<Rightarrow>
         (case target_host (addr a) of
            None \<Rightarrow> r = netdial n ''tcp'' (hostPort a)
          | Some h \<Rightarrow>
              if parse_ip h \<noteq> None then r = netdial n ''tcp'' (hostPort a)
              else (case resolve (\<lambda>nw _. netdial n nw (join_host_port (ip_string dns) ''53'')) ''ip4'' h of
                  Inr (ip # _) \<Rightarrow> r = netdial n ''tcp'' (join_host_port (ip_string ip) (itoa (int (unat (port a)))))
                | _ \<Rightarrow> \<not> is_ok r))"
      by (cases "p_DNSResolverIP p")
        (auto simp: r_def opts Dialer_no_override Dialer_override split: option.split sum.split list.split)
  qed (auto simp: out handleTCP_def d relay_start_def generalFailure_def Let_def split: sum.split)
qed

theorem connect_through_tunnel_witness:
  "\<exists>E raw. needAuth demo_server \<and> socksAddr_marshal demo_target = Inr raw \<and>
     o_actions (conn_Run demo_server E fresh_conn ([5, 1, 2, 1, 1, 117, 1, 112] @ [5, 1, 0] @ raw @ [])) =
       hello_replies ''u'' ''p'' @
       [Dial ''tcp'' (hostPort demo_target), Write (success_reply ''10.0.0.2'' 4000), Relay]"
proof -
  let ?p = "(NewProxy demo_cfg)\<lparr>p_Username := ''u'', p_Password := ''p''\<rparr>"
  obtain R where R: "run_reach demo_libs (\<lambda>x. x) demo_cfg R" "netNet (tun R) = Some 4" "state (tun R) = StateUp"
    using demo_serving by blast
  with proxy_runs_tunnel [of demo_libs "\<lambda>x. x" ?p R] obtain W where
    W: "proxy_reach demo_libs (\<lambda>x. x) ?p W" "px_run W = R" "p_set (px W)"
    by (auto simp: NewProxy_def)
  have up: "st_State (Proxy_Snapshot (\<lambda>x. x) 0 0 None [] W W W) \<in> {StateUp, StateDegraded}"
    using W(2,3) R(3) by (simp add: Proxy_Snapshot_def merge_listener_def merge_tunnel_def Tunnel_Snapshot_def Let_def)
  let ?d = "server_dial (Some (proxy_dial (\<lambda>n nw a. Inr ''10.0.0.2:4000'') (\<lambda>_ _ _. Inl ErrCanceled) W)) (\<lambda>_ _. Inl ErrCanceled)"
  let ?E = "(up_env [])\<lparr>ne_dial := ?d\<rparr>"
  have e: "ne_dial ?E = ?d" by simp
  have p: "srv_username demo_server = p_Username ?p" "srv_password demo_server = p_Password ?p"
    and dns: "p_DNSResolverIP ?p = None"
    by (simp_all add: NewProxy_def demo_server_def)
  obtain raw where raw: "socksAddr_marshal demo_target = Inr raw"
    by (simp add: demo_target_def marshal_domain)
  have c: "canon_addr demo_target = demo_target"
    by (simp add: canon_addr_def demo_target_def socks_consts)
  have o: "opens_with (p_Username ?p) (p_Password ?p) ([5, 1, 2, 1, 1, 117, 1, 112] @ [5, 1, 0] @ raw @ []) ([5, 1, 0] @ raw @ [])"
    unfolding opens_with_def by (intro exI [of _ "[2]"]) (simp add: passwordAuth_def bytes_of_string_def)
  from connect_through_tunnel [OF W(1) up e p raw c o refl, of fresh_conn] dns
  have "o_actions (conn_Run demo_server ?E fresh_conn ([5, 1, 2, 1, 1, 117, 1, 112] @ [5, 1, 0] @ raw @ [])) =
      hello_replies ''u'' ''p'' @ [Dial ''tcp'' (hostPort demo_target), Write (success_reply ''10.0.0.2'' 4000), Relay]"
    by (simp add: split_up_local)
  moreover have "needAuth demo_server" by (simp add: needAuth_def demo_server_def)
  ultimately show ?thesis using raw by blast
qed

end
